(* ===== verification/Prelude.thy ===== *)
theory Prelude
  imports Main "HOL-Library.Word"
begin

text \<open>
  Shared vocabulary of the development: bytes and machine integers, blocks of memory and the
  C library calls that act on them, little-endian integers, and the list lemmas the component
  theories use.

  A block of memory is a list of bytes. A read takes the bytes that are there, a write is meant
  for a range inside the block; every component proves that its accesses are inside. The bytes
  that \<open>zmalloc\<close> and \<open>zrealloc\<close> leave uninitialised are an argument
  \<open>g\<close> of the model (byte \<open>g i\<close> at offset \<open>i\<close>), so a theorem for all \<open>g\<close>
  shows that the code does not depend on them.
\<close>

unbundle bit_operations_syntax

section \<open>Types and collections\<close>

type_synonym byte = "8 word"
type_synonym bytes = "8 word list"

named_theorems mem_simps "rewriting of reads over writes of a memory block"

text \<open>Ranges of the C integer types, for values kept in \<^typ>\<open>int\<close> and \<^typ>\<open>nat\<close>.\<close>

abbreviation INT16_MIN :: int where "INT16_MIN \<equiv> - 32768"
abbreviation INT16_MAX :: int where "INT16_MAX \<equiv> 32767"
abbreviation INT32_MIN :: int where "INT32_MIN \<equiv> - 2147483648"
abbreviation INT32_MAX :: int where "INT32_MAX \<equiv> 2147483647"
abbreviation LLONG_MIN :: int where "LLONG_MIN \<equiv> - 9223372036854775808"
abbreviation LLONG_MAX :: int where "LLONG_MAX \<equiv> 9223372036854775807"
abbreviation ULLONG_MAX :: nat where "ULLONG_MAX \<equiv> 18446744073709551615"
abbreviation UINT32_MAX :: nat where "UINT32_MAX \<equiv> 4294967295"
abbreviation UINT16_MAX :: nat where "UINT16_MAX \<equiv> 65535"

definition is_int64 :: "int \<Rightarrow> bool" where
  "is_int64 v \<longleftrightarrow> LLONG_MIN \<le> v \<and> v \<le> LLONG_MAX"

section \<open>Results\<close>

text \<open>Sequencing of code that may fail: \<open>Inl\<close> is the error, \<open>Inr\<close> the value.\<close>

definition rbind :: "('err + 'v) \<Rightarrow> ('v \<Rightarrow> 'err + 'w) \<Rightarrow> 'err + 'w" where
  "rbind r k = (case r of Inr v \<Rightarrow> k v | Inl err \<Rightarrow> Inl err)"

lemma rbind_simps [simp]: "rbind (Inr a) f = f a" "rbind (Inl e) f = Inl e"
  by (simp_all add: rbind_def)

lemma rbind_cong [fundef_cong]:
  "r = r' \<Longrightarrow> (\<And>a. r' = Inr a \<Longrightarrow> f a = f' a) \<Longrightarrow> rbind r f = rbind r' f'"
  by (cases r') (auto simp: rbind_def)

lemma rbind_Inr: "rbind r f = Inr y \<longleftrightarrow> (\<exists>x. r = Inr x \<and> f x = Inr y)"
  by (cases r) auto

text \<open>The code returns: no error branch is taken.\<close>

definition returns :: "('e + 'a) \<Rightarrow> bool" where
  "returns r \<longleftrightarrow> (\<exists>y. r = Inr y)"

lemma returns_intros:
  "returns (Inr y)"
  "(c \<Longrightarrow> returns a) \<Longrightarrow> (\<not> c \<Longrightarrow> returns b) \<Longrightarrow> returns (if c then a else b)"
  "returns r \<Longrightarrow> (\<And>y. r = Inr y \<Longrightarrow> returns (f y)) \<Longrightarrow> returns (rbind r f)"
  by (auto simp: returns_def)

text \<open>The code returns, and what it returns satisfies \<open>P\<close>.\<close>

definition ensures :: "('e + 'a) \<Rightarrow> ('a \<Rightarrow> bool) \<Rightarrow> bool" where
  "ensures r P \<longleftrightarrow> (\<exists>x. r = Inr x \<and> P x)"

lemma ensures_Inr [simp]: "ensures (Inr x) P \<longleftrightarrow> P x"
  by (auto simp: ensures_def)

lemma ensures_bind: "ensures r Q \<Longrightarrow> (\<And>x. Q x \<Longrightarrow> ensures (f x) P) \<Longrightarrow> ensures (rbind r f) P"
  by (auto simp: ensures_def)

lemma ensures_mono: "ensures r Q \<Longrightarrow> (\<And>x. Q x \<Longrightarrow> P x) \<Longrightarrow> ensures r P"
  by (auto simp: ensures_def)

lemma ensures_if: "(c \<Longrightarrow> ensures a P) \<Longrightarrow> (\<not> c \<Longrightarrow> ensures b P) \<Longrightarrow> ensures (if c then a else b) P"
  by simp

section \<open>Memory blocks\<close>

definition mem_read :: "bytes \<Rightarrow> nat \<Rightarrow> nat \<Rightarrow> bytes" where
  "mem_read m off n = take n (drop off m)"

text \<open>\<open>memcpy\<close> of \<open>bs\<close> to offset \<open>off\<close>.\<close>

definition mem_write :: "bytes \<Rightarrow> nat \<Rightarrow> bytes \<Rightarrow> bytes" where
  "mem_write m off bs = take off m @ bs @ drop (off + length bs) m"

text \<open>\<open>memmove\<close> inside one block: the source is read before anything is written.\<close>

definition mem_move :: "bytes \<Rightarrow> nat \<Rightarrow> nat \<Rightarrow> nat \<Rightarrow> bytes" where
  "mem_move m dst src n = mem_write m dst (mem_read m src n)"

definition mem_realloc :: "(nat \<Rightarrow> byte) \<Rightarrow> bytes \<Rightarrow> nat \<Rightarrow> bytes" where
  "mem_realloc g m n = take n m @ map g [length m..<n]"

lemma length_mem_read [simp]: "length (mem_read m off n) = min n (length m - off)"
  by (simp add: mem_read_def)

lemma length_mem_write [simp]:
  "off + length bs \<le> length m \<Longrightarrow> length (mem_write m off bs) = length m"
  by (simp add: mem_write_def)

lemma length_mem_realloc [simp]: "length (mem_realloc g m n) = n"
  by (simp add: mem_realloc_def)

lemma length_mem_move [simp]:
  "dst + n \<le> length m \<Longrightarrow> length (mem_move m dst src n) = length m"
  by (simp add: mem_move_def)

lemma nth_mem_write:
  "off + length bs \<le> length m \<Longrightarrow> i < length m \<Longrightarrow>
   mem_write m off bs ! i = (if i < off then m ! i
     else if i < off + length bs then bs ! (i - off) else m ! i)"
  by (auto simp: mem_write_def nth_append)

lemma mem_read_write_same [mem_simps]:
  "off + length bs \<le> length m \<Longrightarrow> n = length bs \<Longrightarrow> mem_read (mem_write m off bs) off n = bs"
  by (simp add: mem_read_def mem_write_def)

lemma mem_read_write_before [mem_simps]:
  "off + length bs \<le> length m \<Longrightarrow> a + n \<le> off \<Longrightarrow>
   mem_read (mem_write m off bs) a n = mem_read m a n"
  by (simp add: mem_read_def mem_write_def take_drop min_def)

lemma mem_read_write_after [mem_simps]:
  "off + length bs \<le> length m \<Longrightarrow> off + length bs \<le> a \<Longrightarrow>
   mem_read (mem_write m off bs) a n = mem_read m a n"
  by (simp add: mem_read_def mem_write_def)

lemma mem_read_realloc [mem_simps]:
  "off + n \<le> length m \<Longrightarrow> off + n \<le> k \<Longrightarrow> mem_read (mem_realloc g m k) off n = mem_read m off n"
  by (simp add: mem_read_def mem_realloc_def take_drop min_def)

lemma mem_read_read [mem_simps]:
  "b + k \<le> n \<Longrightarrow> mem_read (mem_read m a n) b k = mem_read m (a + b) k"
  by (simp add: mem_read_def drop_take min_def add.commute)

lemma mem_read_move_in [mem_simps]:
  assumes "src + n \<le> length m" "dst + n \<le> length m" "dst \<le> a" "a + k \<le> dst + n"
  shows "mem_read (mem_move m dst src n) a k = mem_read m (src + (a - dst)) k"
proof -
  have "mem_read (mem_move m dst src n) a k
      = take k (drop (a - dst) (mem_read m src n))"
    using assms by (simp add: mem_move_def mem_write_def mem_read_def)
  also have "\<dots> = mem_read (mem_read m src n) (a - dst) k" by (simp only: mem_read_def)
  also have "\<dots> = mem_read m (src + (a - dst)) k" using assms by (simp add: mem_read_read)
  finally show ?thesis .
qed

lemma mem_read_move_before [mem_simps]:
  "src + n \<le> length m \<Longrightarrow> dst + n \<le> length m \<Longrightarrow> a + k \<le> dst \<Longrightarrow>
   mem_read (mem_move m dst src n) a k = mem_read m a k"
  by (simp add: mem_move_def mem_simps)

section \<open>Little-endian integers\<close>

text \<open>\<open>le_bytes n x\<close> stores the low \<open>n\<close> bytes of \<open>x\<close>, as an assignment to an
  \<open>n\<close>-byte C object does on a little-endian host; \<open>le_uint\<close> and \<open>le_sint\<close> read them
  back as an unsigned and as a two's complement value.\<close>

fun le_bytes :: "nat \<Rightarrow> int \<Rightarrow> bytes" where
  "le_bytes 0 x = []"
| "le_bytes (Suc n) x = word_of_int x # le_bytes n (x div 256)"

fun le_uint :: "bytes \<Rightarrow> int" where
  "le_uint [] = 0"
| "le_uint (b # bs) = uint b + 256 * le_uint bs"

definition le_sint :: "bytes \<Rightarrow> int" where
  "le_sint bs = (let u = le_uint bs in
     if u < 2 ^ (8 * length bs - 1) then u else u - 2 ^ (8 * length bs))"

lemma length_le_bytes [simp]: "length (le_bytes n x) = n"
  by (induction n x rule: le_bytes.induct) auto

lemma le_uint_bounds: "0 \<le> le_uint bs \<and> le_uint bs < 256 ^ length bs"
proof (induction bs)
  case (Cons b bs)
  have "uint b < 256" using uint_lt2p [of b] by simp
  with Cons show ?case by auto
qed simp

lemmas le_uint_nonneg [simp] = le_uint_bounds [THEN conjunct1]
lemmas le_uint_less = le_uint_bounds [THEN conjunct2]

lemma le_uint_le_bytes: "le_uint (le_bytes n x) = x mod 256 ^ n"
proof (induction n arbitrary: x)
  case (Suc n)
  have "x mod (256 * 256 ^ n) = 256 * (x div 256 mod 256 ^ n) + x mod 256"
    by (rule zmod_zmult2_eq) simp
  with Suc show ?case by (simp add: uint_word_of_int)
qed simp

lemma le_uint_le_bytes_id: "0 \<le> x \<Longrightarrow> x < 256 ^ n \<Longrightarrow> le_uint (le_bytes n x) = x"
  by (simp add: le_uint_le_bytes)

lemma le_bytes_le_uint: "n = length bs \<Longrightarrow> le_bytes n (le_uint bs) = bs"
proof (induction bs arbitrary: n)
  case (Cons b bs)
  have "uint b < 256" using uint_lt2p [of b] by simp
  moreover have "(word_of_int (uint b + 256 * le_uint bs) :: byte) = word_of_int (uint b)"
    by (simp only: word_uint_eq_iff uint_word_of_int) simp
  ultimately show ?case using Cons by simp
qed simp

lemma pow_256: "(256::int) ^ n = 2 ^ (8 * n)"
  by (simp add: power_mult)

lemma le_sint_le_bytes:
  assumes "0 < n" "- (2 ^ (8 * n - 1)) \<le> x" "x < 2 ^ (8 * n - 1)"
  shows "le_sint (le_bytes n x) = x"
proof -
  define h :: int where "h = 2 ^ (8 * n - 1)"
  have full: "(2::int) ^ (8 * n) = 2 * h"
    using assms(1) unfolding h_def by (simp flip: power_Suc)
  have u: "le_uint (le_bytes n x) = x mod (2 * h)"
    by (simp add: le_uint_le_bytes pow_256 full)
  show ?thesis
  proof (cases "0 \<le> x")
    case True
    then have "x mod (2 * h) = x" using assms(3) by (simp add: h_def)
    with True assms(3) u show ?thesis by (simp add: le_sint_def Let_def h_def)
  next
    case False
    have "x mod (2 * h) = (x + 2 * h) mod (2 * h)" by simp
    also have "\<dots> = x + 2 * h" using False assms(2) by (intro mod_pos_pos_trivial) (auto simp: h_def)
    finally have m: "x mod (2 * h) = x + 2 * h" .
    have "\<not> x + 2 * h < h" using assms(2) by (simp add: h_def)
    with m u full show ?thesis by (simp add: le_sint_def Let_def h_def)
  qed
qed

section \<open>Lists\<close>

lemma sorted_wrt_less_insert:
  fixes xs :: "'a::linorder list"
  assumes "sorted_wrt (<) xs" "i \<le> length xs"
    "\<forall>j < i. xs ! j < x" "\<forall>j. i \<le> j \<and> j < length xs \<longrightarrow> x < xs ! j"
  shows "sorted_wrt (<) (take i xs @ x # drop i xs)"
proof -
  have "\<forall>y \<in> set (take i xs). y < x"
    using assms(2,3) by (auto simp: in_set_conv_nth)
  moreover have "\<forall>y \<in> set (drop i xs). x < y"
    using assms(2,4) by (auto simp: in_set_conv_nth)
  moreover have "sorted_wrt (<) (take i xs @ drop i xs)" using assms(1) by simp
  ultimately show ?thesis
    unfolding sorted_wrt_append sorted_wrt.simps by (auto dest: less_trans)
qed

end
