(* ===== verification/Numstr.thy ===== *)
theory Numstr
  imports Prelude
begin

text \<open>
  Integers as decimal text: \<open>digits10\<close>, \<open>sdigits10\<close>, \<open>ull2string\<close>, \<open>ll2string\<close>,
  \<open>string2ll\<close> and \<open>string2l\<close> of \<open>src/src/util.c\<close>. The printing routines write into a
  caller's buffer and return a length; the parser takes the bytes of the string. The reference
  notation of a number is \<open>dec\<close> (\<open>sdec\<close> with a sign). The locale \<open>int_text\<close> states
  what the containers rely on when they store a string as an integer.
\<close>

section \<open>Printing\<close>

text \<open>Number of decimal digits of a 64-bit value, by comparisons (\<open>digits10\<close>).\<close>

fun digits10 :: "nat \<Rightarrow> nat" where
  "digits10 v =
     (if v < 10 then 1
      else if v < 100 then 2
      else if v < 1000 then 3
      else if v < 1000000000000 then
        (if v < 100000000 then
           (if v < 1000000 then
              (if v < 10000 then 4 else 5 + of_bool (100000 \<le> v))
            else 7 + of_bool (10000000 \<le> v))
         else if v < 10000000000 then 9 + of_bool (1000000000 \<le> v)
         else 11 + of_bool (100000000000 \<le> v))
      else 12 + digits10 (v div 1000000000000))"

declare digits10.simps [simp del]

definition sdigits10 :: "int \<Rightarrow> nat" where
  "sdigits10 v =
     (if v < 0
      then digits10 (if v \<noteq> LLONG_MIN then nat (- v) else nat LLONG_MAX + 1) + 1
      else digits10 (nat v))"

text \<open>The table of two-digit pairs.\<close>

definition digits :: bytes where
  "digits = map of_char
    (''0001020304050607080910111213141516171819'' @
     ''2021222324252627282930313233343536373839'' @
     ''4041424344454647484950515253545556575859'' @
     ''6061626364656667686970717273747576777879'' @
     ''8081828384858687888990919293949596979899'')"

text \<open>The loop that stores two digits at a time, back to front.\<close>

fun ull2string_loop :: "bytes \<Rightarrow> nat \<Rightarrow> nat \<Rightarrow> bytes \<times> nat \<times> nat" where
  "ull2string_loop dst next val =
     (if 100 \<le> val then
        let i = (val mod 100) * 2
        in ull2string_loop (mem_write dst (next - 1) (mem_read digits i 2)) (next - 2) (val div 100)
      else (dst, next, val))"

declare ull2string_loop.simps [simp del]

definition ull2string :: "bytes \<Rightarrow> nat \<Rightarrow> nat \<Rightarrow> nat \<times> bytes" where
  "ull2string dst dstlen val =
     (let len = digits10 val in
      if dstlen \<le> len then (0, if 0 < dstlen then mem_write dst 0 [0] else dst)
      else
        let next = len - 1;
            dst = mem_write dst (next + 1) [0];
            (dst, next, val) = ull2string_loop dst next val
        in if val < 10 then (len, mem_write dst next [48 + of_nat val])
           else (len, mem_write dst (next - 1) (mem_read digits (val * 2) 2)))"

text \<open>The signed variant stores the sign and lets \<open>ull2string\<close> fill the rest of the buffer.\<close>

definition ll2string :: "bytes \<Rightarrow> nat \<Rightarrow> int \<Rightarrow> nat \<times> bytes" where
  "ll2string dst dstlen svalue =
     (if svalue < 0 then
        let val = (if svalue \<noteq> LLONG_MIN then nat (- svalue) else nat LLONG_MAX + 1) in
        if dstlen < 2 then (0, if 0 < dstlen then mem_write dst 0 [0] else dst)
        else
          let dst = mem_write dst 0 [45];
              (len, rest) = ull2string (drop 1 dst) (dstlen - 1) val
          in if len = 0 then (0, take 1 dst @ rest) else (len + 1, take 1 dst @ rest)
      else ull2string dst dstlen (nat svalue))"

section \<open>Parsing\<close>

abbreviation is_digit :: "byte \<Rightarrow> bool" where
  "is_digit c \<equiv> 48 \<le> c \<and> c \<le> 57"

text \<open>The digit loop of \<open>string2ll\<close> with its two overflow checks: \<open>None\<close> is the early
  \<open>return 0\<close>, otherwise the value and the unread rest.\<close>

fun string2ll_loop :: "bytes \<Rightarrow> nat \<Rightarrow> (nat \<times> bytes) option" where
  "string2ll_loop [] v = Some (v, [])"
| "string2ll_loop (c # p) v =
     (if is_digit c then
        if ULLONG_MAX div 10 < v then None
        else
          let v = v * 10; d = unat (c - 48) in
          if ULLONG_MAX - d < v then None
          else string2ll_loop p (v + d)
      else Some (v, c # p))"

definition LONG_STR_SIZE :: nat where "LONG_STR_SIZE = 21"

definition string2llScalar :: "bytes \<Rightarrow> int option" where
  "string2llScalar s =
     (if s = [] \<or> LONG_STR_SIZE \<le> length s then None
      else if length s = 1 \<and> is_digit (hd s) then Some (int (unat (hd s - 48)))
      else
        let negative = (hd s = 45);
            p = (if negative then tl s else s)
        in if p = [] then None
           else if 49 \<le> hd p \<and> hd p \<le> 57 then
             case string2ll_loop (tl p) (unat (hd p - 48)) of
               None \<Rightarrow> None
             | Some (v, rest) \<Rightarrow>
                 if rest \<noteq> [] then None
                 else if negative then
                   if nat (- (LLONG_MIN + 1)) + 1 < v then None else Some (- int v)
                 else if nat LLONG_MAX < v then None else Some (int v)
           else None)"

text \<open>The wasm32 target has no AVX-512 code path, so \<open>string2ll\<close> is the scalar parser.\<close>

definition string2ll :: "bytes \<Rightarrow> int option" where
  "string2ll s = string2llScalar s"

text \<open>\<open>long\<close> is 32 bits wide on wasm32.\<close>

definition string2l :: "bytes \<Rightarrow> int option" where
  "string2l s =
     (case string2ll s of
        None \<Rightarrow> None
      | Some llval \<Rightarrow> if llval < INT32_MIN \<or> INT32_MAX < llval then None else Some llval)"

section \<open>The reference notation\<close>

fun dec :: "nat \<Rightarrow> bytes" where
  "dec n = (if n < 10 then [48 + of_nat n] else dec (n div 10) @ [48 + of_nat (n mod 10)])"

declare dec.simps [simp del]

definition sdec :: "int \<Rightarrow> bytes" where
  "sdec v = (if v < 0 then 45 # dec (nat (- v)) else dec (nat v))"

lemma dec_lt10: "n < 10 \<Longrightarrow> dec n = [48 + of_nat n]"
  by (subst dec.simps) simp

lemma dec_ge10: "10 \<le> n \<Longrightarrow> dec n = dec (n div 10) @ [48 + of_nat (n mod 10)]"
  by (subst dec.simps) simp

lemma dec_not_Nil [simp]: "dec n \<noteq> []"
  by (subst dec.simps) simp

lemma length_dec_pos: "0 < length (dec n)"
  by simp

lemma length_dec_le_iff: "0 < k \<Longrightarrow> length (dec n) \<le> k \<longleftrightarrow> n < 10 ^ k"
proof (induction k arbitrary: n)
  case (Suc k)
  show ?case
  proof (cases "n < 10")
    case True
    have "(10::nat) \<le> 10 ^ Suc k" by simp
    with True show ?thesis by (simp add: dec_lt10 del: power_Suc)
  next
    case ge: False
    show ?thesis
    proof (cases "k = 0")
      case True
      with ge length_dec_pos [of "n div 10"] show ?thesis by (simp add: dec_ge10)
    next
      case False
      with Suc.IH [of "n div 10"] ge show ?thesis
        by (simp add: dec_ge10 div_less_iff_less_mult mult.commute)
    qed
  qed
qed simp

lemma length_dec_shift: "10 ^ k \<le> n \<Longrightarrow> length (dec n) = k + length (dec (n div 10 ^ k))"
proof (induction k arbitrary: n)
  case (Suc k)
  then have ge: "10 \<le> n" by (simp, metis le_trans mult_le_mono2 nat_mult_1_right one_le_numeral one_le_power)
  from Suc.prems have "10 ^ k \<le> n div 10" by (simp add: less_eq_div_iff_mult_less_eq mult.commute)
  then have "length (dec (n div 10)) = k + length (dec (n div 10 div 10 ^ k))" by (rule Suc.IH)
  then show ?case using ge by (simp add: dec_ge10 div_mult2_eq)
qed simp

text \<open>\<open>digits10\<close> counts the digits of the reference notation.\<close>

lemma length_dec_eq:
  "0 < k \<Longrightarrow> 10 ^ k \<le> n \<Longrightarrow> n < 10 ^ Suc k \<Longrightarrow> length (dec n) = Suc k"
  using length_dec_le_iff [of k n] length_dec_le_iff [of "Suc k" n] by simp

lemma length_dec_1: "n < 10 \<Longrightarrow> length (dec n) = 1"
  by (simp add: dec_lt10)

lemmas length_dec_numeral =
  length_dec_eq [of 1, simplified] length_dec_eq [of 2, simplified]
  length_dec_eq [of 3, simplified] length_dec_eq [of 4, simplified]
  length_dec_eq [of 5, simplified] length_dec_eq [of 6, simplified]
  length_dec_eq [of 7, simplified] length_dec_eq [of 8, simplified]
  length_dec_eq [of 9, simplified] length_dec_eq [of 10, simplified]
  length_dec_eq [of 11, simplified]

lemma digits10_length_dec: "digits10 v = length (dec v)"
proof (induction v rule: digits10.induct)
  case (1 v)
  show ?case
  proof (cases "v < 1000000000000")
    case True
    then show ?thesis
      by (subst digits10.simps) (auto simp: length_dec_1 length_dec_numeral)
  next
    case False
    with 1 have "digits10 (v div 1000000000000) = length (dec (v div 1000000000000))" by simp
    then have "digits10 v = 12 + length (dec (v div 1000000000000))"
      using False by (subst digits10.simps) simp
    also have "\<dots> = length (dec v)" using length_dec_shift [of 12 v] False by simp
    finally show ?thesis .
  qed
qed


section \<open>The printing routines write the reference notation\<close>

lemma read_pair:
  "(\<And>x. x \<in> set xs \<Longrightarrow> length (f x) = 2) \<Longrightarrow> i < length xs \<Longrightarrow>
   mem_read (concat (map f xs)) (i * 2) 2 = f (xs ! i)"
proof (induction xs arbitrary: i)
  case (Cons x xs)
  then show ?case by (cases i) (auto simp: mem_read_def)
qed simp

lemma digits_concat:
  "digits = concat (map (\<lambda>i. [48 + of_nat (i div 10), 48 + of_nat (i mod 10)]) [0..<100])"
  by code_simp

lemma digits_pair: "i < 100 \<Longrightarrow> mem_read digits (i * 2) 2 = [48 + of_nat (i div 10), 48 + of_nat (i mod 10)]"
  unfolding digits_concat by (subst read_pair) auto
lemma dec_ge100: "100 \<le> n \<Longrightarrow> dec n = dec (n div 100) @ mem_read digits (n mod 100 * 2) 2"
proof -
  assume "100 \<le> n"
  then have "dec n = dec (n div 10 div 10) @ [48 + of_nat (n div 10 mod 10), 48 + of_nat (n mod 10)]"
    by (simp add: dec_ge10)
  moreover have m: "n mod 100 = 10 * (n div 10 mod 10) + n mod 10"
    using mod_mult2_eq [of n 10 10] by simp
  have "n mod 100 div 10 = n div 10 mod 10" "n mod 100 mod 10 = n mod 10"
    unfolding m by simp_all
  ultimately show ?thesis
    using digits_pair [of "n mod 100"] by (simp add: div_mult2_eq [symmetric] del: length_mem_read)
qed

lemma dec_lt100: "10 \<le> n \<Longrightarrow> n < 100 \<Longrightarrow> dec n = mem_read digits (n * 2) 2"
  by (simp add: dec_ge10 dec_lt10 digits_pair)

definition ull2string_tail :: "bytes \<times> nat \<times> nat \<Rightarrow> bytes" where
  "ull2string_tail = (\<lambda>(dst, next, val).
     if val < 10 then mem_write dst next [48 + of_nat val]
     else mem_write dst (next - 1) (mem_read digits (val * 2) 2))"

lemma ull2string_loop_dec:
  "length (dec val) = Suc next \<Longrightarrow> next < length dst \<Longrightarrow>
   ull2string_tail (ull2string_loop dst next val) = dec val @ drop (Suc next) dst"
proof (induction dst "next" val rule: ull2string_loop.induct)
  case (1 dst "next" val)
  note prems = "1.prems"
  let ?pair = "mem_read digits (val mod 100 * 2) 2"
  have len2: "length ?pair = 2" by (simp add: digits_pair)
  show ?case
  proof (cases "100 \<le> val")
    case True
    let ?dst = "mem_write dst (next - 1) ?pair"
    from True have d: "dec val = dec (val div 100) @ ?pair" by (rule dec_ge100)
    with prems len2 have n: "length (dec (val div 100)) = next - 1" by simp
    with length_dec_pos [of "val div 100"] have n2: "2 \<le> next" by simp
    with prems len2 have l: "length ?dst = length dst" by simp
    have "ull2string_tail (ull2string_loop ?dst (next - 2) (val div 100)) =
        dec (val div 100) @ drop (Suc (next - 2)) ?dst"
      by (rule "1.IH") (use True prems n n2 l in auto)
    moreover have "drop (Suc (next - 2)) ?dst = ?pair @ drop (Suc next) dst"
      using n2 prems len2 by (simp add: mem_write_def Suc_diff_Suc numeral_2_eq_2)
    ultimately show ?thesis using True d by (subst ull2string_loop.simps) (simp add: Let_def)
  next
    case False
    show ?thesis
    proof (cases "val < 10")
      case True
      with prems have "next = 0" by (simp add: dec_lt10)
      with True prems show ?thesis
        by (subst ull2string_loop.simps) (simp add: ull2string_tail_def dec_lt10 mem_write_def)
    next
      case ge: False
      with False have d: "dec val = mem_read digits (val * 2) 2" by (simp add: dec_lt100)
      moreover have "length (mem_read digits (val * 2) 2) = 2" using False by (simp add: digits_pair)
      ultimately show ?thesis using ge False prems
        by (subst ull2string_loop.simps) (simp add: ull2string_tail_def mem_write_def)
    qed
  qed
qed

lemma ull2string_dec:
  assumes "length (dec v) < dstlen" "dstlen \<le> length dst"
  shows "ull2string dst dstlen v = (length (dec v), dec v @ 0 # drop (Suc (length (dec v))) dst)"
proof -
  obtain k where k: "length (dec v) = Suc k" using length_dec_pos [of v] by (cases "length (dec v)") auto
  let ?dst = "mem_write dst (Suc k) [0]"
  have "ull2string_tail (ull2string_loop ?dst k v) = dec v @ drop (Suc k) ?dst"
    using assms k by (intro ull2string_loop_dec) auto
  moreover have "drop (Suc k) ?dst = 0 # drop (Suc (Suc k)) dst"
    using assms k by (simp add: mem_write_def)
  moreover have "ull2string dst dstlen v = (Suc k, ull2string_tail (ull2string_loop ?dst k v))"
    using assms k by (auto simp: ull2string_def digits10_length_dec ull2string_tail_def Let_def split: prod.split)
  ultimately show ?thesis using k by simp
qed

lemma ull2string_small:
  "dstlen \<le> length (dec v) \<Longrightarrow> fst (ull2string dst dstlen v) = 0"
  by (simp add: ull2string_def digits10_length_dec)

lemma sdec_ll2string:
  assumes "is_int64 v" "length (sdec v) < dstlen" "dstlen \<le> length dst"
  shows "ll2string dst dstlen v = (length (sdec v), sdec v @ 0 # drop (Suc (length (sdec v))) dst)"
proof (cases "v < 0")
  case True
  have val: "(if v \<noteq> LLONG_MIN then nat (- v) else nat LLONG_MAX + 1) = nat (- v)"
    by auto
  obtain d ds where "dst = d # ds" using assms(2,3) by (cases dst) auto
  then show ?thesis using True assms ull2string_dec [of "nat (- v)" "dstlen - 1" ds]
    unfolding ll2string_def val by (simp add: sdec_def mem_write_def)
next
  case False
  then show ?thesis using assms ull2string_dec [of "nat v" dstlen dst]
    by (simp add: ll2string_def sdec_def)
qed

section \<open>The parser accepts exactly the reference notation\<close>

text \<open>Value of a digit string, left to right.\<close>

fun dval :: "nat \<Rightarrow> bytes \<Rightarrow> nat" where
  "dval v [] = v"
| "dval v (c # p) = dval (v * 10 + unat (c - 48)) p"

lemma unat_digit: "is_digit c \<Longrightarrow> unat (c - 48) = unat c - 48"
  by (simp add: unat_sub word_le_nat_alt)

lemma unat_digit_less: "is_digit c \<Longrightarrow> unat (c - 48) < 10"
  using unat_digit [of c] by (auto simp: word_le_nat_alt)

lemma digit_of_nat: "n < 10 \<Longrightarrow> is_digit (48 + of_nat n) \<and> unat ((48 + of_nat n :: byte) - 48) = n"
  by (auto simp: word_le_nat_alt unat_word_ariths unat_of_nat)

lemma digit_unique: "is_digit c \<Longrightarrow> 48 + of_nat (unat (c - 48)) = c"
  by simp

lemma dval_append: "dval v (p @ q) = dval (dval v p) q"
  by (induction p arbitrary: v) auto

lemma dval_mono: "v \<le> dval v p"
proof (induction p arbitrary: v)
  case (Cons c p)
  have "v * 10 + unat (c - 48) \<le> dval (v * 10 + unat (c - 48)) p" by (rule Cons.IH)
  then show ?case by simp
qed simp

lemma dec_digits: "c \<in> set (dec n) \<Longrightarrow> is_digit c"
proof (induction n rule: dec.induct)
  case (1 n)
  then show ?case
    using digit_of_nat [of "n mod 10"] digit_of_nat [of n]
    by (cases "n < 10") (auto simp: dec_lt10 dec_ge10)
qed

lemma dval_dec: "dval 0 (dec n) = n"
proof (induction n rule: dec.induct)
  case (1 n)
  then show ?case
    using digit_of_nat [of "n mod 10"] digit_of_nat [of n]
    by (cases "n < 10") (auto simp: dec_lt10 dec_ge10 dval_append)
qed

lemma hd_dec: "0 < n \<Longrightarrow> 49 \<le> hd (dec n)"
proof (induction n rule: dec.induct)
  case (1 n)
  show ?case
  proof (cases "n < 10")
    case True
    with 1 show ?thesis by (auto simp: dec_lt10 word_le_nat_alt unat_word_ariths unat_of_nat)
  next
    case False
    with 1 show ?thesis by (simp add: dec_ge10)
  qed
qed

lemma dec_dval:
  "0 < v \<Longrightarrow> \<forall>c \<in> set p. is_digit c \<Longrightarrow> dec (dval v p) = dec v @ p"
proof (induction p arbitrary: v)
  case (Cons c p)
  let ?d = "unat (c - 48)"
  have d: "?d < 10" using Cons.prems by (intro unat_digit_less) simp
  have ge: "10 \<le> v * 10 + ?d" using Cons.prems(1) by simp
  have "dec (v * 10 + ?d) = dec v @ [c]" using d dec_ge10 [OF ge] by simp
  with Cons show ?case by simp
qed simp

lemma string2ll_loop_digits:
  assumes "\<forall>c \<in> set p. is_digit c" "dval v p \<le> ULLONG_MAX"
  shows "string2ll_loop p v = Some (dval v p, [])"
  using assms
proof (induction p arbitrary: v)
  case (Cons c p)
  let ?v = "v * 10 + unat (c - 48)"
  have "?v \<le> ULLONG_MAX" using dval_mono [of ?v p] Cons.prems(2) by simp
  moreover have "unat (c - 48) < 10" using Cons.prems(1) by (intro unat_digit_less) simp
  ultimately have "\<not> ULLONG_MAX div 10 < v" "\<not> ULLONG_MAX - unat (c - 48) < v * 10" by auto
  with Cons show ?case by (simp add: Let_def)
qed simp

lemma string2ll_loop_Some:
  "string2ll_loop p v = Some (w, []) \<Longrightarrow>
   (\<forall>c \<in> set p. is_digit c) \<and> w = dval v p"
proof (induction p arbitrary: v)
  case (Cons c p)
  have "is_digit c \<and> string2ll_loop p (v * 10 + unat (c - 48)) = Some (w, [])"
    using Cons.prems
    by (simp only: string2ll_loop.simps Let_def option.simps prod.simps list.simps simp_thms
        split: if_split_asm)
  with Cons.IH [of "v * 10 + unat (c - 48)"] show ?case by simp
qed simp

lemma string2llScalar_sdec:
  assumes "is_int64 v"
  shows "string2llScalar (sdec v) = Some v"
proof -
  define n where "n = nat \<bar>v\<bar>"
  have n: "n \<le> 9223372036854775808" using assms by (auto simp: n_def is_int64_def)
  then have len: "length (dec n) \<le> 19" using length_dec_le_iff [of 19 n] by simp
  show ?thesis
  proof (cases "n < 10 \<and> 0 \<le> v")
    case True
    then have "v = int n" by (simp add: n_def)
    with True digit_of_nat [of n] show ?thesis
      by (simp add: sdec_def dec_lt10 string2llScalar_def LONG_STR_SIZE_def)
  next
    case False
    then have "v \<noteq> 0" by (auto simp: n_def)
    then have pos: "0 < n" by (simp add: n_def)
    obtain c p where cp: "dec n = c # p" by (cases "dec n") auto
    have dig: "\<forall>x \<in> set (c # p). is_digit x" using dec_digits [of _ n] cp by metis
    have c: "49 \<le> c" using hd_dec [OF pos] cp by simp
    have c45: "c \<noteq> 45" using c by auto
    have val: "dval (unat (c - 48)) p = n" using dval_dec [of n] cp by simp
    have loop: "string2ll_loop p (unat (c - 48)) = Some (n, [])"
      using string2ll_loop_digits [of p "unat (c - 48)"] dig val n by simp
    show ?thesis
    proof (cases "v < 0")
      case True
      then have "sdec v = 45 # c # p" using cp by (simp add: sdec_def n_def)
      moreover have "v = - int n" using True by (simp add: n_def)
      ultimately show ?thesis using loop c dig len cp n
        by (simp add: string2llScalar_def LONG_STR_SIZE_def)
    next
      case nneg: False
      with False have "10 \<le> n" by simp
      then have "p \<noteq> []" using cp dec_ge10 [of n] by (cases "dec (n div 10)") auto
      moreover have "sdec v = c # p" using nneg cp by (simp add: sdec_def n_def)
      moreover have "v = int n" using nneg by (simp add: n_def)
      moreover have "n \<le> 9223372036854775807" using nneg assms by (simp add: n_def is_int64_def)
      ultimately show ?thesis using loop c c45 dig len cp
        by (simp add: string2llScalar_def LONG_STR_SIZE_def)
    qed
  qed
qed

lemma dec_dval_hd:
  assumes "49 \<le> c" "c \<le> 57" "\<forall>x \<in> set p. is_digit x"
  shows "dec (dval (unat (c - 48)) p) = c # p" "0 < dval (unat (c - 48)) p"
proof -
  have c: "is_digit c" using assms(1,2) by (auto simp: word_le_nat_alt)
  have pos: "0 < unat (c - 48)" using assms(1) unat_digit [OF c] by (simp add: word_le_nat_alt)
  have "dec (unat (c - 48)) = [c]" using unat_digit_less [OF c] by (simp add: dec_lt10)
  with dec_dval [OF pos assms(3)] show "dec (dval (unat (c - 48)) p) = c # p" by simp
  show "0 < dval (unat (c - 48)) p" using dval_mono [of "unat (c - 48)" p] pos by simp
qed

lemma string2llScalar_Some:
  assumes "string2llScalar s = Some v"
  shows "is_int64 v \<and> s = sdec v"
proof (cases "length s = 1 \<and> is_digit (hd s)")
  case True
  then obtain c where s: "s = [c]" by (cases s) auto
  with True assms have v: "v = int (unat (c - 48))"
    by (simp add: string2llScalar_def LONG_STR_SIZE_def)
  have d: "unat (c - 48) < 10" using True s unat_digit_less by simp
  have "is_int64 v" unfolding v is_int64_def using d by linarith
  moreover have "s = sdec v" unfolding v s sdec_def using d by (simp add: dec_lt10)
  ultimately show ?thesis ..
next
  case False
  define neg where "neg = (hd s = 45)"
  define p where "p = (if neg then tl s else s)"
  have ne: "s \<noteq> []" using assms by (auto simp: string2llScalar_def)
  have eq: "(if p = [] then None
      else if 49 \<le> hd p \<and> hd p \<le> 57 then
        case string2ll_loop (tl p) (unat (hd p - 48)) of None \<Rightarrow> None
        | Some (w, rest) \<Rightarrow> if rest \<noteq> [] then None
            else if neg then if nat (- (LLONG_MIN + 1)) + 1 < w then None else Some (- int w)
            else if nat LLONG_MAX < w then None else Some (int w)
      else None) = Some v"
    using assms False ne unfolding string2llScalar_def Let_def neg_def p_def
    by (simp only: option.distinct split: if_split_asm)
  from eq have p0: "p \<noteq> []" by (cases "p = []") simp_all
  with eq have hd: "49 \<le> hd p" "hd p \<le> 57" by (auto split: if_split_asm)
  from eq p0 hd obtain w where loop: "string2ll_loop (tl p) (unat (hd p - 48)) = Some (w, [])"
    and v: "v = (if neg then - int w else int w)"
    and w: "if neg then w \<le> 9223372036854775808 else w \<le> 9223372036854775807"
    by (auto split: if_split_asm option.split_asm)
  from string2ll_loop_Some [OF loop] have dig: "\<forall>x \<in> set (tl p). is_digit x"
    and wv: "w = dval (unat (hd p - 48)) (tl p)" by auto
  from dec_dval_hd [OF hd dig] p0 wv have "dec w = p" "0 < w" by auto
  moreover have "s = (if neg then 45 # p else p)" using ne by (cases s) (auto simp: neg_def p_def)
  ultimately show ?thesis using v w by (auto simp: sdec_def is_int64_def split: if_splits)
qed

lemma string2ll_iff: "string2ll s = Some v \<longleftrightarrow> is_int64 v \<and> s = sdec v"
  using string2llScalar_sdec string2llScalar_Some by (auto simp: string2ll_def)


section \<open>The interface the containers use\<close>

text \<open>What a container relies on when it stores a string as a 64-bit integer: the string is
  recovered from the number without loss, so comparing numbers is comparing strings.\<close>

locale int_text =
  fixes render :: "int \<Rightarrow> bytes" and parse :: "bytes \<Rightarrow> int option"
  assumes parse_iff: "parse s = Some v \<longleftrightarrow> is_int64 v \<and> s = render v"
begin

lemma parse_render: "is_int64 v \<Longrightarrow> parse (render v) = Some v"
  by (simp add: parse_iff)

lemma parse_int64: "parse s = Some v \<Longrightarrow> is_int64 v"
  by (simp add: parse_iff)

lemma render_parse: "parse s = Some v \<Longrightarrow> render v = s"
  by (simp add: parse_iff)

lemma render_inj: "is_int64 v \<Longrightarrow> is_int64 w \<Longrightarrow> render v = render w \<Longrightarrow> v = w"
  by (metis option.inject parse_render)

lemma compare_by_value:
  assumes "is_int64 v"
  shows "(case parse s of None \<Rightarrow> False | Some w \<Rightarrow> v = w) \<longleftrightarrow> s = render v"
proof (cases "parse s")
  case None
  with parse_render [OF assms] show ?thesis by auto
next
  case (Some w)
  then have w: "is_int64 w" "s = render w" using parse_iff by auto
  have "render w = render v \<longleftrightarrow> v = w" using render_inj [OF assms w(1)] by metis
  with Some w(2) show ?thesis by simp
qed

end

text \<open>The text \<open>ll2string\<close> leaves in a buffer of \<open>LP_INTBUF_SIZE\<close> bytes.\<close>

definition LP_INTBUF_SIZE :: nat where "LP_INTBUF_SIZE = 21"

definition ll2string_text :: "bytes \<Rightarrow> int \<Rightarrow> bytes" where
  "ll2string_text intbuf v = (let (n, buf) = ll2string intbuf LP_INTBUF_SIZE v in take n buf)"

lemma length_sdec: "is_int64 v \<Longrightarrow> length (sdec v) \<le> 20"
  using length_dec_le_iff [of 19 "nat \<bar>v\<bar>"]
  by (auto simp: is_int64_def sdec_def split: if_splits)

lemma ll2string_text_sdec:
  "is_int64 v \<Longrightarrow> length intbuf = LP_INTBUF_SIZE \<Longrightarrow> ll2string_text intbuf v = sdec v"
  using length_sdec [of v] sdec_ll2string [of v LP_INTBUF_SIZE intbuf]
  by (simp add: ll2string_text_def LP_INTBUF_SIZE_def)

interpretation lltext: int_text "ll2string_text (replicate LP_INTBUF_SIZE 0)" string2ll
  by unfold_locales (auto simp: string2ll_iff ll2string_text_sdec)

section \<open>Properties\<close>

text \<open>C22: a 64-bit integer printed by \<open>ll2string\<close> into any buffer of at least 21 bytes is
  NUL-terminated, has the length \<open>sdigits10\<close> announces, and \<open>string2ll\<close> reads the same
  integer back; the bytes after the terminator are untouched.\<close>

theorem ll2string_string2ll_roundtrip:
  assumes "is_int64 v" and "21 \<le> length dst"
  shows "\<exists>buf. ll2string dst (length dst) v = (sdigits10 v, buf)
    \<and> string2ll (take (sdigits10 v) buf) = Some v
    \<and> buf ! sdigits10 v = 0
    \<and> drop (Suc (sdigits10 v)) buf = drop (Suc (sdigits10 v)) dst"
proof -
  have "sdigits10 v = length (sdec v)"
    by (auto simp: sdigits10_def sdec_def digits10_length_dec)
  moreover have "length (sdec v) < length dst" using length_sdec [OF assms(1)] assms(2) by simp
  ultimately show ?thesis
    using sdec_ll2string [OF assms(1), of "length dst" dst] string2ll_iff [of "sdec v" v] assms(1)
    by (simp add: nth_append)
qed

theorem ll2string_string2ll_roundtrip_witness:
  "is_int64 (-120) \<and> 21 \<le> length (replicate 21 (7::byte)) \<and>
   (\<exists>buf. ll2string (replicate 21 7) 21 (-120) = (4, buf) \<and> string2ll (take 4 buf) = Some (-120))"
proof -
  have d: "sdigits10 (-120) = 4" by code_simp
  have h: "is_int64 (-120)" "21 \<le> length (replicate 21 (7::byte))" by (simp_all add: is_int64_def)
  show ?thesis using h ll2string_string2ll_roundtrip [OF h] by (auto simp: d)
qed

text \<open>C23: \<open>string2ll\<close> is strict: whatever it accepts is byte for byte what \<open>ll2string\<close>
  prints for the value it returns, so no information is lost by storing the number.\<close>

theorem string2ll_strict:
  assumes "string2ll s = Some v"
  shows "is_int64 v \<and> length s \<le> 20 \<and>
    (\<forall>dst. length s < length dst \<longrightarrow>
       ll2string dst (length dst) v = (length s, s @ 0 # drop (Suc (length s)) dst))"
  using assms sdec_ll2string [of v] length_sdec [of v] by (auto simp: string2ll_iff)

theorem string2ll_strict_witness:
  "string2ll [45, 49, 50] = Some (-12) \<and> is_int64 (-12) \<and>
   ll2string (replicate 5 9) 5 (-12) = (3, [45, 49, 50, 0, 9])"
proof -
  have h: "string2ll [45, 49, 50] = Some (-12)"
    by (simp add: string2ll_def string2llScalar_def LONG_STR_SIZE_def)
  have "ll2string (replicate 5 9) (length (replicate 5 (9::byte))) (-12) = (3, [45, 49, 50, 0, 9])"
    using string2ll_strict [OF h, THEN conjunct2, THEN conjunct2, THEN spec, of "replicate 5 9"]
    by (simp add: numeral_eq_Suc)
  with h show ?thesis by (simp add: is_int64_def)
qed

text \<open>\<open>digits10\<close>, a cascade of comparisons, is the number of decimal digits.\<close>

theorem digits10_bounds: "10 ^ (digits10 v - 1) \<le> max 1 v \<and> v < 10 ^ digits10 v"
proof -
  have pos: "0 < digits10 v" by (simp add: digits10_length_dec)
  have "v < 10 ^ digits10 v" using length_dec_le_iff [OF pos, of v] by (simp add: digits10_length_dec)
  moreover have "10 ^ (digits10 v - 1) \<le> max 1 v"
  proof (cases "digits10 v = 1")
    case False
    with pos have "0 < digits10 v - 1" by simp
    from length_dec_le_iff [OF this, of v] pos have "\<not> v < 10 ^ (digits10 v - 1)"
      unfolding digits10_length_dec by linarith
    then show ?thesis by (simp add: max_def)
  qed simp
  ultimately show ?thesis by simp
qed

end
