(* ===== verification/Intset.thy ===== *)
theory Intset
  imports Prelude
begin

text \<open>
  \<open>src/src/intset.c\<close>: a sorted array of integers, all stored with the same width of 2, 4 or
  8 bytes. The record holds the header fields and the bytes of \<open>contents[]\<close>; elements are read
  and written at byte level, so the in-place widening of \<open>intsetUpgradeAndAdd\<close> and the moves of
  \<open>intsetMoveTail\<close> act on one block as in the source. Sizes are those of wasm32: \<open>size_t\<close>
  has 32 bits. A failed \<open>assert\<close> is \<open>None\<close>.

  The abstraction of an intset is the list of its elements (\<open>intset_elems\<close>), the invariant
  \<open>intset_wf\<close>. The locale \<open>int_set\<close> is the contract of a set of 64-bit integers.
\<close>

section \<open>The data and the operations\<close>

record intset =
  is_encoding :: nat
  is_length :: nat
  is_contents :: bytes

definition INTSET_ENC_INT16 :: nat where "INTSET_ENC_INT16 = 2"
definition INTSET_ENC_INT32 :: nat where "INTSET_ENC_INT32 = 4"
definition INTSET_ENC_INT64 :: nat where "INTSET_ENC_INT64 = 8"
definition SIZE_MAX :: nat where "SIZE_MAX = 4294967295"

text \<open>\<open>sizeof(intset)\<close>: the two 32-bit header fields.\<close>

definition sizeof_intset :: nat where "sizeof_intset = 8"

lemmas intset_consts = INTSET_ENC_INT16_def INTSET_ENC_INT32_def INTSET_ENC_INT64_def
  SIZE_MAX_def sizeof_intset_def

definition intsetValueEncoding :: "int \<Rightarrow> nat" where
  "intsetValueEncoding v =
     (if v < INT32_MIN \<or> INT32_MAX < v then INTSET_ENC_INT64
      else if v < INT16_MIN \<or> INT16_MAX < v then INTSET_ENC_INT32
      else INTSET_ENC_INT16)"

definition intsetGetEncoded :: "intset \<Rightarrow> nat \<Rightarrow> nat \<Rightarrow> int" where
  "intsetGetEncoded s pos enc =
     (if enc = INTSET_ENC_INT64 then le_sint (mem_read (is_contents s) (pos * 8) 8)
      else if enc = INTSET_ENC_INT32 then le_sint (mem_read (is_contents s) (pos * 4) 4)
      else le_sint (mem_read (is_contents s) (pos * 2) 2))"

definition intsetGet_at :: "intset \<Rightarrow> nat \<Rightarrow> int" where
  "intsetGet_at s pos = intsetGetEncoded s pos (is_encoding s)"

definition intsetSet :: "intset \<Rightarrow> nat \<Rightarrow> int \<Rightarrow> intset" where
  "intsetSet s pos val =
     (if is_encoding s = INTSET_ENC_INT64
      then s\<lparr>is_contents := mem_write (is_contents s) (pos * 8) (le_bytes 8 val)\<rparr>
      else if is_encoding s = INTSET_ENC_INT32
      then s\<lparr>is_contents := mem_write (is_contents s) (pos * 4) (le_bytes 4 val)\<rparr>
      else s\<lparr>is_contents := mem_write (is_contents s) (pos * 2) (le_bytes 2 val)\<rparr>)"

definition intsetNew :: intset where
  "intsetNew = \<lparr>is_encoding = INTSET_ENC_INT16, is_length = 0, is_contents = []\<rparr>"

definition intsetResize :: "(nat \<Rightarrow> byte) \<Rightarrow> intset \<Rightarrow> nat \<Rightarrow> intset option" where
  "intsetResize g s len =
     (let sz = len * is_encoding s in
      if sz \<le> SIZE_MAX - sizeof_intset
      then Some (s\<lparr>is_contents := mem_realloc g (is_contents s) sz\<rparr>)
      else None)"

text \<open>The binary search loop returns \<open>min\<close>, \<open>mid\<close> and \<open>cur\<close> as they stand when it
  ends.\<close>

function intsetSearch_loop :: "intset \<Rightarrow> int \<Rightarrow> int \<Rightarrow> int \<Rightarrow> int \<Rightarrow> int \<Rightarrow> int \<times> int \<times> int" where
  "intsetSearch_loop s val lo hi mid cur =
     (if lo \<le> hi then
        let mid = (lo + hi) div 2;
            cur = intsetGet_at s (nat mid)
        in if cur < val then intsetSearch_loop s val (mid + 1) hi mid cur
           else if val < cur then intsetSearch_loop s val lo (mid - 1) mid cur
           else (lo, mid, cur)
      else (lo, mid, cur))"
  by pat_completeness auto
termination
  by (relation "measure (\<lambda>(s, val, lo, hi, mid, cur). nat (hi - lo + 1))") auto

declare intsetSearch_loop.simps [simp del]

definition intsetSearch :: "intset \<Rightarrow> int \<Rightarrow> bool \<times> nat" where
  "intsetSearch s val =
     (let hi = int (is_length s) - 1 in
      if is_length s = 0 then (False, 0)
      else if intsetGet_at s (nat hi) < val then (False, is_length s)
      else if val < intsetGet_at s 0 then (False, 0)
      else
        let (lo, mid, cur) = intsetSearch_loop s val 0 hi (-1) (-1)
        in if val = cur then (True, nat mid) else (False, nat lo))"

text \<open>The loop \<open>while (length--)\<close> of the widening: back to front, inside one block.\<close>

fun intsetUpgrade_loop :: "intset \<Rightarrow> nat \<Rightarrow> nat \<Rightarrow> nat \<Rightarrow> intset" where
  "intsetUpgrade_loop s 0 prepend curenc = s"
| "intsetUpgrade_loop s (Suc n) prepend curenc =
     intsetUpgrade_loop (intsetSet s (n + prepend) (intsetGetEncoded s n curenc)) n prepend curenc"

definition intsetUpgradeAndAdd :: "(nat \<Rightarrow> byte) \<Rightarrow> intset \<Rightarrow> int \<Rightarrow> intset option" where
  "intsetUpgradeAndAdd g s val =
     (let curenc = is_encoding s;
          newenc = intsetValueEncoding val;
          len = is_length s;
          prepend = (if val < 0 then 1 else 0);
          s = s\<lparr>is_encoding := newenc\<rparr>
      in case intsetResize g s ((is_length s + 1) mod 2 ^ 32) of
           None \<Rightarrow> None
         | Some s \<Rightarrow>
             let s = intsetUpgrade_loop s len prepend curenc;
                 s = (if prepend \<noteq> 0 then intsetSet s 0 val else intsetSet s (is_length s) val)
             in Some (s\<lparr>is_length := (is_length s + 1) mod 2 ^ 32\<rparr>))"

definition intsetMoveTail :: "intset \<Rightarrow> nat \<Rightarrow> nat \<Rightarrow> intset" where
  "intsetMoveTail s from to =
     (let bytes = is_length s - from in
      if is_encoding s = INTSET_ENC_INT64
      then s\<lparr>is_contents := mem_move (is_contents s) (to * 8) (from * 8) (bytes * 8)\<rparr>
      else if is_encoding s = INTSET_ENC_INT32
      then s\<lparr>is_contents := mem_move (is_contents s) (to * 4) (from * 4) (bytes * 4)\<rparr>
      else s\<lparr>is_contents := mem_move (is_contents s) (to * 2) (from * 2) (bytes * 2)\<rparr>)"

definition intsetAdd :: "(nat \<Rightarrow> byte) \<Rightarrow> intset \<Rightarrow> int \<Rightarrow> (intset \<times> bool) option" where
  "intsetAdd g s val =
     (let valenc = intsetValueEncoding val in
      if is_encoding s < valenc then
        map_option (\<lambda>s. (s, True)) (intsetUpgradeAndAdd g s val)
      else
        let (found, pos) = intsetSearch s val in
        if found then Some (s, False)
        else
          case intsetResize g s ((is_length s + 1) mod 2 ^ 32) of
            None \<Rightarrow> None
          | Some s \<Rightarrow>
              let s = (if pos < is_length s then intsetMoveTail s pos (pos + 1) else s);
                  s = intsetSet s pos val
              in Some (s\<lparr>is_length := (is_length s + 1) mod 2 ^ 32\<rparr>, True))"

definition intsetRemove :: "(nat \<Rightarrow> byte) \<Rightarrow> intset \<Rightarrow> int \<Rightarrow> (intset \<times> bool) option" where
  "intsetRemove g s val =
     (let valenc = intsetValueEncoding val;
          (found, pos) = intsetSearch s val
      in if valenc \<le> is_encoding s \<and> found then
           let len = is_length s;
               s = (if pos < len - 1 then intsetMoveTail s (pos + 1) pos else s)
           in case intsetResize g s (len - 1) of
                None \<Rightarrow> None
              | Some s \<Rightarrow> Some (s\<lparr>is_length := len - 1\<rparr>, True)
         else Some (s, False))"

definition intsetFind :: "intset \<Rightarrow> int \<Rightarrow> bool" where
  "intsetFind s val \<longleftrightarrow>
     intsetValueEncoding val \<le> is_encoding s \<and> fst (intsetSearch s val)"

text \<open>The random index is an argument.\<close>

definition intsetRandom :: "nat \<Rightarrow> intset \<Rightarrow> int option" where
  "intsetRandom r s =
     (let len = is_length s in
      if len = 0 then None else Some (intsetGet_at s (r mod len)))"

definition intsetMax :: "intset \<Rightarrow> int" where
  "intsetMax s = intsetGet_at s (is_length s - 1)"

definition intsetMin :: "intset \<Rightarrow> int" where
  "intsetMin s = intsetGet_at s 0"

definition intsetGet :: "intset \<Rightarrow> nat \<Rightarrow> int option" where
  "intsetGet s pos = (if pos < is_length s then Some (intsetGet_at s pos) else None)"

definition intsetLen :: "intset \<Rightarrow> nat" where
  "intsetLen s = is_length s"

definition intsetBlobLen :: "intset \<Rightarrow> nat" where
  "intsetBlobLen s = (sizeof_intset + is_length s * is_encoding s) mod 2 ^ 32"

text \<open>Validation of an untrusted blob. The header is read from the bytes; the product
  \<open>count * record_size\<close> is computed in \<open>size_t\<close>.\<close>

definition intset_of_blob :: "bytes \<Rightarrow> intset" where
  "intset_of_blob p = \<lparr>is_encoding = nat (le_uint (mem_read p 0 4)),
     is_length = nat (le_uint (mem_read p 4 4)), is_contents = drop 8 p\<rparr>"

text \<open>The scan of the records: \<open>i\<close> from 1 to \<open>count\<close>.\<close>

function intsetValidate_loop :: "intset \<Rightarrow> nat \<Rightarrow> nat \<Rightarrow> int \<Rightarrow> bool" where
  "intsetValidate_loop s i count prev =
     (if i < count then
        let cur = intsetGet_at s i in
        if cur \<le> prev then False else intsetValidate_loop s (i + 1) count cur
      else True)"
  by pat_completeness auto
termination
  by (relation "measure (\<lambda>(s, i, count, prev). count - i)") auto

declare intsetValidate_loop.simps [simp del]

definition intsetValidateIntegrity :: "bytes \<Rightarrow> nat \<Rightarrow> bool \<Rightarrow> bool" where
  "intsetValidateIntegrity p sz deep =
     (if sz < sizeof_intset then False
      else
        let s = intset_of_blob p; encoding = is_encoding s in
        if \<not> (encoding = INTSET_ENC_INT64 \<or> encoding = INTSET_ENC_INT32 \<or> encoding = INTSET_ENC_INT16)
        then False
        else
          let count = is_length s in
          if (sizeof_intset + count * encoding) mod 2 ^ 32 \<noteq> sz then False
          else if count = 0 then False
          else if \<not> deep then True
          else intsetValidate_loop s 1 count (intsetGet_at s 0))"

text \<open>The blob of an intset, and the copy \<open>intsetDup\<close> makes of its \<open>intsetBlobLen\<close> bytes.\<close>

definition intset_blob :: "intset \<Rightarrow> bytes" where
  "intset_blob s = le_bytes 4 (int (is_encoding s)) @ le_bytes 4 (int (is_length s)) @ is_contents s"

definition intsetDup :: "intset option \<Rightarrow> intset" where
  "intsetDup s = (case s of None \<Rightarrow> intsetNew
     | Some s \<Rightarrow> intset_of_blob (mem_read (intset_blob s) 0 (intsetBlobLen s)))"

definition slot :: "nat \<Rightarrow> bytes \<Rightarrow> nat \<Rightarrow> int" where
  "slot w cs i = le_sint (mem_read cs (i * w) w)"

definition in_enc :: "nat \<Rightarrow> int \<Rightarrow> bool" where
  "in_enc w v \<longleftrightarrow> - (2 ^ (8 * w - 1)) \<le> v \<and> v < 2 ^ (8 * w - 1)"

lemma slot_bound: "i < n \<Longrightarrow> n * w \<le> l \<Longrightarrow> i * w + w \<le> (l::nat)"
  using mult_le_mono1 [of "Suc i" n w] by simp

lemma slot_write_same:
  "0 < w \<Longrightarrow> in_enc w v \<Longrightarrow> i * w + w \<le> length cs \<Longrightarrow>
   slot w (mem_write cs (i * w) (le_bytes w v)) i = v"
  by (simp add: slot_def mem_simps le_sint_le_bytes in_enc_def)

lemma slot_write_other:
  assumes "i \<noteq> j" "i * w + w \<le> length cs"
  shows "slot w (mem_write cs (i * w) (le_bytes w v)) j = slot w cs j"
proof (cases "j < i")
  case True
  with slot_bound [of j i w "i * w"] assms(2) show ?thesis by (simp add: slot_def mem_simps)
next
  case False
  with assms slot_bound [of i j w "j * w"] show ?thesis by (simp add: slot_def mem_simps)
qed

lemma slot_realloc:
  "i * w + w \<le> length cs \<Longrightarrow> i * w + w \<le> n \<Longrightarrow> slot w (mem_realloc g cs n) i = slot w cs i"
  by (simp add: slot_def mem_simps)

lemma slot_move_in:
  assumes "b * w + n * w \<le> length cs" "a * w + n * w \<le> length cs" "a \<le> j" "j < a + n"
  shows "slot w (mem_move cs (a * w) (b * w) (n * w)) j = slot w cs (b + (j - a))"
proof -
  have "j * w + w \<le> (a + n) * w" using assms(4) by (intro slot_bound) auto
  moreover have "a * w \<le> j * w" using assms(3) by simp
  moreover have "b * w + (j * w - a * w) = (b + (j - a)) * w" using assms(3) by (simp add: algebra_simps diff_mult_distrib)
  ultimately show ?thesis using assms
    by (simp add: slot_def mem_read_move_in algebra_simps)
qed

lemma slot_move_before:
  assumes "b * w + n * w \<le> length cs" "a * w + n * w \<le> length cs" "j < a"
  shows "slot w (mem_move cs (a * w) (b * w) (n * w)) j = slot w cs j"
  using assms slot_bound [of j a w "a * w"] by (simp add: slot_def mem_read_move_before)

definition valid_enc :: "nat \<Rightarrow> bool" where
  "valid_enc w \<longleftrightarrow> w = 2 \<or> w = 4 \<or> w = 8"

definition intset_elems :: "intset \<Rightarrow> int list" where
  "intset_elems s = map (slot (is_encoding s) (is_contents s)) [0..<is_length s]"

definition intset_wf :: "intset \<Rightarrow> bool" where
  "intset_wf s \<longleftrightarrow> valid_enc (is_encoding s)
     \<and> length (is_contents s) = is_length s * is_encoding s
     \<and> is_length s * is_encoding s \<le> SIZE_MAX - sizeof_intset
     \<and> sorted_wrt (<) (intset_elems s)"

lemma intsetGetEncoded_slot: "valid_enc e \<Longrightarrow> intsetGetEncoded s i e = slot e (is_contents s) i"
  by (auto simp: valid_enc_def intsetGetEncoded_def slot_def intset_consts)

lemma intsetGet_at_slot: "valid_enc (is_encoding s) \<Longrightarrow> intsetGet_at s i = slot (is_encoding s) (is_contents s) i"
  by (simp add: intsetGet_at_def intsetGetEncoded_slot)

lemma intsetSet_write: "valid_enc (is_encoding s) \<Longrightarrow> intsetSet s i v =
    s\<lparr>is_contents := mem_write (is_contents s) (i * is_encoding s) (le_bytes (is_encoding s) v)\<rparr>"
  by (auto simp: valid_enc_def intsetSet_def intset_consts)

lemma intsetMoveTail_move: "valid_enc (is_encoding s) \<Longrightarrow> intsetMoveTail s a b =
    s\<lparr>is_contents := mem_move (is_contents s) (b * is_encoding s) (a * is_encoding s)
        ((is_length s - a) * is_encoding s)\<rparr>"
  by (auto simp: valid_enc_def intsetMoveTail_def intset_consts)

lemma valid_enc_pos: "valid_enc w \<Longrightarrow> 0 < w"
  by (auto simp: valid_enc_def)

lemma valid_valueEncoding [simp]: "valid_enc (intsetValueEncoding v)"
  by (simp add: valid_enc_def intsetValueEncoding_def intset_consts)

lemma valueEncoding_le_iff:
  "valid_enc w \<Longrightarrow> is_int64 v \<Longrightarrow> intsetValueEncoding v \<le> w \<longleftrightarrow> in_enc w v"
  by (auto simp: valid_enc_def intsetValueEncoding_def intset_consts in_enc_def is_int64_def)

lemma in_enc_valueEncoding: "is_int64 v \<Longrightarrow> in_enc (intsetValueEncoding v) v"
  using valueEncoding_le_iff [of "intsetValueEncoding v" v] by simp

lemma in_enc_mono: "valid_enc w \<Longrightarrow> valid_enc w' \<Longrightarrow> w \<le> w' \<Longrightarrow> in_enc w v \<Longrightarrow> in_enc w' v"
  by (auto simp: valid_enc_def in_enc_def)

lemma le_sint_range:
  assumes "bs \<noteq> []"
  shows "in_enc (length bs) (le_sint bs)"
proof -
  define h :: int where "h = 2 ^ (8 * length bs - 1)"
  have full: "(2::int) ^ (8 * length bs) = 2 * h"
    using assms unfolding h_def by (simp flip: power_Suc)
  define u where "u = le_uint bs"
  have "u < 2 * h" "0 \<le> u" "0 < h"
    using le_uint_less [of bs] by (simp_all add: pow_256 full u_def h_def [symmetric])
      (simp add: h_def)
  then show ?thesis
    unfolding in_enc_def le_sint_def Let_def full h_def [symmetric] u_def [symmetric] by auto
qed

lemma slot_in_enc: "0 < w \<Longrightarrow> i * w + w \<le> length cs \<Longrightarrow> in_enc w (slot w cs i)"
proof -
  assume "0 < w" "i * w + w \<le> length cs"
  then have "length (mem_read cs (i * w) w) = w" by simp
  with \<open>0 < w\<close> le_sint_range [of "mem_read cs (i * w) w"] show ?thesis
    by (metis length_greater_0_conv slot_def)
qed

lemma length_intset_elems [simp]: "length (intset_elems s) = is_length s"
  by (simp add: intset_elems_def)

lemma nth_intset_elems: "i < is_length s \<Longrightarrow> intset_elems s ! i = slot (is_encoding s) (is_contents s) i"
  by (simp add: intset_elems_def)

text \<open>Binary search.\<close>

lemma intsetSearch_loop_correct:
  assumes "valid_enc (is_encoding s)" "sorted_wrt (<) (intset_elems s)"
    "0 \<le> lo" "hi < int (is_length s)" "lo \<le> hi + 1"
    "\<forall>j < nat lo. intset_elems s ! j < v"
    "\<forall>j. hi < int j \<and> j < is_length s \<longrightarrow> v < intset_elems s ! j"
    "lo = hi + 1 \<longrightarrow> cur \<noteq> v"
    "intsetSearch_loop s v lo hi mid cur = (lo', mid', cur')"
  shows "if cur' = v then 0 \<le> mid' \<and> nat mid' < is_length s \<and> intset_elems s ! nat mid' = v
     else 0 \<le> lo' \<and> nat lo' \<le> is_length s \<and> (\<forall>j < nat lo'. intset_elems s ! j < v)
       \<and> (\<forall>j. nat lo' \<le> j \<and> j < is_length s \<longrightarrow> v < intset_elems s ! j)"
  using assms
proof (induction s v lo hi mid cur rule: intsetSearch_loop.induct)
  case (1 s v lo hi mid cur)
  note prems = "1.prems"
  show ?case
  proof (cases "lo \<le> hi")
    case False
    with prems have "lo' = lo" "cur' = cur" "lo = hi + 1" "cur \<noteq> v"
      by (simp_all add: intsetSearch_loop.simps)
    with prems show ?thesis by auto
  next
    case True
    define m where "m = (lo + hi) div 2"
    have m: "lo \<le> m" "m \<le> hi" "0 \<le> m" using True prems(3) by (auto simp: m_def)
    have mlen: "nat m < is_length s" using m prems(4) by linarith
    have cur: "intsetGet_at s (nat m) = intset_elems s ! nat m"
      using prems(1) mlen by (simp add: intsetGet_at_slot nth_intset_elems)
    have below: "\<And>j. j < nat m \<Longrightarrow> intset_elems s ! j < intset_elems s ! nat m"
      using prems(2) mlen by (simp add: sorted_wrt_nth_less)
    have above: "\<And>j. nat m < j \<Longrightarrow> j < is_length s \<Longrightarrow> intset_elems s ! nat m < intset_elems s ! j"
      using prems(2) by (simp add: sorted_wrt_nth_less)
    consider "intset_elems s ! nat m < v" | "v < intset_elems s ! nat m" | "v = intset_elems s ! nat m"
      by linarith
    then show ?thesis
    proof cases
      case a: 1
      have lt: "\<forall>j < nat (m + 1). intset_elems s ! j < v"
      proof (intro allI impI)
        fix j assume "j < nat (m + 1)"
        then have "j < nat m \<or> j = nat m" using m by auto
        then show "intset_elems s ! j < v" using below [of j] a by auto
      qed
      have call: "intsetSearch_loop s v (m + 1) hi m (intsetGet_at s (nat m)) = (lo', mid', cur')"
        using prems(9) True a cur
        by (simp add: intsetSearch_loop.simps [of s v lo hi] m_def [symmetric] Let_def)
      have "intsetGet_at s (nat m) < v" using a cur by simp
      moreover have "0 \<le> m + 1" "m + 1 \<le> hi + 1" using m by auto
      ultimately show ?thesis
        by (intro "1.IH"(1) [OF True m_def refl _ prems(1,2) _ prems(4) _ lt prems(7) _ call]) auto
    next
      case b: 2
      have gt: "\<forall>j. m - 1 < int j \<and> j < is_length s \<longrightarrow> v < intset_elems s ! j"
      proof (intro allI impI)
        fix j assume j: "m - 1 < int j \<and> j < is_length s"
        then have "nat m < j \<or> j = nat m" by auto
        then show "v < intset_elems s ! j" using above [of j] j b by auto
      qed
      have call: "intsetSearch_loop s v lo (m - 1) m (intsetGet_at s (nat m)) = (lo', mid', cur')"
        using prems(9) True b cur
        by (simp add: intsetSearch_loop.simps [of s v lo hi] m_def [symmetric] Let_def)
      have "v < intsetGet_at s (nat m)" using b cur by simp
      moreover have "m - 1 < int (is_length s)" "lo \<le> m - 1 + 1" using m prems(4) by auto
      ultimately show ?thesis
        by (intro "1.IH"(2) [OF True m_def refl _ _ prems(1,2,3) _ _ prems(6) gt _ call]) auto
    next
      case 3
      then have "mid' = m" "cur' = v" using prems(9) True cur 3 [symmetric]
        by (simp_all add: intsetSearch_loop.simps [of s v lo hi] m_def [symmetric] Let_def)
      with 3 m mlen show ?thesis by auto
    qed
  qed
qed

lemma intsetSearch_correct:
  assumes "intset_wf s"
  shows "if fst (intsetSearch s v)
     then snd (intsetSearch s v) < is_length s \<and> intset_elems s ! snd (intsetSearch s v) = v
     else snd (intsetSearch s v) \<le> is_length s
       \<and> (\<forall>j < snd (intsetSearch s v). intset_elems s ! j < v)
       \<and> (\<forall>j. snd (intsetSearch s v) \<le> j \<and> j < is_length s \<longrightarrow> v < intset_elems s ! j)"
proof (cases "is_length s = 0")
  case True
  then show ?thesis by (simp add: intsetSearch_def)
next
  case ne: False
  have ve: "valid_enc (is_encoding s)" and srt: "sorted_wrt (<) (intset_elems s)"
    using assms by (auto simp: intset_wf_def)
  have get: "\<And>i. i < is_length s \<Longrightarrow> intsetGet_at s i = intset_elems s ! i"
    using ve by (simp add: intsetGet_at_slot nth_intset_elems)
  have le: "\<And>i j. i \<le> j \<Longrightarrow> j < is_length s \<Longrightarrow> intset_elems s ! i \<le> intset_elems s ! j"
    using srt by (metis le_neq_implies_less length_intset_elems less_imp_le order_refl sorted_wrt_nth_less)
  have hi: "nat (int (is_length s) - 1) = is_length s - 1" using ne by simp
  consider "intset_elems s ! (is_length s - 1) < v" | "v < intset_elems s ! 0"
    | "v \<le> intset_elems s ! (is_length s - 1)" "intset_elems s ! 0 \<le> v" by linarith
  then show ?thesis
  proof cases
    case 1
    have "\<forall>j < is_length s. intset_elems s ! j < v"
    proof (intro allI impI)
      fix j assume "j < is_length s"
      then have "j \<le> is_length s - 1" by simp
      with le [of j "is_length s - 1"] ne 1 show "intset_elems s ! j < v" by simp
    qed
    with 1 ne show ?thesis by (simp add: intsetSearch_def get hi)
  next
    case 2
    then have "\<forall>j < is_length s. v < intset_elems s ! j" using le [of 0] by (meson le0 less_le_trans)
    moreover have "\<not> intset_elems s ! (is_length s - 1) < v" using 2 le [of 0 "is_length s - 1"] ne by simp
    ultimately show ?thesis using 2 ne by (simp add: intsetSearch_def get hi)
  next
    case 3
    obtain lo mid cur where loop: "intsetSearch_loop s v 0 (int (is_length s) - 1) (-1) (-1) = (lo, mid, cur)"
      by (cases "intsetSearch_loop s v 0 (int (is_length s) - 1) (-1) (-1)")
    have "if cur = v then 0 \<le> mid \<and> nat mid < is_length s \<and> intset_elems s ! nat mid = v
     else 0 \<le> lo \<and> nat lo \<le> is_length s \<and> (\<forall>j < nat lo. intset_elems s ! j < v)
       \<and> (\<forall>j. nat lo \<le> j \<and> j < is_length s \<longrightarrow> v < intset_elems s ! j)"
      by (rule intsetSearch_loop_correct [OF ve srt _ _ _ _ _ _ loop]) (use ne in auto)
    moreover have "intsetSearch s v = (if v = cur then (True, nat mid) else (False, nat lo))"
      using 3 ne loop by (simp add: intsetSearch_def get hi)
    ultimately show ?thesis by (auto split: if_splits)
  qed
qed

lemma intsetSearch_mem:
  assumes "intset_wf s"
  shows "fst (intsetSearch s v) \<longleftrightarrow> v \<in> set (intset_elems s)"
proof
  assume "fst (intsetSearch s v)"
  with intsetSearch_correct [OF assms, of v] show "v \<in> set (intset_elems s)"
    by (metis length_intset_elems nth_mem)
next
  assume "v \<in> set (intset_elems s)"
  then obtain j where j: "j < is_length s" "intset_elems s ! j = v" by (auto simp: in_set_conv_nth)
  show "fst (intsetSearch s v)"
  proof (rule ccontr)
    assume "\<not> fst (intsetSearch s v)"
    with intsetSearch_correct [OF assms, of v] j show False
      by (metis less_irrefl not_le)
  qed
qed

lemma elems_in_enc:
  assumes "intset_wf s" "v \<in> set (intset_elems s)"
  shows "in_enc (is_encoding s) v"
proof -
  obtain i where i: "i < is_length s" "v = slot (is_encoding s) (is_contents s) i"
    using assms(2) by (auto simp: intset_elems_def)
  have "i * is_encoding s + is_encoding s \<le> length (is_contents s)"
    using assms(1) i(1) by (intro slot_bound) (auto simp: intset_wf_def)
  with i(2) assms(1) show ?thesis by (auto intro: slot_in_enc valid_enc_pos simp: intset_wf_def)
qed

lemma intsetFind_mem:
  assumes "intset_wf s" "is_int64 v"
  shows "intsetFind s v \<longleftrightarrow> v \<in> set (intset_elems s)"
  using assms intsetSearch_mem elems_in_enc valueEncoding_le_iff
  by (auto simp: intsetFind_def intset_wf_def)

text \<open>Widening in place.\<close>

lemma intsetUpgrade_loop_correct:
  assumes "valid_enc (is_encoding s)" "valid_enc c" "c \<le> is_encoding s" "p \<le> 1"
    "(n + p) * is_encoding s \<le> length (is_contents s)"
  shows "\<exists>cs. intsetUpgrade_loop s n p c = s\<lparr>is_contents := cs\<rparr>
    \<and> length cs = length (is_contents s)
    \<and> (\<forall>i < n. slot (is_encoding s) cs (i + p) = slot c (is_contents s) i)
    \<and> (\<forall>i. n + p \<le> i \<longrightarrow> slot (is_encoding s) cs i = slot (is_encoding s) (is_contents s) i)"
  using assms
proof (induction n arbitrary: s)
  case 0
  show ?case by (rule exI [of _ "is_contents s"]) simp
next
  case (Suc n)
  let ?e = "is_encoding s" and ?v = "slot c (is_contents s) n"
  let ?cs = "mem_write (is_contents s) ((n + p) * ?e) (le_bytes ?e ?v)"
  let ?s = "s\<lparr>is_contents := ?cs\<rparr>"
  have fits: "(n + p) * ?e + ?e \<le> length (is_contents s)"
    using Suc.prems(5) by (simp add: algebra_simps)
  have len: "length ?cs = length (is_contents s)" using fits by simp
  have c0: "0 < c" "0 < ?e" using Suc.prems valid_enc_pos by auto
  have nc: "n * c + c \<le> length (is_contents s)"
  proof -
    have "n * c + c \<le> n * ?e + ?e" using Suc.prems(3) by (intro add_mono mult_le_mono2) auto
    also have "\<dots> \<le> (n + p) * ?e + ?e" by simp
    finally show ?thesis using fits by simp
  qed
  have v: "in_enc ?e ?v" using slot_in_enc [OF c0(1) nc] Suc.prems in_enc_mono by blast
  have low: "slot c ?cs i = slot c (is_contents s) i" if "i < n" for i
  proof -
    have "i * c + c \<le> n * c" using that by (intro slot_bound) auto
    also have "\<dots> \<le> (n + p) * ?e" using Suc.prems(3) by (intro mult_le_mono) auto
    finally show ?thesis using fits by (simp add: slot_def mem_simps)
  qed
  obtain cs where cs: "intsetUpgrade_loop ?s n p c = ?s\<lparr>is_contents := cs\<rparr>"
    "length cs = length ?cs" "\<forall>i < n. slot ?e cs (i + p) = slot c ?cs i"
    "\<forall>i. n + p \<le> i \<longrightarrow> slot ?e cs i = slot ?e ?cs i"
    using Suc.IH [of ?s] Suc.prems len by (auto simp: algebra_simps)
  have step: "intsetUpgrade_loop s (Suc n) p c = s\<lparr>is_contents := cs\<rparr>"
    using cs(1) Suc.prems by (simp add: intsetSet_write intsetGetEncoded_slot)
  have "slot ?e cs (i + p) = slot c (is_contents s) i" if "i < Suc n" for i
  proof (cases "i = n")
    case True
    with cs(4) slot_write_same [OF c0(2) v fits] show ?thesis by simp
  next
    case False
    with that cs(3) low show ?thesis by simp
  qed
  moreover have "slot ?e cs i = slot ?e (is_contents s) i" if "Suc n + p \<le> i" for i
    using that cs(4) slot_write_other [OF _ fits, of i] by simp
  ultimately show ?case
    by (intro exI [of _ cs] conjI allI impI) (simp_all only: step cs(2) len)
qed

lemma intsetResize_Some:
  "len * is_encoding s \<le> SIZE_MAX - sizeof_intset \<Longrightarrow> intsetResize g s len =
     Some (s\<lparr>is_contents := mem_realloc g (is_contents s) (len * is_encoding s)\<rparr>)"
  by (simp add: intsetResize_def)

lemma length_no_wrap:
  "valid_enc e \<Longrightarrow> (n + 1) * e \<le> SIZE_MAX - sizeof_intset \<Longrightarrow> (n + 1) mod 2 ^ 32 = n + 1"
  by (auto simp: valid_enc_def intset_consts)

lemma elems_eqI:
  assumes "is_length s = length xs" "\<And>i. i < length xs \<Longrightarrow> slot (is_encoding s) (is_contents s) i = xs ! i"
  shows "intset_elems s = xs"
  using assms by (intro nth_equalityI) (auto simp: nth_intset_elems)

lemma intsetUpgradeAndAdd_correct:
  assumes wf: "intset_wf s" and v: "is_int64 v" and enc: "is_encoding s < intsetValueEncoding v"
    and room: "(is_length s + 1) * intsetValueEncoding v \<le> SIZE_MAX - sizeof_intset"
  shows "\<exists>s'. intsetUpgradeAndAdd g s v = Some s' \<and> intset_wf s'
    \<and> intset_elems s' = (if v < 0 then v # intset_elems s else intset_elems s @ [v])
    \<and> is_encoding s' = intsetValueEncoding v"
proof -
  define e where "e = intsetValueEncoding v"
  define c where "c = is_encoding s"
  define n where "n = is_length s"
  define p :: nat where "p = (if v < 0 then 1 else 0)"
  have ve: "valid_enc e" "valid_enc c" using wf by (simp_all add: e_def c_def intset_wf_def)
  have ce: "c \<le> e" and e0: "0 < e" using enc valid_enc_pos [OF ve(1)] by (simp_all add: c_def e_def)
  have nv: "\<not> in_enc c v" using valueEncoding_le_iff [OF ve(2) v] enc by (simp add: c_def)
  have nw: "(n + 1) mod 2 ^ 32 = n + 1" using length_no_wrap [OF ve(1)] room by (simp add: n_def e_def)
  define r where "r = s\<lparr>is_encoding := e, is_contents := mem_realloc g (is_contents s) ((n + 1) * e)\<rparr>"
  have resize: "intsetResize g (s\<lparr>is_encoding := e\<rparr>) ((n + 1) mod 2 ^ 32) = Some r"
    using room nw by (simp add: intsetResize_Some r_def n_def e_def)
  have lr: "length (is_contents r) = (n + 1) * e" by (simp add: r_def)
  have old: "slot c (is_contents r) i = slot c (is_contents s) i" if "i < n" for i
  proof -
    have l: "length (is_contents s) = n * c" using wf by (simp add: intset_wf_def n_def c_def)
    have "i * c + c \<le> n * c" using that by (intro slot_bound) auto
    moreover have "n * c \<le> (n + 1) * e" using ce by (intro mult_le_mono) auto
    ultimately show ?thesis using l by (simp add: r_def slot_realloc)
  qed
  have "\<exists>cs. intsetUpgrade_loop r n p c = r\<lparr>is_contents := cs\<rparr>
    \<and> length cs = length (is_contents r)
    \<and> (\<forall>i < n. slot (is_encoding r) cs (i + p) = slot c (is_contents r) i)
    \<and> (\<forall>i. n + p \<le> i \<longrightarrow> slot (is_encoding r) cs i = slot (is_encoding r) (is_contents r) i)"
    using ve ce lr by (intro intsetUpgrade_loop_correct) (auto simp: r_def p_def)
  then obtain cs where cs: "intsetUpgrade_loop r n p c = r\<lparr>is_contents := cs\<rparr>"
    "length cs = (n + 1) * e" "\<forall>i < n. slot e cs (i + p) = slot c (is_contents s) i"
    using lr old by (auto simp: r_def)
  define q where "q = (if v < 0 then 0 else n)"
  have fits: "q * e + e \<le> length cs" using cs(2) by (simp add: q_def)
  define s' where "s' = s\<lparr>is_encoding := e, is_contents := mem_write cs (q * e) (le_bytes e v), is_length := n + 1\<rparr>"
  have run: "intsetUpgradeAndAdd g s v = Some s'"
    using resize cs(1) ve(1) nw
    by (cases "v < 0") (simp_all add: intsetUpgradeAndAdd_def Let_def s'_def q_def p_def intsetSet_write r_def
        flip: e_def c_def n_def)
  have iv: "in_enc e v" using in_enc_valueEncoding [OF v] by (simp add: e_def)
  have at: "slot e (is_contents s') q = v" using slot_write_same [OF e0 iv fits] by (simp add: s'_def)
  have other: "slot e (is_contents s') j = slot e cs j" if "j \<noteq> q" for j
    using slot_write_other [OF _ fits, of j] that by (simp add: s'_def)
  have el: "intset_elems s' = (if v < 0 then v # intset_elems s else intset_elems s @ [v])"
  proof (rule elems_eqI)
    fix i assume "i < length (if v < 0 then v # intset_elems s else intset_elems s @ [v])"
    then have i: "i < Suc n" by (simp add: n_def split: if_splits)
    show "slot (is_encoding s') (is_contents s') i = (if v < 0 then v # intset_elems s else intset_elems s @ [v]) ! i"
    proof (cases "v < 0")
      case True
      with i at other cs(3) show ?thesis
        by (cases i) (auto simp: q_def p_def s'_def nth_intset_elems n_def c_def)
    next
      case False
      with i at other cs(3) show ?thesis
        by (cases "i = n") (auto simp: q_def p_def s'_def nth_append nth_intset_elems n_def c_def)
    qed
  qed (simp add: s'_def n_def)
  have srt: "sorted_wrt (<) (intset_elems s')"
  proof -
    have "\<forall>x \<in> set (intset_elems s). in_enc c x" using elems_in_enc [OF wf] by (simp add: c_def)
    then have "\<forall>x \<in> set (intset_elems s). if v < 0 then v < x else x < v"
      using nv zero_less_power [of "2::int" "8 * c - 1"] by (fastforce simp: in_enc_def)
    with wf show ?thesis by (simp add: el sorted_wrt_append intset_wf_def)
  qed
  have "intset_wf s'" using ve fits cs(2) room srt
    by (simp add: intset_wf_def s'_def e_def n_def)
  with run el show ?thesis by (intro exI [of _ s']) (simp add: s'_def e_def)
qed

lemma intsetAdd_in_place:
  assumes wf: "intset_wf s" and v: "is_int64 v" and enc: "intsetValueEncoding v \<le> is_encoding s"
    and new: "v \<notin> set (intset_elems s)"
    and room: "(is_length s + 1) * is_encoding s \<le> SIZE_MAX - sizeof_intset"
  shows "\<exists>s' pos. intsetAdd g s v = Some (s', True) \<and> intset_wf s' \<and> is_encoding s' = is_encoding s
    \<and> pos \<le> is_length s \<and> intset_elems s' = take pos (intset_elems s) @ v # drop pos (intset_elems s)"
proof -
  define e where "e = is_encoding s"
  define n where "n = is_length s"
  define pos where "pos = snd (intsetSearch s v)"
  have ve: "valid_enc e" using wf by (simp add: e_def intset_wf_def)
  then have e0: "0 < e" by (rule valid_enc_pos)
  have found: "\<not> fst (intsetSearch s v)" using intsetSearch_mem [OF wf] new by simp
  then have pos: "pos \<le> n" "\<forall>j < pos. intset_elems s ! j < v"
    "\<forall>j. pos \<le> j \<and> j < n \<longrightarrow> v < intset_elems s ! j"
    using intsetSearch_correct [OF wf, of v] by (simp_all add: pos_def n_def)
  have lc: "length (is_contents s) = n * e" using wf by (simp add: intset_wf_def n_def e_def)
  have nw: "(n + 1) mod 2 ^ 32 = n + 1" using length_no_wrap [OF ve] room by (simp add: n_def e_def)
  define cs0 where "cs0 = mem_realloc g (is_contents s) ((n + 1) * e)"
  define cs1 where "cs1 = (if pos < n then mem_move cs0 ((pos + 1) * e) (pos * e) ((n - pos) * e) else cs0)"
  define s' where "s' = s\<lparr>is_contents := mem_write cs1 (pos * e) (le_bytes e v), is_length := n + 1\<rparr>"
  have "pos * e + (n - pos) * e = n * e"
    using pos(1) by (metis add_mult_distrib le_add_diff_inverse)
  then have bnd: "(pos + 1) * e + (n - pos) * e = (n + 1) * e" "pos * e + (n - pos) * e \<le> (n + 1) * e"
    by simp_all
  have l1: "length cs1 = (n + 1) * e" using bnd by (simp add: cs1_def cs0_def)
  have fits: "pos * e + e \<le> length cs1" using l1 pos(1) slot_bound [of pos "n + 1" e] by simp
  have run: "intsetAdd g s v = Some (s', True)"
    using enc found room nw ve
    by (auto simp: intsetAdd_def intsetResize_Some intsetMoveTail_move intsetSet_write Let_def case_prod_unfold
        s'_def cs1_def cs0_def pos_def n_def e_def)
  have old: "slot e cs0 i = slot e (is_contents s) i" if "i < n" for i
    using that lc slot_bound [of i n e "n * e"] by (simp add: cs0_def slot_realloc)
  have low: "slot e cs1 i = slot e (is_contents s) i" if "i < pos" for i
    using that pos(1) old [of i] bnd slot_move_before [of pos e "n - pos" cs0 "pos + 1" i]
    by (simp add: cs1_def cs0_def)
  have high: "slot e cs1 i = slot e (is_contents s) (i - 1)" if "pos < i" "i \<le> n" for i
  proof -
    have "slot e cs1 i = slot e cs0 (pos + (i - (pos + 1)))"
      using that bnd slot_move_in [of pos e "n - pos" cs0 "pos + 1" i] by (simp add: cs1_def cs0_def)
    with that old [of "i - 1"] show ?thesis by simp
  qed
  have iv: "in_enc e v" using valueEncoding_le_iff [OF ve v] enc by (simp add: e_def)
  have el: "intset_elems s' = take pos (intset_elems s) @ v # drop pos (intset_elems s)"
  proof (rule elems_eqI)
    fix i assume "i < length (take pos (intset_elems s) @ v # drop pos (intset_elems s))"
    then have i: "i < Suc n" using pos(1) by (simp add: n_def)
    consider "i < pos" | "i = pos" | "pos < i" by linarith
    then show "slot (is_encoding s') (is_contents s') i =
        (take pos (intset_elems s) @ v # drop pos (intset_elems s)) ! i"
    proof cases
      case 1
      then show ?thesis using low pos(1) slot_write_other [OF _ fits, of i v]
        by (simp add: s'_def nth_append nth_intset_elems n_def flip: e_def)
    next
      case 2
      then show ?thesis using slot_write_same [OF e0 iv fits] pos(1)
        by (simp add: s'_def nth_append n_def flip: e_def)
    next
      case 3
      then show ?thesis using high [of i] i pos(1) slot_write_other [OF _ fits, of i v]
        by (simp add: s'_def nth_append nth_Cons' nth_intset_elems n_def flip: e_def)
    qed
  qed (use pos(1) in \<open>simp add: s'_def n_def\<close>)
  have "sorted_wrt (<) (intset_elems s')"
    unfolding el using wf pos by (intro sorted_wrt_less_insert) (auto simp: intset_wf_def n_def)
  then have "intset_wf s'" using ve fits l1 room
    by (simp add: intset_wf_def s'_def e_def n_def)
  with run el pos(1) show ?thesis
    by (intro exI [of _ s'] exI [of _ pos]) (simp add: s'_def n_def)
qed

lemma intsetRemove_present:
  assumes wf: "intset_wf s" and v: "is_int64 v" and mem: "v \<in> set (intset_elems s)"
  shows "\<exists>s' pos. intsetRemove g s v = Some (s', True) \<and> intset_wf s' \<and> is_encoding s' = is_encoding s
    \<and> pos < is_length s \<and> intset_elems s ! pos = v
    \<and> intset_elems s' = take pos (intset_elems s) @ drop (Suc pos) (intset_elems s)"
proof -
  define e where "e = is_encoding s"
  define n where "n = is_length s"
  define pos where "pos = snd (intsetSearch s v)"
  have ve: "valid_enc e" using wf by (simp add: e_def intset_wf_def)
  then have e0: "0 < e" by (rule valid_enc_pos)
  have found: "fst (intsetSearch s v)" using intsetSearch_mem [OF wf] mem by simp
  then have pos: "pos < n" "intset_elems s ! pos = v"
    using intsetSearch_correct [OF wf, of v] by (simp_all add: pos_def n_def)
  have enc: "intsetValueEncoding v \<le> e"
    using valueEncoding_le_iff [OF ve v] elems_in_enc [OF wf mem] by (simp add: e_def)
  have lc: "length (is_contents s) = n * e" using wf by (simp add: intset_wf_def n_def e_def)
  have room: "(n - 1) * e \<le> SIZE_MAX - sizeof_intset"
    using wf by (auto simp: intset_wf_def n_def e_def diff_mult_distrib)
  define cs1 where "cs1 = (if pos < n - 1 then mem_move (is_contents s) (pos * e) ((pos + 1) * e) ((n - (pos + 1)) * e)
     else is_contents s)"
  define s' where "s' = s\<lparr>is_contents := mem_realloc g cs1 ((n - 1) * e), is_length := n - 1\<rparr>"
  have "(pos + 1) * e + (n - (pos + 1)) * e = n * e"
    using pos(1) by (metis Suc_eq_plus1 Suc_leI add_mult_distrib le_add_diff_inverse)
  then have bnd: "(pos + 1) * e + (n - (pos + 1)) * e \<le> n * e" "pos * e + (n - (pos + 1)) * e \<le> n * e"
    by simp_all
  have l1: "length cs1 = n * e" using bnd lc by (simp add: cs1_def)
  have run: "intsetRemove g s v = Some (s', True)"
    using enc found room ve
    by (auto simp: intsetRemove_def intsetResize_Some intsetMoveTail_move Let_def case_prod_unfold
        s'_def cs1_def pos_def n_def e_def)
  have re: "slot e (is_contents s') i = slot e cs1 i" if "i < n - 1" for i
    using that l1 slot_bound [of i "n - 1" e "(n - 1) * e"] slot_bound [of i n e "n * e"]
    by (simp add: s'_def slot_realloc)
  have low: "slot e cs1 i = slot e (is_contents s) i" if "i < pos" for i
    using that bnd lc slot_move_before [of "pos + 1" e "n - (pos + 1)" "is_contents s" pos i]
    by (simp add: cs1_def)
  have high: "slot e cs1 i = slot e (is_contents s) (Suc i)" if "pos \<le> i" "i < n - 1" for i
    using that bnd lc slot_move_in [of "pos + 1" e "n - (pos + 1)" "is_contents s" pos i]
    by (simp add: cs1_def)
  have el: "intset_elems s' = take pos (intset_elems s) @ drop (Suc pos) (intset_elems s)"
  proof (rule elems_eqI)
    fix i assume "i < length (take pos (intset_elems s) @ drop (Suc pos) (intset_elems s))"
    then have i: "i < n - 1" using pos(1) by (simp add: n_def)
    with re low high pos(1) show "slot (is_encoding s') (is_contents s') i =
        (take pos (intset_elems s) @ drop (Suc pos) (intset_elems s)) ! i"
      by (cases "i < pos") (simp_all add: s'_def nth_append nth_intset_elems n_def flip: e_def)
  qed (use pos(1) in \<open>simp add: s'_def n_def\<close>)
  have "sorted_wrt (<) (take pos (intset_elems s) @ intset_elems s ! pos # drop (Suc pos) (intset_elems s))"
    using wf pos(1) by (simp add: id_take_nth_drop [symmetric] intset_wf_def n_def)
  then have "sorted_wrt (<) (intset_elems s')" by (simp add: el sorted_wrt_append)
  then have "intset_wf s'" using ve room by (simp add: intset_wf_def s'_def e_def)
  with run el pos show ?thesis
    by (intro exI [of _ s'] exI [of _ pos]) (simp add: s'_def n_def)
qed

lemma sorted_list_of_set_strict: "sorted_wrt (<) xs \<Longrightarrow> sorted_list_of_set (set xs) = (xs :: int list)"
  by (simp add: sorted_list_of_set.idem_if_sorted_distinct strict_sorted_iff)

section \<open>The contract of an integer set\<close>

datatype set_op = SetAdd int | SetRem int

fun set_op_arg :: "set_op \<Rightarrow> int" where
  "set_op_arg (SetAdd v) = v"
| "set_op_arg (SetRem v) = v"

text \<open>Running a list of insertions and removals with the operations of a representation, and
  what it does to the represented set.\<close>

fun run_set_ops ::
  "('s \<Rightarrow> int \<Rightarrow> ('s \<times> bool) option) \<Rightarrow> ('s \<Rightarrow> int \<Rightarrow> ('s \<times> bool) option) \<Rightarrow>
   's \<Rightarrow> set_op list \<Rightarrow> ('s \<times> bool list) option" where
  "run_set_ops add rem s [] = Some (s, [])"
| "run_set_ops add rem s (SetAdd v # ops) =
     (case add s v of None \<Rightarrow> None
      | Some (s, b) \<Rightarrow> map_option (\<lambda>(s, bs). (s, b # bs)) (run_set_ops add rem s ops))"
| "run_set_ops add rem s (SetRem v # ops) =
     (case rem s v of None \<Rightarrow> None
      | Some (s, b) \<Rightarrow> map_option (\<lambda>(s, bs). (s, b # bs)) (run_set_ops add rem s ops))"

fun spec_set_ops :: "int set \<Rightarrow> set_op list \<Rightarrow> int set \<times> bool list" where
  "spec_set_ops A [] = (A, [])"
| "spec_set_ops A (SetAdd v # ops) =
     (let (B, bs) = spec_set_ops (insert v A) ops in (B, (v \<notin> A) # bs))"
| "spec_set_ops A (SetRem v # ops) =
     (let (B, bs) = spec_set_ops (A - {v}) ops in (B, (v \<in> A) # bs))"

locale int_set =
  fixes new :: 's
    and add :: "'s \<Rightarrow> int \<Rightarrow> ('s \<times> bool) option"
    and rem :: "'s \<Rightarrow> int \<Rightarrow> ('s \<times> bool) option"
    and find :: "'s \<Rightarrow> int \<Rightarrow> bool"
    and elems :: "'s \<Rightarrow> int set"
    and invar :: "'s \<Rightarrow> bool"
    and cap :: nat
  assumes new: "invar new" "elems new = {}"
    and finite_elems: "finite (elems s)"
    and add: "invar s \<Longrightarrow> is_int64 v \<Longrightarrow> card (elems s) < cap \<Longrightarrow>
      \<exists>s'. add s v = Some (s', v \<notin> elems s) \<and> invar s' \<and> elems s' = insert v (elems s)"
    and rem: "invar s \<Longrightarrow> is_int64 v \<Longrightarrow>
      \<exists>s'. rem s v = Some (s', v \<in> elems s) \<and> invar s' \<and> elems s' = elems s - {v}"
    and find: "invar s \<Longrightarrow> is_int64 v \<Longrightarrow> find s v \<longleftrightarrow> v \<in> elems s"
begin

text \<open>Every sequence of operations that stays within the capacity simulates the mathematical
  set, step for step and with the same answers.\<close>

lemma run_simulates:
  assumes "invar s" "\<forall>x \<in> set ops. is_int64 (set_op_arg x)" "card (elems s) + length ops \<le> cap"
  shows "\<exists>s' bs. run_set_ops add rem s ops = Some (s', bs) \<and> invar s'
    \<and> spec_set_ops (elems s) ops = (elems s', bs)"
  using assms
proof (induction ops arbitrary: s)
  case (Cons x ops)
  show ?case
  proof (cases x)
    case (SetAdd v)
    then obtain s1 where s1: "add s v = Some (s1, v \<notin> elems s)" "invar s1" "elems s1 = insert v (elems s)"
      using add [of s v] Cons.prems by auto
    have "card (elems s1) \<le> Suc (card (elems s))" by (simp add: s1 card_insert_le_m1 card_insert_if finite_elems)
    then obtain s' bs where "run_set_ops add rem s1 ops = Some (s', bs)" "invar s'"
      "spec_set_ops (elems s1) ops = (elems s', bs)"
      using Cons.IH [of s1] Cons.prems s1(2) by auto
    with SetAdd s1 show ?thesis by simp
  next
    case (SetRem v)
    then obtain s1 where s1: "rem s v = Some (s1, v \<in> elems s)" "invar s1" "elems s1 = elems s - {v}"
      using rem [of s v] Cons.prems by auto
    have "card (elems s1) \<le> card (elems s)" by (simp add: s1 card_mono finite_elems)
    then obtain s' bs where "run_set_ops add rem s1 ops = Some (s', bs)" "invar s'"
      "spec_set_ops (elems s1) ops = (elems s', bs)"
      using Cons.IH [of s1] Cons.prems s1(2) by auto
    with SetRem s1 show ?thesis by simp
  qed
qed simp

end

section \<open>Intsets meet the contract\<close>

definition INTSET_CAP :: nat where "INTSET_CAP = 536870910"

lemma valid_enc_le8: "valid_enc e \<Longrightarrow> e \<le> 8"
  by (auto simp: valid_enc_def)

lemma intset_room:
  assumes "n < INTSET_CAP" "valid_enc e"
  shows "(n + 1) * e \<le> SIZE_MAX - sizeof_intset"
proof -
  have "(n + 1) * e \<le> INTSET_CAP * 8"
    using assms valid_enc_le8 by (intro mult_le_mono) auto
  then show ?thesis by (simp add: INTSET_CAP_def intset_consts)
qed

lemma card_intset_elems: "intset_wf s \<Longrightarrow> card (set (intset_elems s)) = is_length s"
  by (metis distinct_card intset_wf_def length_intset_elems strict_sorted_iff)

lemma intsetAdd_correct:
  assumes wf: "intset_wf s" and v: "is_int64 v" and room: "is_length s < INTSET_CAP"
  shows "\<exists>s'. intsetAdd g s v = Some (s', v \<notin> set (intset_elems s)) \<and> intset_wf s'
    \<and> set (intset_elems s') = insert v (set (intset_elems s))"
proof -
  have ve: "valid_enc (is_encoding s)" using wf by (simp add: intset_wf_def)
  consider "is_encoding s < intsetValueEncoding v"
    | "intsetValueEncoding v \<le> is_encoding s" "v \<in> set (intset_elems s)"
    | "intsetValueEncoding v \<le> is_encoding s" "v \<notin> set (intset_elems s)" by linarith
  then show ?thesis
  proof cases
    case 1
    have "v \<notin> set (intset_elems s)"
      using 1 elems_in_enc [OF wf, of v] valueEncoding_le_iff [OF ve v] by auto
    moreover obtain s' where "intsetUpgradeAndAdd g s v = Some s'" "intset_wf s'"
      "intset_elems s' = (if v < 0 then v # intset_elems s else intset_elems s @ [v])"
      using intsetUpgradeAndAdd_correct [OF wf v 1] intset_room [OF room] by auto
    ultimately show ?thesis using 1 by (simp add: intsetAdd_def)
  next
    case 2
    then have "intsetAdd g s v = Some (s, False)"
      using intsetSearch_mem [OF wf, of v] by (simp add: intsetAdd_def case_prod_unfold)
    with 2 wf show ?thesis by auto
  next
    case 3
    obtain s' pos where "intsetAdd g s v = Some (s', True)" "intset_wf s'"
      "intset_elems s' = take pos (intset_elems s) @ v # drop pos (intset_elems s)"
      using intsetAdd_in_place [OF wf v 3] intset_room [OF room ve] by blast
    moreover from this have "set (intset_elems s') = insert v (set (intset_elems s))"
      by (metis Un_insert_right append_take_drop_id list.simps(15) set_append)
    ultimately show ?thesis using 3 by simp
  qed
qed

lemma intsetRemove_correct:
  assumes wf: "intset_wf s" and v: "is_int64 v"
  shows "\<exists>s'. intsetRemove g s v = Some (s', v \<in> set (intset_elems s)) \<and> intset_wf s'
    \<and> set (intset_elems s') = set (intset_elems s) - {v}"
proof (cases "v \<in> set (intset_elems s)")
  case True
  obtain s' pos where r: "intsetRemove g s v = Some (s', True)" "intset_wf s'" "pos < is_length s"
    "intset_elems s ! pos = v"
    "intset_elems s' = take pos (intset_elems s) @ drop (Suc pos) (intset_elems s)"
    using intsetRemove_present [OF wf v True] by blast
  have "distinct (take pos (intset_elems s) @ v # drop (Suc pos) (intset_elems s))"
    using wf r(3,4) by (metis id_take_nth_drop intset_wf_def length_intset_elems strict_sorted_iff)
  moreover have "set (intset_elems s) = set (take pos (intset_elems s) @ v # drop (Suc pos) (intset_elems s))"
    using r(3,4) by (metis id_take_nth_drop length_intset_elems)
  ultimately have "set (intset_elems s') = set (intset_elems s) - {v}" using r(5) by auto
  with r True show ?thesis by simp
next
  case False
  then have "intsetRemove g s v = Some (s, False)"
    using intsetSearch_mem [OF wf, of v] by (simp add: intsetRemove_def case_prod_unfold)
  with False wf show ?thesis by simp
qed

interpretation iset: int_set intsetNew "intsetAdd g" "intsetRemove g" intsetFind
    "\<lambda>s. set (intset_elems s)" intset_wf INTSET_CAP for g
proof unfold_locales
  show "intset_wf intsetNew" "set (intset_elems intsetNew) = {}"
    by (simp_all add: intset_wf_def intsetNew_def intset_elems_def valid_enc_def intset_consts)
next
  fix s v
  assume "intset_wf s" "is_int64 v" "card (set (intset_elems s)) < INTSET_CAP"
  then show "\<exists>s'. intsetAdd g s v = Some (s', v \<notin> set (intset_elems s)) \<and> intset_wf s'
      \<and> set (intset_elems s') = insert v (set (intset_elems s))"
    by (intro intsetAdd_correct) (simp_all add: card_intset_elems)
qed (simp_all add: intsetRemove_correct intsetFind_mem)

section \<open>Blobs\<close>

lemma intset_of_blob_blob:
  assumes "intset_wf s"
  shows "intset_of_blob (intset_blob s) = s"
proof -
  have "is_length s \<le> is_length s * is_encoding s"
    using assms by (auto simp: intset_wf_def Suc_le_eq dest: valid_enc_pos)
  also have "\<dots> \<le> 4294967287" using assms by (simp add: intset_wf_def intset_consts)
  finally have l: "int (is_length s) < 4294967296" by simp
  have e: "int (is_encoding s) < 4294967296" using assms valid_enc_le8 [of "is_encoding s"] by (simp add: intset_wf_def)
  have "mem_read (intset_blob s) 0 4 = le_bytes 4 (int (is_encoding s))"
    "mem_read (intset_blob s) 4 4 = le_bytes 4 (int (is_length s))"
    "drop 8 (intset_blob s) = is_contents s"
    by (simp_all add: mem_read_def intset_blob_def)
  then show ?thesis using l e by (simp add: intset_of_blob_def le_uint_le_bytes)
qed

lemma intset_blob_of_blob:
  assumes "8 \<le> length p"
  shows "intset_blob (intset_of_blob p) = p"
proof -
  have "le_bytes 4 (le_uint (mem_read p 0 4)) = mem_read p 0 4"
    "le_bytes 4 (le_uint (mem_read p 4 4)) = mem_read p 4 4"
    using assms by (auto intro!: le_bytes_le_uint simp: mem_read_def)
  moreover have "mem_read p 0 4 @ mem_read p 4 4 @ drop 8 p = p"
    using append_take_drop_id [of 4 p] append_take_drop_id [of 4 "drop 4 p"] by (simp add: mem_read_def)
  ultimately show ?thesis by (simp add: intset_blob_def intset_of_blob_def)
qed

lemma length_intset_blob:
  "intset_wf s \<Longrightarrow> length (intset_blob s) = sizeof_intset + is_length s * is_encoding s"
  by (simp add: intset_blob_def intset_wf_def sizeof_intset_def)

lemma intsetDup_wf: "intset_wf s \<Longrightarrow> intsetDup (Some s) = s"
  using length_intset_blob [of s] intset_of_blob_blob [of s]
  by (simp add: intsetDup_def intsetBlobLen_def mem_read_def intset_wf_def intset_consts)

lemma intsetValidate_loop_iff:
  "valid_enc (is_encoding s) \<Longrightarrow>
   intsetValidate_loop s i n prev \<longleftrightarrow>
     sorted_wrt (<) (prev # map (slot (is_encoding s) (is_contents s)) [i..<n])"
proof (induction s i n prev rule: intsetValidate_loop.induct)
  case (1 s i n prev)
  show ?case
  proof (cases "i < n")
    case True
    then have "[i..<n] = i # [Suc i..<n]" by (rule upt_conv_Cons)
    moreover have "intsetValidate_loop s i n prev \<longleftrightarrow>
        prev < slot (is_encoding s) (is_contents s) i \<and>
        intsetValidate_loop s (i + 1) n (slot (is_encoding s) (is_contents s) i)"
      using True 1(2) by (subst intsetValidate_loop.simps) (auto simp: intsetGet_at_slot Let_def)
    moreover have "prev < slot (is_encoding s) (is_contents s) i \<Longrightarrow>
        intsetValidate_loop s (i + 1) n (slot (is_encoding s) (is_contents s) i) \<longleftrightarrow>
        sorted_wrt (<) (slot (is_encoding s) (is_contents s) i # map (slot (is_encoding s) (is_contents s)) [Suc i..<n])"
      using 1(1) [OF True refl] 1(2) by (simp add: intsetGet_at_slot)
    ultimately show ?thesis by (auto dest: less_trans)
  next
    case False
    then show ?thesis by (subst intsetValidate_loop.simps) simp
  qed
qed

lemma intsetValidateIntegrity_iff:
  assumes "8 \<le> length p"
    and "is_length (intset_of_blob p) * is_encoding (intset_of_blob p) \<le> SIZE_MAX - sizeof_intset"
  shows "intsetValidateIntegrity p (length p) True \<longleftrightarrow>
    intset_wf (intset_of_blob p) \<and> 0 < is_length (intset_of_blob p)"
proof -
  let ?s = "intset_of_blob p"
  have sz: "(sizeof_intset + is_length ?s * is_encoding ?s) mod 2 ^ 32 =
      sizeof_intset + is_length ?s * is_encoding ?s"
    using assms(2) by (simp add: intset_consts)
  have lc: "length (is_contents ?s) = length p - 8" by (simp add: intset_of_blob_def)
  have el: "0 < is_length ?s \<Longrightarrow> valid_enc (is_encoding ?s) \<Longrightarrow>
      sorted_wrt (<) (intset_elems ?s) \<longleftrightarrow> intsetValidate_loop ?s 1 (is_length ?s) (intsetGet_at ?s 0)"
    by (simp add: intset_elems_def intsetValidate_loop_iff intsetGet_at_slot upt_conv_Cons)
  have ve: "(is_encoding ?s = INTSET_ENC_INT64 \<or> is_encoding ?s = INTSET_ENC_INT32 \<or>
      is_encoding ?s = INTSET_ENC_INT16) \<longleftrightarrow> valid_enc (is_encoding ?s)"
    by (auto simp: valid_enc_def intset_consts)
  show ?thesis
    unfolding intsetValidateIntegrity_def Let_def ve sz
    using assms lc el by (auto simp: intset_wf_def sizeof_intset_def)
qed

section \<open>Properties\<close>

text \<open>C4: Any sequence of at most 536870910 insertions and removals of 64-bit integers, started
  on the set \<open>intsetNew\<close> returns, runs without a failed assertion, whatever the reallocated
  memory holds; every \<open>success\<close> flag is the answer of the mathematical set, and the final
  intset is well-formed and holds exactly the elements of that set.\<close>

theorem intset_refines_set:
  assumes "\<forall>x \<in> set ops. is_int64 (set_op_arg x)" "length ops \<le> INTSET_CAP"
  shows "\<exists>s bs. run_set_ops (intsetAdd g) (intsetRemove g) intsetNew ops = Some (s, bs) \<and> intset_wf s
    \<and> spec_set_ops {} ops = (set (intset_elems s), bs)"
proof -
  have "intset_wf intsetNew" "set (intset_elems intsetNew) = {}" by (rule iset.new)+
  then show ?thesis using iset.run_simulates [of intsetNew ops g] assms by simp
qed

theorem intset_refines_set_witness:
  "\<exists>s bs. run_set_ops (intsetAdd (\<lambda>_. 0)) (intsetRemove (\<lambda>_. 0)) intsetNew
      [SetAdd 5, SetAdd (-70000), SetAdd 5, SetRem 5, SetAdd 5000000000] = Some (s, bs) \<and> intset_wf s
    \<and> ({5000000000, -70000}, [True, True, False, True, True]) = (set (intset_elems s), bs)"
proof -
  have "spec_set_ops {} [SetAdd 5, SetAdd (-70000), SetAdd 5, SetRem 5, SetAdd 5000000000] =
      ({5000000000, -70000}, [True, True, False, True, True])"
    by auto
  then show ?thesis
    using intset_refines_set [of "[SetAdd 5, SetAdd (-70000), SetAdd 5, SetRem 5, SetAdd 5000000000]" "\<lambda>_. 0"]
    by (simp add: is_int64_def INTSET_CAP_def)
qed

text \<open>C5: \<open>intsetAdd\<close> on a well-formed intset with room for one more element succeeds for every
  64-bit value, in place or by widening every record first: the result is well-formed, its
  records are the sorted elements with the value inserted, the flag says whether it was new, and
  the length grows by one exactly then.\<close>

theorem intsetAdd_sorted:
  assumes "intset_wf s" "is_int64 v" "intsetLen s < INTSET_CAP"
  shows "\<exists>s'. intsetAdd g s v = Some (s', v \<notin> set (intset_elems s)) \<and> intset_wf s'
    \<and> intset_elems s' = sorted_list_of_set (insert v (set (intset_elems s)))
    \<and> intsetLen s' = intsetLen s + (if v \<in> set (intset_elems s) then 0 else 1)"
proof -
  obtain s' where s': "intsetAdd g s v = Some (s', v \<notin> set (intset_elems s))" "intset_wf s'"
    "set (intset_elems s') = insert v (set (intset_elems s))"
    using intsetAdd_correct [of s v g] assms by (auto simp: intsetLen_def)
  then have "intset_elems s' = sorted_list_of_set (insert v (set (intset_elems s)))"
    by (metis intset_wf_def sorted_list_of_set_strict)
  moreover have "intsetLen s' = card (insert v (set (intset_elems s)))"
    using card_intset_elems [OF s'(2)] s'(3) by (simp add: intsetLen_def)
  ultimately show ?thesis
    using s' assms(1) by (simp add: card_insert_if card_intset_elems intsetLen_def)
qed

theorem intsetAdd_sorted_witness:
  "\<exists>s'. intsetAdd (\<lambda>_. 7) \<lparr>is_encoding = 2, is_length = 2, is_contents = [254, 255, 3, 0]\<rparr> (-40000) =
      Some (s', True) \<and> intset_elems s' = [-40000, -2, 3]"
proof -
  let ?s = "\<lparr>is_encoding = 2, is_length = 2, is_contents = [254, 255, 3, 0]\<rparr> :: intset"
  have e: "intset_elems ?s = [-2, 3]" by code_simp
  have "intset_wf ?s" unfolding intset_wf_def e by (simp add: valid_enc_def intset_consts)
  then show ?thesis using intsetAdd_sorted [of ?s "-40000" "\<lambda>_. 7"] e
    by (simp add: intsetLen_def is_int64_def INTSET_CAP_def) (auto simp: insort_key.simps)
qed

text \<open>C6: \<open>intsetRemove\<close> never fails: it deletes the value where it occurs, keeps the other
  records in order and the intset well-formed, and reports whether it removed one.
  \<open>intsetFind\<close> then says no for that value and answers as before for every other.\<close>

theorem intsetRemove_sorted:
  assumes "intset_wf s" "is_int64 v"
  shows "\<exists>s'. intsetRemove g s v = Some (s', intsetFind s v) \<and> intset_wf s'
    \<and> intset_elems s' = sorted_list_of_set (set (intset_elems s) - {v})
    \<and> (\<forall>w. is_int64 w \<longrightarrow> intsetFind s' w = (w \<noteq> v \<and> intsetFind s w))"
proof -
  obtain s' where s': "intsetRemove g s v = Some (s', v \<in> set (intset_elems s))" "intset_wf s'"
    "set (intset_elems s') = set (intset_elems s) - {v}"
    using intsetRemove_correct [of s v g] assms by auto
  then have "intset_elems s' = sorted_list_of_set (set (intset_elems s) - {v})"
    by (metis intset_wf_def sorted_list_of_set_strict)
  with s' assms show ?thesis by (auto simp: intsetFind_mem)
qed

theorem intsetRemove_sorted_witness:
  "\<exists>s'. intsetRemove (\<lambda>_. 7) \<lparr>is_encoding = 2, is_length = 2, is_contents = [254, 255, 3, 0]\<rparr> (-2) =
      Some (s', True) \<and> intset_elems s' = [3] \<and> intsetFind s' 3 \<and> \<not> intsetFind s' (-2)"
proof -
  let ?s = "\<lparr>is_encoding = 2, is_length = 2, is_contents = [254, 255, 3, 0]\<rparr> :: intset"
  have e: "intset_elems ?s = [-2, 3]" by code_simp
  have f: "intsetFind ?s (-2)" "intsetFind ?s 3" by code_simp+
  have "intset_wf ?s" unfolding intset_wf_def e by (simp add: valid_enc_def intset_consts)
  then show ?thesis using intsetRemove_sorted [of ?s "-2" "\<lambda>_. 7"] e f
    by (auto simp: is_int64_def)
qed

text \<open>C7: Deep validation of an untrusted blob whose header does not announce more than 4 GiB
  accepts exactly the blobs of well-formed non-empty intsets; and a well-formed non-empty intset
  written out as a blob is accepted, and \<open>intsetDup\<close> copies it.\<close>

theorem intsetValidateIntegrity_deep:
  assumes "8 \<le> length p"
    and "is_length (intset_of_blob p) * is_encoding (intset_of_blob p) \<le> SIZE_MAX - sizeof_intset"
  shows "intsetValidateIntegrity p (length p) True \<longleftrightarrow>
      (\<exists>s. p = intset_blob s \<and> intset_wf s \<and> 0 < intsetLen s \<and> intsetDup (Some s) = s)"
    (is "_ \<longleftrightarrow> (\<exists>s. ?blob s)")
proof -
  have "intset_wf (intset_of_blob p) \<and> 0 < is_length (intset_of_blob p) \<longleftrightarrow> (\<exists>s. ?blob s)"
  proof
    assume "intset_wf (intset_of_blob p) \<and> 0 < is_length (intset_of_blob p)"
    then have "?blob (intset_of_blob p)"
      using assms(1) intsetDup_wf by (simp add: intset_blob_of_blob intsetLen_def)
    then show "\<exists>s. ?blob s" ..
  qed (auto simp: intset_of_blob_blob intsetLen_def)
  then show ?thesis using intsetValidateIntegrity_iff [OF assms] by simp
qed

theorem intsetValidateIntegrity_deep_witness:
  "intsetValidateIntegrity [2, 0, 0, 0, 2, 0, 0, 0, 254, 255, 3, 0] 12 True
   \<and> (\<exists>s. [2, 0, 0, 0, 2, 0, 0, 0, 254, 255, 3, 0] = intset_blob s \<and> intset_wf s)"
proof -
  let ?p = "[2, 0, 0, 0, 2, 0, 0, 0, 254, 255, 3, 0] :: bytes"
  have h: "is_length (intset_of_blob ?p) = 2" "is_encoding (intset_of_blob ?p) = 2" by code_simp+
  have "intsetValidate_loop (intset_of_blob ?p) 1 2 (intsetGet_at (intset_of_blob ?p) 0)" by code_simp
  then have "intsetValidateIntegrity ?p 12 True"
    by (simp add: intsetValidateIntegrity_def h intset_consts)
  moreover have "length ?p = 12" by simp
  ultimately show ?thesis
    using intsetValidateIntegrity_deep [of ?p] by (auto simp del: list.size simp: h intset_consts)
qed


end
