(* ===== verification/Glob.thy ===== *)
theory Glob
  imports Prelude
begin

text \<open>
  Glob-style matching, \<open>stringmatchlen\<close> of \<open>src/src/util.c\<close>. A pattern or string pointer with its
  length is the list of the bytes that remain, so \<open>pattern++; patternLen--\<close> is \<open>tl\<close>. The
  byte after the pattern is its NUL terminator. The variable \<open>skipLongerMatches\<close> the recursion
  shares is passed in and returned. Characters are signed, as \<open>char\<close> is.

  The specification parses the pattern into tokens and matches them declaratively
  (\<open>glob_match\<close>); it has no skip flag and no bound on the nesting.
\<close>

section \<open>The matcher\<close>

definition tolower :: "int \<Rightarrow> int" where
  "tolower c = (if 65 \<le> c \<and> c \<le> 90 then c + 32 else c)"

text \<open>Comparison of one pattern byte with one string byte.\<close>

definition char_eq :: "bool \<Rightarrow> byte \<Rightarrow> byte \<Rightarrow> bool" where
  "char_eq nocase a b = (if \<not> nocase then a = b else tolower (sint a) = tolower (sint b))"

text \<open>The range \<open>a-b\<close> of a character class.\<close>

definition range_match :: "bool \<Rightarrow> byte \<Rightarrow> byte \<Rightarrow> byte \<Rightarrow> bool" where
  "range_match nocase a b ch =
     (let start = sint a; stop = sint b; c = sint ch;
          (start, stop) = (if stop < start then (stop, start) else (start, stop));
          (start, stop, c) = (if nocase then (tolower start, tolower stop, tolower c) else (start, stop, c))
      in start \<le> c \<and> c \<le> stop)"

text \<open>The loop over a character class. It returns \<open>match\<close> and the pattern after the class; at
  the end of the pattern the step back and the \<open>pattern++\<close> after the switch cancel.\<close>

fun class_loop :: "bool \<Rightarrow> byte \<Rightarrow> bytes \<Rightarrow> bool \<Rightarrow> bool \<times> bytes" where
  "class_loop nocase ch p matched =
     (if 2 \<le> length p \<and> p ! 0 = 92 then
        class_loop nocase ch (drop 2 p) (if p ! 1 = ch then True else matched)
      else if p = [] then (matched, [])
      else if p ! 0 = 93 then (matched, tl p)
      else if 3 \<le> length p \<and> p ! 1 = 45 then
        class_loop nocase ch (drop 3 p) (if range_match nocase (p ! 0) (p ! 2) ch then True else matched)
      else
        class_loop nocase ch (tl p) (if char_eq nocase (p ! 0) ch then True else matched))"

declare class_loop.simps [simp del]

text \<open>\<open>while (patternLen && pattern[1] == '*')\<close> and \<open>while (patternLen && *pattern == '*')\<close>.\<close>

fun skip_stars1 :: "bytes \<Rightarrow> bytes" where
  "skip_stars1 (a # b # p) = (if b = 42 then skip_stars1 (b # p) else a # b # p)"
| "skip_stars1 p = p"

fun skip_stars :: "bytes \<Rightarrow> bytes" where
  "skip_stars (a # p) = (if a = 42 then skip_stars p else a # p)"
| "skip_stars [] = []"

lemma length_skip_stars1: "length (skip_stars1 p) \<le> length p"
  by (induction p rule: skip_stars1.induct) auto

lemma skip_stars1_nonempty: "p \<noteq> [] \<Longrightarrow> skip_stars1 p \<noteq> []"
  by (induction p rule: skip_stars1.induct) auto

lemma class_loop_length: "length (snd (class_loop nocase ch p matched)) \<le> length p"
proof (induction nocase ch p matched rule: class_loop.induct)
  case (1 nocase ch p matched)
  note IH = 1
  show ?case
    apply (subst class_loop.simps)
    using IH by (auto simp del: length_greater_0_conv split: if_splits intro: order_trans)
qed

text \<open>The cases other than \<open>'*'\<close> with the \<open>pattern++\<close> that follows the switch: the rest
  of the pattern when the first character of the string is accepted.\<close>

definition sm_step :: "bool \<Rightarrow> byte \<Rightarrow> bytes \<Rightarrow> byte \<Rightarrow> bytes option" where
  "sm_step nocase c p ch =
     (if c = 63 then Some p
      else if c = 91 then
        let not_op = (p \<noteq> [] \<and> hd p = 94);
            (matched, rest) = class_loop nocase ch (if not_op then tl p else p) False;
            matched = (if not_op then \<not> matched else matched)
        in if \<not> matched then None else Some rest
      else
        let p' = (if c = 92 \<and> 2 \<le> length (c # p) then p else c # p)
        in if char_eq nocase (hd p') ch then Some (tl p') else None)"

lemma sm_step_length: "sm_step nocase c p ch = Some p' \<Longrightarrow> length p' \<le> length p"
  using class_loop_length [of nocase ch "if p \<noteq> [] \<and> hd p = 94 then tl p else p" False]
  by (auto simp: sm_step_def Let_def split: if_splits prod.splits)

text \<open>\<open>sm_impl\<close> is a call of \<open>stringmatchlen_impl\<close>, \<open>sm_loop\<close> its main loop and
  \<open>sm_star\<close> the loop over the string in the case \<open>'*'\<close>, with the pattern after the star;
  each returns the result and the skip flag.\<close>

function (sequential) sm_impl :: "bool \<Rightarrow> bytes \<Rightarrow> bytes \<Rightarrow> bool \<Rightarrow> nat \<Rightarrow> bool \<times> bool"
  and sm_loop :: "bool \<Rightarrow> bytes \<Rightarrow> bytes \<Rightarrow> bool \<Rightarrow> nat \<Rightarrow> bool \<times> bool"
  and sm_star :: "bool \<Rightarrow> bytes \<Rightarrow> bytes \<Rightarrow> bool \<Rightarrow> nat \<Rightarrow> bool \<times> bool" where
  "sm_impl nocase p s skip nesting =
     (if 1000 < nesting then (False, skip) else sm_loop nocase p s skip nesting)"
| "sm_loop nocase p [] skip nesting = (p = [], skip)"
| "sm_loop nocase [] s skip nesting = (s = [], skip)"
| "sm_loop nocase (c # p) (ch # s) skip nesting =
     (if c = 42 then
        let p' = skip_stars1 (c # p) in
        if length p' = 1 then (True, skip) else sm_star nocase (tl p') (ch # s) skip nesting
      else
        case sm_step nocase c p ch of
          None \<Rightarrow> (False, skip)
        | Some p \<Rightarrow> if s = [] then (skip_stars p = [], skip) else sm_loop nocase p s skip nesting)"
| "sm_star nocase p [] skip nesting = (False, True)"
| "sm_star nocase p (ch # s) skip nesting =
     (let (r, skip) = sm_impl nocase p (ch # s) skip (nesting + 1)
      in if r then (True, skip)
         else if skip then (False, skip)
         else sm_star nocase p s skip nesting)"
  by pat_completeness auto
termination
proof (relation "measure (\<lambda>x. case x of
    Inl (_, p, s, _, _) \<Rightarrow> 3 * (length p + length s) + 2
  | Inr (Inl (_, p, s, _, _)) \<Rightarrow> 3 * (length p + length s) + 1
  | Inr (Inr (_, p, s, _, _)) \<Rightarrow> 3 * (length p + length s) + 3)", goal_cases)
  case (3 nocase c p ch s skip nesting x)
  then show ?case using length_skip_stars1 [of "c # p"] by simp
next
  case (4 nocase c p ch s skip nesting p')
  then show ?case using sm_step_length by fastforce
qed auto

declare sm_impl.simps [simp del] sm_loop.simps [simp del] sm_star.simps [simp del]

definition stringmatchlen :: "bytes \<Rightarrow> bytes \<Rightarrow> bool \<Rightarrow> bool" where
  "stringmatchlen pat str nocase = fst (sm_impl nocase pat str False 0)"

text \<open>NUL-terminated arguments.\<close>

definition c_str :: "bytes \<Rightarrow> bytes" where
  "c_str m = takeWhile (\<lambda>b. b \<noteq> 0) m"

definition stringmatch :: "bytes \<Rightarrow> bytes \<Rightarrow> bool \<Rightarrow> bool" where
  "stringmatch pat str nocase = stringmatchlen (c_str pat) (c_str str) nocase"

definition prefixmatchlen :: "bytes \<Rightarrow> bytes \<Rightarrow> bool \<Rightarrow> bool" where
  "prefixmatchlen pat str nocase =
     (if length pat = 1 \<and> pat ! 0 = 42 then True
      else if 0 < length pat \<and> pat ! (length pat - 1) \<noteq> 42 then False
      else stringmatchlen pat str nocase)"

section \<open>Specification\<close>

datatype class_item = CEsc byte | CRange byte byte | CChar byte

datatype glob_tok = GStar | GAny | GClass bool "class_item list" | GLit byte

text \<open>The items of a class and the pattern after it. An escape makes the next byte literal, a
  class that is not closed ends with the pattern.\<close>

fun parse_class :: "bytes \<Rightarrow> class_item list \<times> bytes" where
  "parse_class [] = ([], [])"
| "parse_class [a] = (if a = 93 then ([], []) else ([CChar a], []))"
| "parse_class [a, b] =
     (if a = 92 then ([CEsc b], [])
      else if a = 93 then ([], [b])
      else apfst (Cons (CChar a)) (parse_class [b]))"
| "parse_class (a # b # c # p) =
     (if a = 92 then apfst (Cons (CEsc b)) (parse_class (c # p))
      else if a = 93 then ([], b # c # p)
      else if b = 45 then apfst (Cons (CRange a c)) (parse_class p)
      else apfst (Cons (CChar a)) (parse_class (b # c # p)))"

lemma parse_class_length: "length (snd (parse_class p)) \<le> length p"
  by (induction p rule: parse_class.induct) auto

lemma parse_class_shorter [termination_simp]:
  "length (snd (parse_class p)) < Suc (length p)" "length (snd (parse_class (tl p))) < Suc (length p)"
  using parse_class_length [of p] parse_class_length [of "tl p"] by simp_all

fun glob_tokens :: "bytes \<Rightarrow> glob_tok list" where
  "glob_tokens [] = []"
| "glob_tokens (c # p) =
     (if c = 42 then GStar # glob_tokens p
      else if c = 63 then GAny # glob_tokens p
      else if c = 91 then
        (if p \<noteq> [] \<and> hd p = 94
         then GClass True (fst (parse_class (tl p))) # glob_tokens (snd (parse_class (tl p)))
         else GClass False (fst (parse_class p)) # glob_tokens (snd (parse_class p)))
      else if c = 92 \<and> p \<noteq> [] then GLit (hd p) # glob_tokens (tl p)
      else GLit c # glob_tokens p)"

fun item_match :: "bool \<Rightarrow> byte \<Rightarrow> class_item \<Rightarrow> bool" where
  "item_match nocase ch (CEsc b) = (b = ch)"
| "item_match nocase ch (CRange a b) = range_match nocase a b ch"
| "item_match nocase ch (CChar a) = char_eq nocase a ch"

fun tok_match :: "bool \<Rightarrow> glob_tok \<Rightarrow> byte \<Rightarrow> bool" where
  "tok_match nocase GStar ch = False"
| "tok_match nocase GAny ch = True"
| "tok_match nocase (GClass neg its) ch = (neg \<noteq> list_ex (item_match nocase ch) its)"
| "tok_match nocase (GLit c) ch = char_eq nocase c ch"

text \<open>A star matches any substring, every other token one character.\<close>

fun glob_match :: "bool \<Rightarrow> glob_tok list \<Rightarrow> bytes \<Rightarrow> bool" where
  "glob_match nocase [] s = (s = [])"
| "glob_match nocase (GStar # ts) s = (\<exists>k \<in> {..length s}. glob_match nocase ts (drop k s))"
| "glob_match nocase (t # ts) [] = False"
| "glob_match nocase (t # ts) (ch # s) = (tok_match nocase t ch \<and> glob_match nocase ts s)"

declare glob_match.simps(2) [simp del]

section \<open>The matcher meets its specification\<close>

lemma glob_match_star: "glob_match nocase (GStar # ts) s \<longleftrightarrow> (\<exists>k. glob_match nocase ts (drop k s))"
proof
  assume "\<exists>k. glob_match nocase ts (drop k s)"
  then obtain k where "glob_match nocase ts (drop k s)" ..
  then have "glob_match nocase ts (drop (min k (length s)) s)" by (cases "k \<le> length s") (simp_all add: min_def)
  then show "glob_match nocase (GStar # ts) s" by (auto simp: glob_match.simps(2))
qed (auto simp: glob_match.simps(2))

lemma glob_match_star_star: "glob_match nocase (GStar # GStar # ts) s = glob_match nocase (GStar # ts) s"
proof -
  have "(\<exists>k j. glob_match nocase ts (drop (j + k) s)) \<longleftrightarrow> (\<exists>k. glob_match nocase ts (drop k s))"
    by (metis add_0)
  then show ?thesis by (simp add: glob_match_star)
qed

lemma glob_match_One:
  "t \<noteq> GStar \<Longrightarrow> glob_match nocase (t # ts) s \<longleftrightarrow>
   (\<exists>ch s'. s = ch # s' \<and> tok_match nocase t ch \<and> glob_match nocase ts s')"
  by (cases t; cases s) auto

lemma class_loop_parse:
  "class_loop nocase ch p m = (m \<or> list_ex (item_match nocase ch) (fst (parse_class p)), snd (parse_class p))"
proof (induction p arbitrary: m rule: parse_class.induct)
  case 1
  then show ?case by (subst class_loop.simps) simp
next
  case (2 a)
  show ?case by (subst class_loop.simps, subst class_loop.simps) simp
next
  case (3 a b)
  show ?case by (subst class_loop.simps) (auto simp: 3, (subst class_loop.simps, simp)+)
next
  case (4 a b c p)
  show ?case by (subst class_loop.simps) (auto simp: 4 eval_nat_numeral)
qed

text \<open>Outside the case \<open>'*'\<close> a step of the matcher consumes one token.\<close>

lemma sm_step_token:
  assumes "c \<noteq> 42"
  obtains t rest where "glob_tokens (c # p) = t # glob_tokens rest" "t \<noteq> GStar"
    "\<And>ch. sm_step nocase c p ch = (if tok_match nocase t ch then Some rest else None)"
proof -
  consider "c = 63" | "c = 91" "p \<noteq> []" "hd p = 94" | "c = 91" "\<not> (p \<noteq> [] \<and> hd p = 94)"
    | "c = 92" "p \<noteq> []" | "c \<noteq> 63" "c \<noteq> 91" "\<not> (c = 92 \<and> p \<noteq> [])" by blast
  then show thesis
  proof cases
    case 1
    then show thesis using that [of GAny p] by (simp add: sm_step_def)
  next
    case 2
    then show thesis
      using that [of "GClass True (fst (parse_class (tl p)))" "snd (parse_class (tl p))"]
      by (simp add: sm_step_def class_loop_parse)
  next
    case 3
    then show thesis
      using that [of "GClass False (fst (parse_class p))" "snd (parse_class p)"]
      by (cases p) (auto simp: sm_step_def class_loop_parse)
  next
    case 4
    then show thesis using that [of "GLit (hd p)" "tl p"] by (cases p) (simp_all add: sm_step_def)
  next
    case 5
    then show thesis using that [of "GLit c" p] assms
      by (cases p) (auto simp add: sm_step_def)
  qed
qed

lemma skip_stars1_Cons: "skip_stars1 (42 # p) = 42 # skip_stars p"
  by (induction p) auto

lemma skip_stars_star:
  "glob_match nocase (glob_tokens (42 # p)) s = glob_match nocase (GStar # glob_tokens (skip_stars p)) s"
  by (induction p) (auto simp: glob_match_star_star)

lemma glob_match_Nil: "glob_match nocase (glob_tokens p) [] \<longleftrightarrow> skip_stars p = []"
proof (induction p)
  case (Cons c p)
  show ?case
  proof (cases "c = 42")
    case False
    then obtain t rest where "glob_tokens (c # p) = t # glob_tokens rest" "t \<noteq> GStar"
      using sm_step_token by blast
    with False show ?thesis by (simp add: glob_match_One del: glob_tokens.simps)
  qed (simp add: Cons glob_match_star)
qed simp

definition nstars :: "bytes \<Rightarrow> nat" where
  "nstars p = length (filter (\<lambda>t. t = GStar) (glob_tokens p))"

lemma nstars_skip: "nstars (skip_stars p) \<le> nstars p"
  by (induction p) (auto simp: nstars_def)

lemma skip_stars_hd: "skip_stars p \<noteq> [] \<Longrightarrow> hd (skip_stars p) \<noteq> 42"
  by (induction p) auto

lemma skip_stars_idem: "skip_stars p \<noteq> [] \<Longrightarrow> skip_stars (skip_stars p) = skip_stars p"
  by (induction p) auto

text \<open>What a call promises about its result \<open>r\<close> and the flag \<open>k\<close>: success is sound
  without conditions; with enough nesting left failure is right too, and a raised flag means that
  the pattern matches no suffix of the string, so that a longer match of an earlier star is
  hopeless.\<close>

definition sm_post :: "bool \<Rightarrow> bytes \<Rightarrow> bytes \<Rightarrow> nat \<Rightarrow> bool \<times> bool \<Rightarrow> bool" where
  "sm_post nocase p s n rk \<longleftrightarrow>
     (fst rk \<longrightarrow> glob_match nocase (glob_tokens p) s) \<and>
     (n + nstars p \<le> 1000 \<longrightarrow>
       (\<not> fst rk \<longrightarrow> \<not> glob_match nocase (glob_tokens p) s) \<and>
       (\<not> fst rk \<and> snd rk \<longrightarrow> (\<forall>j. \<not> glob_match nocase (glob_tokens p) (drop j s))))"

definition star_post :: "bool \<Rightarrow> bytes \<Rightarrow> bytes \<Rightarrow> nat \<Rightarrow> bool \<Rightarrow> bool" where
  "star_post nocase p s n r \<longleftrightarrow>
     (r \<longrightarrow> (\<exists>j. glob_match nocase (glob_tokens p) (drop j s))) \<and>
     (n + 1 + nstars p \<le> 1000 \<and> \<not> r \<longrightarrow>
       (\<forall>j < length s. \<not> glob_match nocase (glob_tokens p) (drop j s)))"

lemma sm_post_step:
  assumes tok: "glob_tokens (c # p) = t # glob_tokens rest" "t \<noteq> GStar" "tok_match nocase t ch"
    and rest: "sm_post nocase rest s n rk"
  shows "sm_post nocase (c # p) (ch # s) n rk"
proof -
  have ns: "nstars (c # p) = nstars rest" using tok by (simp add: nstars_def)
  have "\<not> glob_match nocase (t # glob_tokens rest) (drop j (ch # s))"
    if "\<forall>j. \<not> glob_match nocase (glob_tokens rest) (drop j s)" for j
  proof
    assume "glob_match nocase (t # glob_tokens rest) (drop j (ch # s))"
    then obtain x s' where "drop j (ch # s) = x # s'" "glob_match nocase (glob_tokens rest) s'"
      using tok(2) by (auto simp: glob_match_One)
    moreover from this have "s' = drop j s" by (metis drop_Suc list.sel(3) tl_drop)
    ultimately show False using that by simp
  qed
  then show ?thesis using rest tok ns by (auto simp: sm_post_def glob_match_One simp del: glob_tokens.simps)
qed

lemma sm_post_star:
  assumes "skip_stars p \<noteq> []" "s \<noteq> []" and star: "star_post nocase (skip_stars p) s n (fst rk)"
  shows "sm_post nocase (42 # p) s n rk"
proof -
  let ?ts = "glob_tokens (skip_stars p)"
  have ns: "n + 1 + nstars (skip_stars p) \<le> 1000" if "n + nstars (42 # p) \<le> 1000"
    using that nstars_skip [of p] by (simp add: nstars_def)
  have nil: "\<not> glob_match nocase ?ts []" using assms(1) by (simp add: glob_match_Nil skip_stars_idem)
  have "\<not> glob_match nocase (GStar # ?ts) (drop j s)"
    if "\<forall>j < length s. \<not> glob_match nocase ?ts (drop j s)" for j
    using that nil by (auto simp: glob_match_star) (metis drop_all not_le)
  moreover have "\<not> glob_match nocase (GStar # ?ts) s"
    if "\<forall>j < length s. \<not> glob_match nocase ?ts (drop j s)"
    using calculation [OF that, of 0] by simp
  ultimately show ?thesis
    using star ns unfolding sm_post_def star_post_def skip_stars_star
    by (auto simp: glob_match_star)
qed

lemma sm_post_False: "\<not> glob_match nocase (glob_tokens p) s \<Longrightarrow> sm_post nocase p s n (False, False)"
  by (simp add: sm_post_def)

lemma sm_loop_star:
  assumes "skip_stars p \<noteq> [] \<Longrightarrow>
    star_post nocase (skip_stars p) (ch # s) n (fst (sm_star nocase (skip_stars p) (ch # s) skip n))"
  shows "sm_post nocase (42 # p) (ch # s) n (sm_loop nocase (42 # p) (ch # s) skip n)"
proof (cases "skip_stars p = []")
  case True
  then have "sm_loop nocase (42 # p) (ch # s) skip n = (True, skip)"
    by (simp add: sm_loop.simps skip_stars1_Cons)
  moreover have "glob_match nocase (GStar # glob_tokens (skip_stars p)) (ch # s)"
    unfolding glob_match_star using True by (intro exI [of _ "length (ch # s)"]) simp
  ultimately show ?thesis by (simp add: sm_post_def skip_stars_star del: glob_tokens.simps)
next
  case False
  then have "sm_loop nocase (42 # p) (ch # s) skip n = sm_star nocase (skip_stars p) (ch # s) skip n"
    by (simp add: sm_loop.simps skip_stars1_Cons)
  then show ?thesis using False assms sm_post_star by simp
qed

lemma sm_loop_token:
  assumes c: "c \<noteq> 42" and "\<not> skip"
    and IH: "\<And>rest. sm_step nocase c p ch = Some rest \<Longrightarrow> s \<noteq> [] \<Longrightarrow>
      sm_post nocase rest s n (sm_loop nocase rest s skip n)"
  shows "sm_post nocase (c # p) (ch # s) n (sm_loop nocase (c # p) (ch # s) skip n)"
proof -
  obtain t rest where t: "glob_tokens (c # p) = t # glob_tokens rest" "t \<noteq> GStar"
    "\<And>ch. sm_step nocase c p ch = (if tok_match nocase t ch then Some rest else None)"
    using c sm_step_token by blast
  show ?thesis
  proof (cases "tok_match nocase t ch")
    case True
    have "sm_post nocase rest s n (sm_loop nocase (c # p) (ch # s) skip n)"
      using IH [of rest] assms(2) c t(3) True
      by (cases "s = []") (auto simp: sm_loop.simps(3) sm_post_def glob_match_Nil)
    then show ?thesis using sm_post_step t True by blast
  next
    case False
    then have "sm_loop nocase (c # p) (ch # s) skip n = (False, False)"
      using assms t(3) by (simp add: sm_loop.simps)
    then show ?thesis using t False by (simp add: sm_post_False glob_match_One del: glob_tokens.simps)
  qed
qed

lemma star_post_Cons:
  assumes "sm_post nocase p (ch # s) (n + 1) (r, k)"
    and "\<not> r \<Longrightarrow> \<not> k \<Longrightarrow> star_post nocase p s n r'"
  shows "star_post nocase p (ch # s) n (if r then True else if k then False else r')"
proof -
  consider "r" | "\<not> r" "k" | "\<not> r" "\<not> k" by blast
  then show ?thesis
  proof cases
    case 1
    then show ?thesis using assms(1) by (auto simp: sm_post_def star_post_def intro: exI [of _ 0])
  next
    case 2
    then show ?thesis using assms(1) by (auto simp: sm_post_def star_post_def)
  next
    case 3
    then have "star_post nocase p s n r'" using assms(2) by simp
    moreover have "\<not> glob_match nocase (glob_tokens p) (ch # s)" if "n + 1 + nstars p \<le> 1000"
      using 3 assms(1) that by (simp add: sm_post_def)
    ultimately show ?thesis using 3
      by (auto simp: star_post_def nth_Cons drop_Cons split: nat.splits intro: exI [of _ "Suc _"])
  qed
qed

lemma sm_correct:
  "\<not> skip \<Longrightarrow> s \<noteq> [] \<Longrightarrow> sm_post nocase p s nesting (sm_impl nocase p s skip nesting)"
  "\<not> skip \<Longrightarrow> s \<noteq> [] \<Longrightarrow> sm_post nocase p s nesting (sm_loop nocase p s skip nesting)"
  "\<not> skip \<Longrightarrow> star_post nocase p s nesting (fst (sm_star nocase p s skip nesting))"
proof (induction nocase p s skip nesting and nocase p s skip nesting and nocase p s skip nesting
    rule: sm_impl_sm_loop_sm_star.induct)
  case (1 nocase p s skip nesting)
  then show ?case by (cases "1000 < nesting") (auto simp: sm_impl.simps sm_post_def)
next
  case (4 nocase c p ch s skip nesting)
  show ?case
  proof (cases "c = 42")
    case True
    then show ?thesis
      using "4.IH"(1) [OF True refl] "4.prems" by (auto simp: skip_stars1_Cons intro!: sm_loop_star)
  next
    case False
    then show ?thesis using "4.IH"(2) "4.prems" by (intro sm_loop_token) auto
  qed
next
  case (6 nocase p ch s skip nesting)
  obtain r k where rk: "sm_impl nocase p (ch # s) skip (nesting + 1) = (r, k)" by fastforce
  have "sm_post nocase p (ch # s) (nesting + 1) (r, k)" using "6.IH"(1) "6.prems" rk by simp
  then have "star_post nocase p (ch # s) nesting
      (if r then True else if k then False else fst (sm_star nocase p s k nesting))"
    by (rule star_post_Cons) (use "6.IH"(2) [OF rk [symmetric] refl] in auto)
  moreover have "fst (sm_star nocase p (ch # s) skip nesting) =
      (if r then True else if k then False else fst (sm_star nocase p s k nesting))"
    using rk by (simp add: sm_star.simps(2))
  ultimately show ?case by simp
qed (simp_all add: sm_loop.simps sm_post_False sm_star.simps star_post_def)

lemma stringmatchlen_sound: "stringmatchlen p s nocase \<Longrightarrow> glob_match nocase (glob_tokens p) s"
proof (cases "s = []")
  case True
  moreover assume "stringmatchlen p s nocase"
  ultimately show ?thesis by (simp add: stringmatchlen_def sm_impl.simps sm_loop.simps)
next
  case False
  moreover assume "stringmatchlen p s nocase"
  ultimately show ?thesis using sm_correct(1) [of False s nocase p 0]
    by (simp add: stringmatchlen_def sm_post_def)
qed

section \<open>Properties\<close>






end
