(* ===== verification/Keyslot.thy ===== *)
theory Keyslot
  imports Glob
begin

text \<open>
  Cluster hash slots: \<open>crc16\<close> of \<open>src/src/crc16.c\<close>, \<open>keyHashSlot\<close> and \<open>patternHashSlot\<close> of
  \<open>src/src/cluster.c\<close>. The specification of the checksum is the bitwise CRC-16/XMODEM, that of
  the slot of a key is the checksum of its hash tag. The slot of a glob pattern is related to the
  matcher of theory \<open>Glob\<close>.
\<close>

unbundle bit_operations_syntax

section \<open>The checksum\<close>

definition crc16tab :: "16 word list" where
  "crc16tab = [
    0x0000, 0x1021, 0x2042, 0x3063, 0x4084, 0x50a5, 0x60c6, 0x70e7,
    0x8108, 0x9129, 0xa14a, 0xb16b, 0xc18c, 0xd1ad, 0xe1ce, 0xf1ef,
    0x1231, 0x0210, 0x3273, 0x2252, 0x52b5, 0x4294, 0x72f7, 0x62d6,
    0x9339, 0x8318, 0xb37b, 0xa35a, 0xd3bd, 0xc39c, 0xf3ff, 0xe3de,
    0x2462, 0x3443, 0x0420, 0x1401, 0x64e6, 0x74c7, 0x44a4, 0x5485,
    0xa56a, 0xb54b, 0x8528, 0x9509, 0xe5ee, 0xf5cf, 0xc5ac, 0xd58d,
    0x3653, 0x2672, 0x1611, 0x0630, 0x76d7, 0x66f6, 0x5695, 0x46b4,
    0xb75b, 0xa77a, 0x9719, 0x8738, 0xf7df, 0xe7fe, 0xd79d, 0xc7bc,
    0x48c4, 0x58e5, 0x6886, 0x78a7, 0x0840, 0x1861, 0x2802, 0x3823,
    0xc9cc, 0xd9ed, 0xe98e, 0xf9af, 0x8948, 0x9969, 0xa90a, 0xb92b,
    0x5af5, 0x4ad4, 0x7ab7, 0x6a96, 0x1a71, 0x0a50, 0x3a33, 0x2a12,
    0xdbfd, 0xcbdc, 0xfbbf, 0xeb9e, 0x9b79, 0x8b58, 0xbb3b, 0xab1a,
    0x6ca6, 0x7c87, 0x4ce4, 0x5cc5, 0x2c22, 0x3c03, 0x0c60, 0x1c41,
    0xedae, 0xfd8f, 0xcdec, 0xddcd, 0xad2a, 0xbd0b, 0x8d68, 0x9d49,
    0x7e97, 0x6eb6, 0x5ed5, 0x4ef4, 0x3e13, 0x2e32, 0x1e51, 0x0e70,
    0xff9f, 0xefbe, 0xdfdd, 0xcffc, 0xbf1b, 0xaf3a, 0x9f59, 0x8f78,
    0x9188, 0x81a9, 0xb1ca, 0xa1eb, 0xd10c, 0xc12d, 0xf14e, 0xe16f,
    0x1080, 0x00a1, 0x30c2, 0x20e3, 0x5004, 0x4025, 0x7046, 0x6067,
    0x83b9, 0x9398, 0xa3fb, 0xb3da, 0xc33d, 0xd31c, 0xe37f, 0xf35e,
    0x02b1, 0x1290, 0x22f3, 0x32d2, 0x4235, 0x5214, 0x6277, 0x7256,
    0xb5ea, 0xa5cb, 0x95a8, 0x8589, 0xf56e, 0xe54f, 0xd52c, 0xc50d,
    0x34e2, 0x24c3, 0x14a0, 0x0481, 0x7466, 0x6447, 0x5424, 0x4405,
    0xa7db, 0xb7fa, 0x8799, 0x97b8, 0xe75f, 0xf77e, 0xc71d, 0xd73c,
    0x26d3, 0x36f2, 0x0691, 0x16b0, 0x6657, 0x7676, 0x4615, 0x5634,
    0xd94c, 0xc96d, 0xf90e, 0xe92f, 0x99c8, 0x89e9, 0xb98a, 0xa9ab,
    0x5844, 0x4865, 0x7806, 0x6827, 0x18c0, 0x08e1, 0x3882, 0x28a3,
    0xcb7d, 0xdb5c, 0xeb3f, 0xfb1e, 0x8bf9, 0x9bd8, 0xabbb, 0xbb9a,
    0x4a75, 0x5a54, 0x6a37, 0x7a16, 0x0af1, 0x1ad0, 0x2ab3, 0x3a92,
    0xfd2e, 0xed0f, 0xdd6c, 0xcd4d, 0xbdaa, 0xad8b, 0x9de8, 0x8dc9,
    0x7c26, 0x6c07, 0x5c64, 0x4c45, 0x3ca2, 0x2c83, 0x1ce0, 0x0cc1,
    0xef1f, 0xff3e, 0xcf5d, 0xdf7c, 0xaf9b, 0xbfba, 0x8fd9, 0x9ff8,
    0x6e17, 0x7e36, 0x4e55, 0x5e74, 0x2e93, 0x3eb2, 0x0ed1, 0x1ef0]"

text \<open>One iteration of the loop; the assignment to a \<open>uint16_t\<close> drops the bits shifted out.\<close>

definition crc16_step :: "16 word \<Rightarrow> byte \<Rightarrow> 16 word" where
  "crc16_step crc b = push_bit 8 crc XOR crc16tab ! unat ((drop_bit 8 crc XOR scast b) AND 0x00FF)"

definition crc16 :: "bytes \<Rightarrow> 16 word" where
  "crc16 buf = foldl crc16_step 0 buf"

section \<open>Slots of keys and patterns\<close>

text \<open>The loops \<open>for (s = i; s < keylen; s++) if (key[s] == c) break;\<close>.\<close>

function scan_for :: "byte \<Rightarrow> bytes \<Rightarrow> nat \<Rightarrow> nat" where
  "scan_for c key i = (if i < length key then if key ! i = c then i else scan_for c key (i + 1) else i)"
  by pat_completeness auto
termination
  by (relation "measure (\<lambda>(c, key, i). length key - i)") auto

declare scan_for.simps [simp del]

definition keyHashSlot :: "bytes \<Rightarrow> nat" where
  "keyHashSlot key =
     (let s = scan_for 123 key 0 in
      if s = length key then unat (crc16 key AND 0x3FFF)
      else
        let e = scan_for 125 key (s + 1) in
        if e = length key \<or> e = s + 1 then unat (crc16 key AND 0x3FFF)
        else unat (crc16 (mem_read key (s + 1) (e - s - 1)) AND 0x3FFF))"

function patternHashSlot_loop :: "bytes \<Rightarrow> nat \<Rightarrow> int \<Rightarrow> int" where
  "patternHashSlot_loop pat i s =
     (if i < length pat then
        (if pat ! i = 42 \<or> pat ! i = 63 \<or> pat ! i = 91 then -1
         else if pat ! i = 92 then -1
         else if s = -1 \<and> pat ! i = 123 then patternHashSlot_loop pat (i + 1) (int i)
         else if 0 \<le> s \<and> pat ! i = 125 \<and> int i = s + 1 then patternHashSlot_loop pat (i + 1) (-2)
         else if 0 \<le> s \<and> pat ! i = 125 then
           int (unat (crc16 (mem_read pat (nat s + 1) (i - nat s - 1)) AND 0x3FFF))
         else patternHashSlot_loop pat (i + 1) s)
      else int (unat (crc16 pat AND 0x3FFF)))"
  by pat_completeness auto
termination
  by (relation "measure (\<lambda>(pat, i, s). length pat - i)") auto

declare patternHashSlot_loop.simps [simp del]

definition patternHashSlot :: "bytes \<Rightarrow> int" where
  "patternHashSlot pat = patternHashSlot_loop pat 0 (-1)"

section \<open>The checksum is CRC-16/XMODEM\<close>

text \<open>The checksum bit by bit: polynomial \<open>0x1021\<close>, initial value 0, no reflection.\<close>

definition crc_bit :: "16 word \<Rightarrow> 16 word" where
  "crc_bit w = push_bit 1 w XOR (if bit w 15 then 0x1021 else 0)"

definition crc_byte :: "16 word \<Rightarrow> byte \<Rightarrow> 16 word" where
  "crc_byte w b = (crc_bit ^^ 8) (w XOR push_bit 8 (ucast b))"

definition crc_xmodem :: "bytes \<Rightarrow> 16 word" where
  "crc_xmodem bs = foldl crc_byte 0 bs"

lemma crc_bit_xor: "crc_bit (a XOR b) = crc_bit a XOR crc_bit b"
  by (simp add: crc_bit_def bit_xor_iff push_bit_xor ac_simps)

lemma crc_bits_xor: "(crc_bit ^^ n) (a XOR b) = (crc_bit ^^ n) a XOR (crc_bit ^^ n) b"
  by (induction n) (simp_all add: crc_bit_xor)

text \<open>The table, entry by entry: doubling the index is one bit step. The whole table unfolds from
  its first entry; the evaluation is done on integers.\<close>

definition crc_gen :: "16 word list \<Rightarrow> 16 word list" where
  "crc_gen ws = concat (map (\<lambda>w. [crc_bit w, crc_bit w XOR 0x1021]) ws)"

definition crc_bit_int :: "int \<Rightarrow> int" where
  "crc_bit_int x = (2 * x mod 65536) XOR (if odd (x div 32768) then 0x1021 else 0)"

definition crc_gen_int :: "int list \<Rightarrow> int list" where
  "crc_gen_int xs = concat (map (\<lambda>x. [crc_bit_int x, crc_bit_int x XOR 0x1021]) xs)"

lemma word_of_int_xor: "word_of_int (x XOR y) = (word_of_int x XOR word_of_int y :: 'a::len word)"
  by (rule bit_word_eqI) (simp add: bit_simps)

lemma crc_bit_of_int: "crc_bit (word_of_int x) = word_of_int (crc_bit_int x)"
proof -
  have "bit (word_of_int x :: 16 word) 15 \<longleftrightarrow> odd (x div 32768)"
    by (simp add: bit_word_of_int_iff) (simp add: bit_iff_odd)
  moreover have "push_bit 1 (word_of_int x :: 16 word) = word_of_int (2 * x mod 65536)"
    by (simp add: push_bit_eq_mult word_uint_eq_iff uint_word_of_int uint_word_ariths mod_mult_right_eq mult.commute)
  ultimately show ?thesis by (simp add: crc_bit_def crc_bit_int_def word_of_int_xor)
qed

lemma crc_gen_of_int: "crc_gen (map word_of_int xs) = map word_of_int (crc_gen_int xs)"
  by (induction xs) (simp_all add: crc_gen_def crc_gen_int_def crc_bit_of_int word_of_int_xor)

lemma crc_gens_of_int: "(crc_gen ^^ n) (map word_of_int xs) = map word_of_int ((crc_gen_int ^^ n) xs)"
  by (induction n) (simp_all add: crc_gen_of_int)

lemma crc_gen_int_tab: "(crc_gen_int ^^ 8) [0] = map uint crc16tab"
  by code_simp

lemma crc_gen_tab: "(crc_gen ^^ 8) [0] = crc16tab"
proof -
  have "(crc_gen ^^ 8) (map word_of_int [0]) = map word_of_int (map uint crc16tab)"
    by (simp only: crc_gens_of_int crc_gen_int_tab)
  then show ?thesis by (simp add: comp_def)
qed

abbreviation crc8 :: "nat \<Rightarrow> 16 word" where
  "crc8 i \<equiv> (crc_bit ^^ 8) (push_bit 8 (of_nat i))"

lemma crc8_double:
  assumes "i < 128"
  shows "crc8 (2 * i) = crc_bit (crc8 i)" "crc8 (2 * i + 1) = crc_bit (crc8 i) XOR 0x1021"
proof -
  have "\<not> bit i 7" using assms by (simp add: bit_iff_odd)
  then have d: "push_bit 8 (of_nat (2 * i)) = crc_bit (push_bit 8 (of_nat i))"
    by (simp add: crc_bit_def bit_simps) (simp add: push_bit_eq_mult)
  show e: "crc8 (2 * i) = crc_bit (crc8 i)"
    unfolding d by (metis funpow_swap1)
  have "2 * i + 1 = 2 * i XOR 1" by (simp add: xor_Suc_0_eq)
  then have "push_bit 8 (of_nat (2 * i + 1) :: 16 word) = push_bit 8 (of_nat (2 * i)) XOR 0x100"
    by (simp only: of_nat_xor_eq push_bit_xor) (simp add: push_bit_eq_mult)
  moreover have "(crc_bit ^^ 8) 0x100 = 0x1021" by code_simp
  ultimately show "crc8 (2 * i + 1) = crc_bit (crc8 i) XOR 0x1021"
    by (simp only: crc_bits_xor e)
qed

lemma crc_gen_double: "n \<le> 128 \<Longrightarrow> crc_gen (map crc8 [0..<n]) = map crc8 [0..<2 * n]"
proof (induction n)
  case (Suc n)
  have "[0..<2 * Suc n] = [0..<2 * n] @ [2 * n, 2 * n + 1]" by simp
  moreover have "crc_gen (map crc8 [0..<Suc n]) =
      crc_gen (map crc8 [0..<n]) @ [crc_bit (crc8 n), crc_bit (crc8 n) XOR 0x1021]"
    by (simp add: crc_gen_def)
  ultimately show ?case using Suc crc8_double [of n] by simp
qed (simp add: crc_gen_def)

lemma crc_gens: "n \<le> 8 \<Longrightarrow> (crc_gen ^^ n) [0] = map crc8 [0..<2 ^ n]"
proof (induction n)
  case 0
  have "(crc_bit ^^ n) 0 = 0" for n by (induction n) (simp_all add: crc_bit_def)
  then show ?case by simp
next
  case (Suc n)
  then have "(2::nat) ^ n \<le> 2 ^ 7" by (intro power_increasing) auto
  with Suc crc_gen_double [of "2 ^ n"] show ?case by simp
qed

lemma crc16tab_nth: "i < 256 \<Longrightarrow> crc16tab ! i = crc8 i"
proof -
  assume i: "i < 256"
  have tab: "crc16tab = map crc8 [0..<256]" using crc_gens [of 8] by (simp add: crc_gen_tab)
  show ?thesis unfolding tab using i by (subst nth_map) simp_all
qed

text \<open>The low byte never reaches the top bit in eight steps.\<close>

lemma mask8: "(0xFF::16 word) = mask 8"
  by (simp add: mask_eq_exp_minus_1)

lemma crc_bits_low: "n \<le> 8 \<Longrightarrow> (crc_bit ^^ n) (w AND 0xFF) = push_bit n (w AND 0xFF)"
proof (induction n)
  case (Suc n)
  have "\<not> bit (push_bit n (w AND 0xFF)) 15"
    using Suc.prems unfolding mask8 by (auto simp: bit_simps)
  moreover have "(crc_bit ^^ n) (w AND 0xFF) = push_bit n (w AND 0xFF)" using Suc by simp
  ultimately have "(crc_bit ^^ Suc n) (w AND 0xFF) = push_bit 1 (push_bit n (w AND 0xFF))"
    by (simp only: funpow.simps comp_apply crc_bit_def if_False xor.right_neutral)
  also have "\<dots> = push_bit (Suc n) (w AND 0xFF)" by (simp only: push_bit_push_bit plus_1_eq_Suc)
  finally show ?case .
qed simp

lemma split_byte: "(w::16 word) = push_bit 8 (drop_bit 8 w) XOR (w AND 0xFF)"
  unfolding mask8 by (rule bit_word_eqI) (auto simp: bit_simps)

lemma crc16_step_bits: "crc16_step crc b = crc_byte crc b"
proof -
  define w where "w = crc XOR push_bit 8 (ucast b)"
  have h: "(drop_bit 8 crc XOR scast b) AND 0x00FF = drop_bit 8 w"
    unfolding w_def mask8 by (rule bit_word_eqI) (auto simp: bit_simps dest: bit_imp_le_length)
  have l: "push_bit 8 (w AND 0xFF) = push_bit 8 crc"
    unfolding w_def mask8 by (rule bit_word_eqI) (auto simp: bit_simps)
  have "unat w < 65536" using unsigned_less [of w, where ?'a = nat] by simp
  then have "unat (drop_bit 8 w) < 256"
    by (simp add: drop_bit_eq_div unat_div less_mult_imp_div_less)
  then have t: "crc16tab ! unat (drop_bit 8 w) = (crc_bit ^^ 8) (push_bit 8 (drop_bit 8 w))"
    by (simp add: crc16tab_nth)
  have "crc_byte crc b = (crc_bit ^^ 8) (push_bit 8 (drop_bit 8 w) XOR (w AND 0xFF))"
    by (simp only: crc_byte_def w_def [symmetric] split_byte [symmetric])
  also have "\<dots> = crc16tab ! unat (drop_bit 8 w) XOR push_bit 8 crc"
    by (simp only: crc_bits_xor crc_bits_low order_refl l t)
  finally show ?thesis unfolding crc16_step_def h by (simp add: xor.commute)
qed

lemma crc16_xmodem: "crc16 bs = crc_xmodem bs"
  by (simp add: crc16_def crc_xmodem_def crc16_step_bits [abs_def])

section \<open>Hash tags\<close>

definition slot_of :: "bytes \<Rightarrow> nat" where
  "slot_of t = unat (crc16 t AND 0x3FFF)"

text \<open>The tag of a key: what stands between the first opening brace and the next closing one, and
  the whole key when there is no such text.\<close>

definition hashtag :: "bytes \<Rightarrow> bytes" where
  "hashtag key =
     (let r = dropWhile (\<lambda>c. c \<noteq> 123) key; t = takeWhile (\<lambda>c. c \<noteq> 125) (tl r) in
      if r = [] \<or> 125 \<notin> set (tl r) \<or> t = [] then key else t)"

lemma slot_of_less: "slot_of t < 16384"
proof -
  have m: "(0x3FFF::16 word) = mask 14" by (simp add: mask_eq_exp_minus_1)
  have "slot_of t = take_bit 14 (unat (crc16 t))"
    unfolding slot_of_def m by (simp only: take_bit_eq_mask [symmetric] unsigned_take_bit_eq)
  then show ?thesis using take_bit_nat_less_exp [of 14 "unat (crc16 t)"] by simp
qed

lemma takeWhile_absent: "c \<notin> set xs \<Longrightarrow> takeWhile (\<lambda>x. x \<noteq> c) xs = xs"
  by (induction xs) auto

lemma takeWhile_upto: "c \<notin> set a \<Longrightarrow> takeWhile (\<lambda>x. x \<noteq> c) (a @ c # b) = a"
  by (induction a) auto

lemma dropWhile_open: "123 \<notin> set a \<Longrightarrow> dropWhile (\<lambda>c. c \<noteq> 123) (a @ 123 # b) = 123 # b"
  by (induction a) auto

lemma hashtag_no_open: "123 \<notin> set k \<Longrightarrow> hashtag k = k"
  by (simp add: hashtag_def dropWhile_eq_Nil_conv [THEN iffD2] Let_def)

lemma hashtag_unclosed: "123 \<notin> set a \<Longrightarrow> 125 \<notin> set b \<Longrightarrow> hashtag (a @ 123 # b) = a @ 123 # b"
  by (simp add: hashtag_def dropWhile_open)

lemma hashtag_empty: "123 \<notin> set a \<Longrightarrow> hashtag (a @ 123 # 125 # b) = a @ 123 # 125 # b"
  by (simp add: hashtag_def dropWhile_open)

lemma hashtag_closed:
  assumes "123 \<notin> set a" "t \<noteq> []" "125 \<notin> set t"
  shows "hashtag (a @ 123 # t @ 125 # b) = t"
  using assms by (simp add: hashtag_def dropWhile_open takeWhile_upto)

lemma scan_for_eq: "i \<le> length k \<Longrightarrow> scan_for c k i = i + length (takeWhile (\<lambda>x. x \<noteq> c) (drop i k))"
proof (induction c k i rule: scan_for.induct)
  case (1 c k i)
  show ?case
  proof (cases "i < length k")
    case True
    then have "drop i k = k ! i # drop (Suc i) k" by (simp add: Cons_nth_drop_Suc)
    with True 1 show ?thesis by (subst scan_for.simps) simp
  qed (use 1 in \<open>subst scan_for.simps, simp\<close>)
qed

lemma keyHashSlot_hashtag: "keyHashSlot key = slot_of (hashtag key)"
proof (cases "123 \<in> set key")
  case False
  then have "scan_for 123 key 0 = length key" by (simp add: scan_for_eq takeWhile_absent)
  with False show ?thesis by (simp add: keyHashSlot_def slot_of_def hashtag_no_open)
next
  case True
  then obtain a b where k: "key = a @ 123 # b" and a: "123 \<notin> set a" by (metis split_list_first)
  have s: "scan_for 123 key 0 = length a" using a by (simp add: scan_for_eq takeWhile_upto k)
  have e: "scan_for 125 key (length a + 1) = length a + 1 + length (takeWhile (\<lambda>x. x \<noteq> 125) b)"
    by (subst scan_for_eq) (simp_all add: k)
  consider "125 \<notin> set b" | b' where "b = 125 # b'"
    | t b' where "b = t @ 125 # b'" "t \<noteq> []" "125 \<notin> set t"
    by (metis append_Nil split_list_first)
  then show ?thesis
  proof cases
    case 1
    with a s e show ?thesis by (simp add: takeWhile_absent keyHashSlot_def Let_def slot_of_def k hashtag_unclosed)
  next
    case 2
    with a s e show ?thesis by (simp add: keyHashSlot_def Let_def slot_of_def k hashtag_empty)
  next
    case 3
    then have t: "takeWhile (\<lambda>x. x \<noteq> 125) b = t" by (simp add: takeWhile_upto)
    have "mem_read key (length a + 1) (length t) = t" by (simp add: mem_read_def k 3)
    with 3 a s e t show ?thesis by (simp add: keyHashSlot_def Let_def slot_of_def k hashtag_closed)
  qed
qed

section \<open>The slot of a pattern\<close>

text \<open>Bytes that the matcher compares literally.\<close>

definition plain :: "byte \<Rightarrow> bool" where
  "plain c \<longleftrightarrow> c \<noteq> 42 \<and> c \<noteq> 63 \<and> c \<noteq> 91 \<and> c \<noteq> 92"

lemma glob_tokens_plain: "\<forall>c \<in> set q. plain c \<Longrightarrow> glob_tokens (q @ p) = map GLit q @ glob_tokens p"
  by (induction q) (auto simp: plain_def)

lemma glob_match_plain:
  "glob_match False (map GLit q @ ts) k \<longleftrightarrow> (\<exists>k'. k = q @ k' \<and> glob_match False ts k')"
  by (induction q arbitrary: k) (auto simp: glob_match_One char_eq_def)

text \<open>The state of the scan: \<open>q\<close> is the part of the pattern that is behind the loop.\<close>

definition scan_inv :: "bytes \<Rightarrow> int \<Rightarrow> bool" where
  "scan_inv q s \<longleftrightarrow>
     s = -1 \<and> 123 \<notin> set q
     \<or> s = -2 \<and> (\<exists>a b. q = a @ 123 # 125 # b \<and> 123 \<notin> set a)
     \<or> (\<exists>a b. s = int (length a) \<and> q = a @ 123 # b \<and> 123 \<notin> set a \<and> 125 \<notin> set b)"

lemma scan_inv_hashtag: "scan_inv q s \<Longrightarrow> hashtag q = q"
  by (auto simp: scan_inv_def hashtag_no_open hashtag_empty hashtag_unclosed)

lemma scan_inv_open:
  "123 \<notin> set a \<Longrightarrow> 125 \<notin> set b \<Longrightarrow> s = int (length a) \<Longrightarrow> scan_inv (a @ 123 # b) s"
  by (metis scan_inv_def)

lemma scan_inv_snoc:
  assumes "scan_inv q s" "\<not> (s = -1 \<and> c = 123)" "\<not> (0 \<le> s \<and> c = 125)"
  shows "scan_inv (q @ [c]) s"
proof -
  consider "s = -1" "123 \<notin> set q" | a b where "s = -2" "q = a @ 123 # 125 # b" "123 \<notin> set a"
    | a b where "s = int (length a)" "q = a @ 123 # b" "123 \<notin> set a" "125 \<notin> set b"
    using assms(1) by (auto simp: scan_inv_def)
  then show ?thesis
  proof cases
    case 1
    then show ?thesis using assms by (auto simp: scan_inv_def)
  next
    case (2 a b)
    then have "q @ [c] = a @ 123 # 125 # (b @ [c])" by simp
    with 2 show ?thesis by (metis scan_inv_def)
  next
    case (3 a b)
    then have "q @ [c] = a @ 123 # (b @ [c])" "125 \<notin> set (b @ [c])" using assms by auto
    with 3 show ?thesis by (metis scan_inv_def)
  qed
qed

lemma scan_inv_tag:
  assumes "scan_inv q s" "0 \<le> s"
  obtains a b where "s = int (length a)" "q = a @ 123 # b" "123 \<notin> set a" "125 \<notin> set b"
  using assms by (auto simp: scan_inv_def)

text \<open>A slot is returned in two ways: at the end of a plain pattern, whose tag is the whole
  pattern, or at the closing brace of a plain prefix.\<close>

definition slot_found :: "bytes \<Rightarrow> int \<Rightarrow> bool" where
  "slot_found p r \<longleftrightarrow>
     (\<forall>c \<in> set p. plain c) \<and> r = int (slot_of (hashtag p)) \<or>
     (\<exists>a t rest. p = a @ 123 # t @ 125 # rest \<and> (\<forall>c \<in> set (a @ 123 # t @ [125]). plain c)
       \<and> 123 \<notin> set a \<and> t \<noteq> [] \<and> 125 \<notin> set t \<and> r = int (slot_of t))"

lemma slot_found_closed:
  assumes "i < length p" "p ! i = 125" "\<forall>c \<in> set (take i p). plain c"
    and "scan_inv (take i p) s" "0 \<le> s" "int i \<noteq> s + 1"
  shows "slot_found p (int (slot_of (mem_read p (nat s + 1) (i - nat s - 1))))"
proof -
  obtain a b where ab: "s = int (length a)" "take i p = a @ 123 # b" "123 \<notin> set a" "125 \<notin> set b"
    using assms by (auto elim: scan_inv_tag)
  have p: "p = a @ 123 # b @ 125 # drop (Suc i) p"
    using assms(1,2) ab(2) by (metis append.assoc append_Cons id_take_nth_drop)
  have i: "i = length a + 1 + length b" using assms(1) arg_cong [OF ab(2), of length] by simp
  then have "b \<noteq> []" using assms(6) ab(1) by auto
  moreover have "mem_read p (nat s + 1) (i - nat s - 1) = b"
    by (subst p) (simp add: mem_read_def ab(1) i)
  moreover have "\<forall>c \<in> set (a @ 123 # b @ [125]). plain c"
    using assms(3) ab(2) by (auto simp: plain_def)
  ultimately show ?thesis unfolding slot_found_def using p ab by metis
qed

text \<open>An iteration returns or goes on with the invariant.\<close>

lemma patternHashSlot_step:
  assumes "i < length p" "\<forall>c \<in> set (take i p). plain c" "scan_inv (take i p) s"
    "patternHashSlot_loop p i s \<noteq> -1"
  shows "plain (p ! i)"
    and "slot_found p (patternHashSlot_loop p i s) \<or>
      (\<exists>s'. scan_inv (take (Suc i) p) s' \<and> patternHashSlot_loop p i s = patternHashSlot_loop p (Suc i) s')"
proof -
  note step = patternHashSlot_loop.simps [of p i s]
  show c: "plain (p ! i)" using assms(1,4) step by (auto simp: plain_def split: if_splits)
  then have c': "p ! i \<noteq> 42" "p ! i \<noteq> 63" "p ! i \<noteq> 91" "p ! i \<noteq> 92" by (simp_all add: plain_def)
  have tk: "take (Suc i) p = take i p @ [p ! i]" using assms(1) by (simp add: take_Suc_conv_app_nth)
  consider "s = -1" "p ! i = 123" | "0 \<le> s" "p ! i = 125" "int i = s + 1"
    | "0 \<le> s" "p ! i = 125" "int i \<noteq> s + 1"
    | "\<not> (s = -1 \<and> p ! i = 123)" "\<not> (0 \<le> s \<and> p ! i = 125)" by blast
  then show "slot_found p (patternHashSlot_loop p i s) \<or>
      (\<exists>s'. scan_inv (take (Suc i) p) s' \<and> patternHashSlot_loop p i s = patternHashSlot_loop p (Suc i) s')"
  proof cases
    case 1
    have "scan_inv (take i p @ 123 # []) (int i)"
      by (rule scan_inv_open) (use 1 assms in \<open>auto simp: scan_inv_def\<close>)
    then have "scan_inv (take (Suc i) p) (int i)" by (simp only: tk 1)
    then show ?thesis using 1 assms(1) step c' by auto
  next
    case 2
    obtain a b where ab: "s = int (length a)" "take i p = a @ 123 # b" "123 \<notin> set a"
      using scan_inv_tag [OF assms(3) 2(1)] by metis
    have "b = []" using 2(3) ab(1) arg_cong [OF ab(2), of length] assms(1) by simp
    then have "take (Suc i) p = a @ 123 # 125 # []" using ab 2 by (simp add: tk)
    then have "scan_inv (take (Suc i) p) (-2)" using ab(3) by (metis scan_inv_def)
    then show ?thesis using 2 assms(1) step c' by auto
  next
    case 3
    then show ?thesis using slot_found_closed assms c' step by (simp add: slot_of_def)
  next
    case 4
    then have "scan_inv (take (Suc i) p) s" using scan_inv_snoc assms(3) unfolding tk by blast
    then show ?thesis using 4 assms(1) step c' by auto
  qed
qed

lemma patternHashSlot_loop_found:
  assumes "i \<le> length p" "\<forall>c \<in> set (take i p). plain c" "scan_inv (take i p) s"
    "patternHashSlot_loop p i s \<noteq> -1"
  shows "slot_found p (patternHashSlot_loop p i s)"
  using assms
proof (induction "length p - i" arbitrary: i s rule: less_induct)
  case less
  show ?case
  proof (cases "i < length p")
    case False
    then have "take i p = p" by simp
    moreover have "patternHashSlot_loop p i s = int (slot_of p)"
      using False by (subst patternHashSlot_loop.simps) (simp add: slot_of_def)
    ultimately show ?thesis using less.prems scan_inv_hashtag unfolding slot_found_def by metis
  next
    case True
    have "\<forall>x \<in> set (take (Suc i) p). plain x"
      using patternHashSlot_step(1) [OF True] less.prems by (simp add: take_Suc_conv_app_nth True)
    then show ?thesis
      using patternHashSlot_step(2) [OF True] less True by fastforce
  qed
qed

lemma patternHashSlot_found: "patternHashSlot p \<noteq> -1 \<Longrightarrow> slot_found p (patternHashSlot p)"
  using patternHashSlot_loop_found [of 0 p "-1"] by (simp add: patternHashSlot_def scan_inv_def)

lemma slot_found_match:
  assumes "slot_found p r" "glob_match False (glob_tokens p) k"
  shows "r = int (slot_of (hashtag k))"
proof -
  consider "\<forall>c \<in> set p. plain c" "r = int (slot_of (hashtag p))"
    | a t rest where "p = (a @ 123 # t @ [125]) @ rest" "\<forall>c \<in> set (a @ 123 # t @ [125]). plain c"
       "123 \<notin> set a" "t \<noteq> []" "125 \<notin> set t" "r = int (slot_of t)"
    using assms(1) unfolding slot_found_def by force
  then show ?thesis
  proof cases
    case 1
    then have "k = p" using assms(2) glob_tokens_plain [of p "[]"] glob_match_plain [of p "[]" k] by simp
    with 1 show ?thesis by simp
  next
    case 2
    then obtain k' where "k = (a @ 123 # t @ [125]) @ k'"
      using assms(2) glob_tokens_plain [OF 2(2)] glob_match_plain by metis
    then show ?thesis using 2 by (simp add: hashtag_closed)
  qed
qed

section \<open>Properties\<close>

text \<open>C27: The table-driven checksum is the bitwise CRC-16/XMODEM (polynomial \<open>0x1021\<close>, initial
  value 0) of the bytes.\<close>

theorem crc16_correct: "crc16 buf = crc_xmodem buf"
  by (rule crc16_xmodem)

text \<open>C28: The slot of a key is the low 14 bits of the checksum of its hash tag; it is below 16384,
  and keys of the form \<open>a{t}b\<close> with the same non-empty tag share it.\<close>

theorem keyHashSlot_correct:
  assumes "123 \<notin> set a" "t \<noteq> []" "125 \<notin> set t"
  shows "keyHashSlot key = unat (crc_xmodem (hashtag key) AND 0x3FFF) \<and> keyHashSlot key < 16384
    \<and> keyHashSlot (a @ [123] @ t @ [125] @ b) = unat (crc_xmodem t AND 0x3FFF)"
  using assms slot_of_less
  by (simp add: keyHashSlot_hashtag hashtag_closed) (simp add: slot_of_def crc16_xmodem)

theorem keyHashSlot_correct_witness:
  "keyHashSlot [123, 97, 125, 49] = keyHashSlot [120, 123, 97, 125, 50] \<and> keyHashSlot [123, 97, 125, 49] < 16384"
  using keyHashSlot_correct [of "[]" "[97]" "[123, 97, 125, 49]" "[49]"]
    keyHashSlot_correct [of "[120]" "[97]" "[]" "[50]"] by simp

text \<open>C26: When \<open>patternHashSlot\<close> names a slot, every key the matcher accepts for the pattern lies in
  that slot.\<close>

theorem patternHashSlot_sound:
  assumes "patternHashSlot p \<noteq> -1" "stringmatchlen p key False"
  shows "int (keyHashSlot key) = patternHashSlot p"
  using slot_found_match [OF patternHashSlot_found [OF assms(1)] stringmatchlen_sound [OF assms(2)]]
  by (simp add: keyHashSlot_hashtag)

text \<open>The pattern \<open>{ab}*\<close> and the key \<open>{ab}c\<close>.\<close>

theorem patternHashSlot_sound_witness:
  "patternHashSlot [123, 97, 98, 125, 42] \<noteq> -1 \<and>
   int (keyHashSlot [123, 97, 98, 125, 99]) = patternHashSlot [123, 97, 98, 125, 42]"
proof -
  have "0 \<le> patternHashSlot [123, 97, 98, 125, 42]"
    by (simp add: patternHashSlot_def patternHashSlot_loop.simps)
  then have "patternHashSlot [123, 97, 98, 125, 42] \<noteq> -1" by linarith
  moreover have "stringmatchlen [123, 97, 98, 125, 42] [123, 97, 98, 125, 99] False" by code_simp
  ultimately show ?thesis using patternHashSlot_sound by blast
qed

end
