(* ===== verification/Listpack.thy ===== *)
theory Listpack
  imports Numstr
begin

text \<open>
  Listpacks, \<open>src/src/listpack.c\<close>: a sequence of strings and integers serialised into one block of
  memory, \<open><total bytes: 4> <number of elements: 2> <entry> ... <entry> <EOF>\<close>; an entry
  is its encoding followed by the length of the encoding, written so that it can be read backwards.
  This theory holds the operations.

  A listpack is the list of the bytes of its allocation, which may be longer than the
  listpack. A pointer into it is its offset; pointer arithmetic is modulo \<open>2^32\<close> as on
  wasm32, where \<open>unsigned long\<close> and \<open>size_t\<close> have 32 bits as well. A read outside the
  allocation is the error \<open>LP_OOB\<close>, a failed \<open>assert\<close> is \<open>LP_ASSERT\<close>, a
  NULL result of an insertion \<open>LP_NULL\<close>. The loops over the entries get as many steps as the
  listpack has bytes. The current offset is all that decides how such a loop goes on, so a loop that
  uses up its steps has met an offset twice and never ends: that is \<open>LP_LOOP\<close>. (The loop of
  \<open>lpFind\<close> also depends on its skip counter; its bound is one that no scan that advances
  reaches.)

  The range checks of \<open>lpValidateNext\<close> and \<open>ASSERT_INTEGRITY\<close> look at both ends, so on a
  wrapped pointer they say the same for every address of the block. Those of
  \<open>ASSERT_INTEGRITY_LEN\<close> and \<open>lpFind\<close> look at the upper end only; the model has them fail
  when the sum exceeds the address space.

  The allocator is an argument: \<open>al_usable\<close> gives the usable size of an allocation,
  \<open>al_junk\<close> the bytes it comes with.
\<close>

section \<open>Results, memory access\<close>

datatype lp_error = LP_OOB | LP_ASSERT | LP_NULL | LP_LOOP

type_synonym 'a lp_res = "lp_error + 'a"

definition lp_assert :: "bool \<Rightarrow> unit lp_res" where
  "lp_assert b = (if b then Inr () else Inl LP_ASSERT)"

lemma lp_assert_simps [simp]: "lp_assert True = Inr ()" "lp_assert False = Inl LP_ASSERT"
  by (simp_all add: lp_assert_def)

definition rd :: "bytes \<Rightarrow> nat \<Rightarrow> byte lp_res" where
  "rd lp p = (if p < length lp then Inr (lp ! p) else Inl LP_OOB)"

text \<open>A range of bytes, for \<open>memcmp\<close>.\<close>

definition rd_range :: "bytes \<Rightarrow> nat \<Rightarrow> nat \<Rightarrow> bytes lp_res" where
  "rd_range lp p n = (if p + n \<le> length lp then Inr (mem_read lp p n) else Inl LP_OOB)"

record allocator =
  al_usable :: "nat \<Rightarrow> nat"
  al_junk :: "nat \<Rightarrow> byte"

text \<open>What the allocator promises: at least the size asked for.\<close>

definition alloc_ok :: "allocator \<Rightarrow> bool" where
  "alloc_ok al \<longleftrightarrow> (\<forall>n. n \<le> al_usable al n)"

definition lp_malloc :: "allocator \<Rightarrow> nat \<Rightarrow> bytes" where
  "lp_malloc al n = map (al_junk al) [0..<al_usable al n]"

definition lp_realloc :: "allocator \<Rightarrow> bytes \<Rightarrow> nat \<Rightarrow> bytes" where
  "lp_realloc al m n = mem_realloc (al_junk al) m (al_usable al n)"

abbreviation (input) lp_malloc_size :: "bytes \<Rightarrow> nat" where
  "lp_malloc_size m \<equiv> length m"

section \<open>Constants, header fields and encoding bytes\<close>

abbreviation (input) LP_HDR_SIZE :: nat where "LP_HDR_SIZE \<equiv> 6"
abbreviation (input) LP_HDR_NUMELE_UNKNOWN :: nat where "LP_HDR_NUMELE_UNKNOWN \<equiv> UINT16_MAX"
abbreviation (input) LP_EOF :: byte where "LP_EOF \<equiv> 0xFF"

definition lp_is_7bit_uint :: "byte \<Rightarrow> bool" where "lp_is_7bit_uint b \<longleftrightarrow> b AND 0x80 = 0"
definition lp_is_6bit_str :: "byte \<Rightarrow> bool" where "lp_is_6bit_str b \<longleftrightarrow> b AND 0xC0 = 0x80"
definition lp_is_13bit_int :: "byte \<Rightarrow> bool" where "lp_is_13bit_int b \<longleftrightarrow> b AND 0xE0 = 0xC0"
definition lp_is_12bit_str :: "byte \<Rightarrow> bool" where "lp_is_12bit_str b \<longleftrightarrow> b AND 0xF0 = 0xE0"
definition lp_is_16bit_int :: "byte \<Rightarrow> bool" where "lp_is_16bit_int b \<longleftrightarrow> b = 0xF1"
definition lp_is_24bit_int :: "byte \<Rightarrow> bool" where "lp_is_24bit_int b \<longleftrightarrow> b = 0xF2"
definition lp_is_32bit_int :: "byte \<Rightarrow> bool" where "lp_is_32bit_int b \<longleftrightarrow> b = 0xF3"
definition lp_is_64bit_int :: "byte \<Rightarrow> bool" where "lp_is_64bit_int b \<longleftrightarrow> b = 0xF4"
definition lp_is_32bit_str :: "byte \<Rightarrow> bool" where "lp_is_32bit_str b \<longleftrightarrow> b = 0xF0"

text \<open>Little-endian fields of the header and of encodings, read byte by byte.\<close>

definition rd_le :: "bytes \<Rightarrow> nat \<Rightarrow> nat \<Rightarrow> nat lp_res" where
  "rd_le lp p n = rbind (rd_range lp p n) (\<lambda>bs. Inr (nat (le_uint bs)))"

definition lpGetTotalBytes :: "bytes \<Rightarrow> nat lp_res" where
  "lpGetTotalBytes lp = rd_le lp 0 4"

definition lpGetNumElements :: "bytes \<Rightarrow> nat lp_res" where
  "lpGetNumElements lp = rd_le lp 4 2"

definition lpSetTotalBytes :: "bytes \<Rightarrow> nat \<Rightarrow> bytes" where
  "lpSetTotalBytes lp v = mem_write lp 0 (le_bytes 4 (int v))"

definition lpSetNumElements :: "bytes \<Rightarrow> int \<Rightarrow> bytes" where
  "lpSetNumElements lp v = mem_write lp 4 (le_bytes 2 v)"

definition lpBytes :: "bytes \<Rightarrow> nat lp_res" where
  "lpBytes lp = lpGetTotalBytes lp"

definition lpSafeToAdd :: "bytes option \<Rightarrow> nat \<Rightarrow> bool lp_res" where
  "lpSafeToAdd lp add =
     rbind (case lp of None \<Rightarrow> Inr 0 | Some lp \<Rightarrow> lpGetTotalBytes lp)
       (\<lambda>len. Inr (\<not> 2 ^ 30 < (len + add) mod 2 ^ 32))"

definition lpNew :: "allocator \<Rightarrow> nat \<Rightarrow> bytes" where
  "lpNew al capacity =
     (let lp = lp_malloc al (if LP_HDR_SIZE + 1 < capacity then capacity else LP_HDR_SIZE + 1);
          lp = lpSetTotalBytes lp (LP_HDR_SIZE + 1);
          lp = lpSetNumElements lp 0
      in mem_write lp LP_HDR_SIZE [LP_EOF])"

definition lpShrinkToFit :: "allocator \<Rightarrow> bytes \<Rightarrow> bytes lp_res" where
  "lpShrinkToFit al lp =
     rbind (lpGetTotalBytes lp) (\<lambda>sz. Inr (if sz < lp_malloc_size lp then lp_realloc al lp sz else lp))"

section \<open>Encoding\<close>

text \<open>The bytes stored in \<open>intenc\<close>; their number is \<open>enclen\<close>.\<close>

definition lpEncodeIntegerGetType :: "int \<Rightarrow> bytes" where
  "lpEncodeIntegerGetType v =
     (if 0 \<le> v \<and> v \<le> 127 then [word_of_int v]
      else if -4096 \<le> v \<and> v \<le> 4095 then
        let v = (if v < 0 then 2 ^ 13 + v else v)
        in [word_of_int (v div 256) OR 0xC0, word_of_int v]
      else if -32768 \<le> v \<and> v \<le> 32767 then
        0xF1 # le_bytes 2 (if v < 0 then 2 ^ 16 + v else v)
      else if -8388608 \<le> v \<and> v \<le> 8388607 then
        0xF2 # le_bytes 3 (if v < 0 then 2 ^ 24 + v else v)
      else if -2147483648 \<le> v \<and> v \<le> 2147483647 then
        0xF3 # le_bytes 4 (if v < 0 then 2 ^ 32 + v else v)
      else 0xF4 # le_bytes 8 (v mod 2 ^ 64))"

text \<open>The integer encoding when there is one, and the length of the encoded element.\<close>

definition lpEncodeGetType :: "bytes \<Rightarrow> bytes option \<times> nat" where
  "lpEncodeGetType ele =
     (case string2ll ele of
        Some v \<Rightarrow> (Some (lpEncodeIntegerGetType v), length (lpEncodeIntegerGetType v))
      | None \<Rightarrow>
          (None, if length ele < 64 then 1 + length ele
                 else if length ele < 4096 then 2 + length ele else 5 + length ele))"

definition lpEncodeBacklen :: "nat \<Rightarrow> bytes" where
  "lpEncodeBacklen l =
     (if l \<le> 127 then [of_nat l]
      else if l \<le> 16383 then [of_nat (l div 2 ^ 7), of_nat (l mod 128) OR 128]
      else if l \<le> 2097151 then
        [of_nat (l div 2 ^ 14), of_nat (l div 2 ^ 7 mod 128) OR 128, of_nat (l mod 128) OR 128]
      else if l \<le> 268435455 then
        [of_nat (l div 2 ^ 21), of_nat (l div 2 ^ 14 mod 128) OR 128,
         of_nat (l div 2 ^ 7 mod 128) OR 128, of_nat (l mod 128) OR 128]
      else
        [of_nat (l div 2 ^ 28), of_nat (l div 2 ^ 21 mod 128) OR 128, of_nat (l div 2 ^ 14 mod 128) OR 128,
         of_nat (l div 2 ^ 7 mod 128) OR 128, of_nat (l mod 128) OR 128])"

text \<open>The number of bytes alone, as the calls with \<open>buf == NULL\<close> ask for it.\<close>

definition lpEncodeBacklen_size :: "nat \<Rightarrow> nat" where
  "lpEncodeBacklen_size l =
     (if l \<le> 127 then 1 else if l \<le> 16383 then 2 else if l \<le> 2097151 then 3
      else if l \<le> 268435455 then 4 else 5)"

function lpDecodeBacklen_loop :: "bytes \<Rightarrow> nat \<Rightarrow> nat \<Rightarrow> nat \<Rightarrow> nat lp_res" where
  "lpDecodeBacklen_loop lp p val shift =
     rbind (rd lp p) (\<lambda>b.
       let val = val OR push_bit shift (unat (b AND 127)) in
       if b AND 128 = 0 then Inr val
       else
         let shift = shift + 7 in
         if 28 < shift then Inr ULLONG_MAX
         else if p = 0 then Inl LP_OOB
         else lpDecodeBacklen_loop lp (p - 1) val shift)"
  by pat_completeness auto
termination
  by (relation "measure (\<lambda>(lp, p, val, shift). 35 - shift)") auto

declare lpDecodeBacklen_loop.simps [simp del]

definition lpDecodeBacklen :: "bytes \<Rightarrow> nat \<Rightarrow> nat lp_res" where
  "lpDecodeBacklen lp p = lpDecodeBacklen_loop lp p 0 0"

definition lpEncodeString :: "bytes \<Rightarrow> bytes" where
  "lpEncodeString s =
     (if length s < 64 then (of_nat (length s) OR 0x80) # s
      else if length s < 4096 then
        [of_nat (length s div 256) OR 0xE0, of_nat (length s)] @ s
      else 0xF0 # le_bytes 4 (int (length s)) @ s)"

definition lpCurrentEncodedSizeUnsafe :: "bytes \<Rightarrow> nat \<Rightarrow> nat lp_res" where
  "lpCurrentEncodedSizeUnsafe lp p = rbind (rd lp p) (\<lambda>b.
     if lp_is_7bit_uint b then Inr 1
     else if lp_is_6bit_str b then Inr (1 + unat (b AND 0x3F))
     else if lp_is_13bit_int b then Inr 2
     else if lp_is_16bit_int b then Inr 3
     else if lp_is_24bit_int b then Inr 4
     else if lp_is_32bit_int b then Inr 5
     else if lp_is_64bit_int b then Inr 9
     else if lp_is_12bit_str b then
       rbind (rd lp (p + 1)) (\<lambda>b1. Inr (2 + (unat (b AND 0xF) * 256 + unat b1)))
     else if lp_is_32bit_str b then
       rbind (rd_le lp (p + 1) 4) (\<lambda>len. Inr ((5 + len) mod 2 ^ 32))
     else if b = LP_EOF then Inr 1
     else Inr 0)"

definition lpCurrentEncodedSizeBytes :: "bytes \<Rightarrow> nat \<Rightarrow> nat lp_res" where
  "lpCurrentEncodedSizeBytes lp p = rbind (rd lp p) (\<lambda>b.
     if lp_is_7bit_uint b then Inr 1
     else if lp_is_6bit_str b then Inr 1
     else if lp_is_13bit_int b then Inr 1
     else if lp_is_16bit_int b then Inr 1
     else if lp_is_24bit_int b then Inr 1
     else if lp_is_32bit_int b then Inr 1
     else if lp_is_64bit_int b then Inr 1
     else if lp_is_12bit_str b then Inr 2
     else if lp_is_32bit_str b then Inr 5
     else if b = LP_EOF then Inr 1
     else Inr 0)"

section \<open>Validation of an entry\<close>

text \<open>The result is the flag and the advanced pointer; \<open>None\<close> is NULL. The entry length is an
  \<open>unsigned long\<close>.\<close>

definition out_of_range :: "nat \<Rightarrow> nat \<Rightarrow> bool" where
  "out_of_range lpbytes p \<longleftrightarrow> p < LP_HDR_SIZE \<or> lpbytes < p + 1"

definition lp_entrylen :: "bytes \<Rightarrow> nat \<Rightarrow> nat lp_res" where
  "lp_entrylen lp p = rbind (lpCurrentEncodedSizeUnsafe lp p)
     (\<lambda>n. Inr ((n + lpEncodeBacklen_size n) mod 2 ^ 32))"

definition lpValidateNext :: "bytes \<Rightarrow> nat option \<Rightarrow> nat \<Rightarrow> (bool \<times> nat option) lp_res" where
  "lpValidateNext lp pp lpbytes = (case pp of
     None \<Rightarrow> Inr (False, pp)
   | Some p \<Rightarrow>
     if out_of_range lpbytes p then Inr (False, pp)
     else rbind (rd lp p) (\<lambda>b.
       if b = LP_EOF then
         (if p + 1 \<noteq> lpbytes then Inr (False, pp) else Inr (True, None))
       else rbind (lpCurrentEncodedSizeBytes lp p) (\<lambda>lenbytes.
         if lenbytes = 0 then Inr (False, pp)
         else if out_of_range lpbytes ((p + lenbytes) mod 2 ^ 32) then Inr (False, pp)
         else rbind (lpCurrentEncodedSizeUnsafe lp p) (\<lambda>n.
           let encodedBacklen = lpEncodeBacklen_size n;
               entrylen = (n + encodedBacklen) mod 2 ^ 32;
               q = (p + entrylen) mod 2 ^ 32
           in if out_of_range lpbytes q then Inr (False, pp)
              else rbind (lpDecodeBacklen lp (q - 1)) (\<lambda>prevlen.
                if (prevlen + encodedBacklen) mod 2 ^ 64 \<noteq> entrylen then Inr (False, pp)
                else Inr (True, Some q))))))"

definition lpAssertValidEntry :: "bytes \<Rightarrow> nat \<Rightarrow> nat \<Rightarrow> unit lp_res" where
  "lpAssertValidEntry lp lpbytes p =
     rbind (lpValidateNext lp (Some p) lpbytes) (\<lambda>(ok, _). lp_assert ok)"

section \<open>Traversal\<close>

definition lpSkip :: "bytes \<Rightarrow> nat \<Rightarrow> nat lp_res" where
  "lpSkip lp p = rbind (lp_entrylen lp p) (\<lambda>entrylen. Inr ((p + entrylen) mod 2 ^ 32))"

text \<open>The end of \<open>lpNext\<close> and \<open>lpFirst\<close>.\<close>

definition lp_at :: "bytes \<Rightarrow> nat \<Rightarrow> nat option lp_res" where
  "lp_at lp p = rbind (lpBytes lp) (\<lambda>bytes. rbind (rd lp p) (\<lambda>b.
     if b = LP_EOF then rbind (lp_assert (p + 1 = bytes)) (\<lambda>_. Inr None)
     else rbind (lpAssertValidEntry lp bytes p) (\<lambda>_. Inr (Some p))))"

definition lpNext :: "bytes \<Rightarrow> nat \<Rightarrow> nat option lp_res" where
  "lpNext lp p = rbind (lpSkip lp p) (\<lambda>q. lp_at lp q)"

definition lpFirst :: "bytes \<Rightarrow> nat option lp_res" where
  "lpFirst lp = lp_at lp LP_HDR_SIZE"

text \<open>\<open>p - (prevlen - 1)\<close> is taken modulo \<open>2^32\<close> too.\<close>

definition lpPrev :: "bytes \<Rightarrow> nat \<Rightarrow> nat option lp_res" where
  "lpPrev lp p =
     (if p = LP_HDR_SIZE then Inr None
      else if p = 0 then Inl LP_OOB
      else rbind (lpDecodeBacklen lp (p - 1)) (\<lambda>prevlen.
        let prevlen = (prevlen + lpEncodeBacklen_size prevlen) mod 2 ^ 64;
            q = nat ((int p - 1 - (int prevlen - 1)) mod 2 ^ 32)
        in rbind (lpBytes lp) (\<lambda>bytes. rbind (lpAssertValidEntry lp bytes q) (\<lambda>_. Inr (Some q)))))"

definition lpLast :: "bytes \<Rightarrow> nat option lp_res" where
  "lpLast lp = rbind (lpGetTotalBytes lp) (\<lambda>n. lpPrev lp (n - 1))"

text \<open>The scan of \<open>lpLength\<close>, and the length with the listpack, whose header it may update.\<close>

fun lpLength_loop :: "nat \<Rightarrow> bytes \<Rightarrow> nat option \<Rightarrow> nat \<Rightarrow> nat lp_res" where
  "lpLength_loop n lp None count = Inr count"
| "lpLength_loop 0 lp (Some p) count = Inl LP_LOOP"
| "lpLength_loop (Suc n) lp (Some p) count =
     rbind (lpNext lp p) (\<lambda>q. lpLength_loop n lp q ((count + 1) mod 2 ^ 32))"

definition lpLength :: "bytes \<Rightarrow> (nat \<times> bytes) lp_res" where
  "lpLength lp = rbind (lpGetNumElements lp) (\<lambda>numele.
     if numele \<noteq> LP_HDR_NUMELE_UNKNOWN then Inr (numele, lp)
     else rbind (lpFirst lp) (\<lambda>p. rbind (lpLength_loop (length lp) lp p 0) (\<lambda>count.
       Inr (count, if count < LP_HDR_NUMELE_UNKNOWN then lpSetNumElements lp (int count) else lp))))"

section \<open>Reading elements\<close>

text \<open>An element is a string inside the listpack (offset and length) or an integer.\<close>

datatype lp_elem = LP_STR nat nat | LP_INT int

text \<open>From the unsigned value to the signed one.\<close>

definition lp_signed :: "nat \<Rightarrow> nat \<Rightarrow> nat \<Rightarrow> int" where
  "lp_signed uval negstart negmax =
     (if negstart \<le> uval then - int (negmax - uval) - 1 else int uval)"

text \<open>The second component is \<open>entry_size\<close>; the branch for an unknown encoding does not set
  it.\<close>

definition lpGetWithSize :: "bytes \<Rightarrow> nat \<Rightarrow> (lp_elem \<times> nat option) lp_res" where
  "lpGetWithSize lp p = rbind (rd lp p) (\<lambda>b.
     if lp_is_7bit_uint b then
       Inr (LP_INT (lp_signed (unat (b AND 0x7f)) ULLONG_MAX 0), Some 2)
     else if lp_is_6bit_str b then
       let count = unat (b AND 0x3F)
       in Inr (LP_STR (p + 1) count, Some (1 + count + lpEncodeBacklen_size (count + 1)))
     else if lp_is_13bit_int b then
       rbind (rd lp (p + 1)) (\<lambda>b1.
         Inr (LP_INT (lp_signed (unat (b AND 0x1f) * 256 + unat b1) (2 ^ 12) 8191), Some 3))
     else if lp_is_16bit_int b then
       rbind (rd_le lp (p + 1) 2) (\<lambda>u. Inr (LP_INT (lp_signed u (2 ^ 15) UINT16_MAX), Some 4))
     else if lp_is_24bit_int b then
       rbind (rd_le lp (p + 1) 3) (\<lambda>u. Inr (LP_INT (lp_signed u (2 ^ 23) (UINT32_MAX div 256)), Some 5))
     else if lp_is_32bit_int b then
       rbind (rd_le lp (p + 1) 4) (\<lambda>u. Inr (LP_INT (lp_signed u (2 ^ 31) UINT32_MAX), Some 6))
     else if lp_is_64bit_int b then
       rbind (rd_le lp (p + 1) 8) (\<lambda>u. Inr (LP_INT (lp_signed u (2 ^ 63) ULLONG_MAX), Some 10))
     else if lp_is_12bit_str b then
       rbind (rd lp (p + 1)) (\<lambda>b1.
         let count = unat (b AND 0xF) * 256 + unat b1
         in Inr (LP_STR (p + 2) count, Some (2 + count + lpEncodeBacklen_size (count + 2))))
     else if lp_is_32bit_str b then
       rbind (rd_le lp (p + 1) 4) (\<lambda>count.
         Inr (LP_STR (p + 5) count, Some (5 + count + lpEncodeBacklen_size (count + 5))))
     else Inr (LP_INT (lp_signed (12345678900000000 + unat b) ULLONG_MAX 0), None))"

text \<open>\<open>lpGet\<close> without and with a buffer for the text of an integer; the second returns the bytes of
  the element.\<close>

definition lpGet :: "bytes \<Rightarrow> nat \<Rightarrow> lp_elem lp_res" where
  "lpGet lp p = rbind (lpGetWithSize lp p) (\<lambda>(e, _). Inr e)"

definition lpGet_intbuf :: "bytes \<Rightarrow> nat \<Rightarrow> bytes \<Rightarrow> bytes lp_res" where
  "lpGet_intbuf lp p intbuf = rbind (lpGet lp p) (\<lambda>e. case e of
     LP_STR q n \<Rightarrow> rd_range lp q n
   | LP_INT v \<Rightarrow> Inr (ll2string_text intbuf v))"

text \<open>\<open>slen\<close> is an \<open>unsigned int\<close>.\<close>

definition lpGetValue :: "bytes \<Rightarrow> nat \<Rightarrow> lp_elem lp_res" where
  "lpGetValue lp p = rbind (lpGet lp p) (\<lambda>e. case e of
     LP_STR q n \<Rightarrow> Inr (LP_STR q (n mod 2 ^ 32))
   | LP_INT v \<Rightarrow> Inr (LP_INT v))"

definition lpCompare :: "bytes \<Rightarrow> nat \<Rightarrow> bytes \<Rightarrow> bool lp_res" where
  "lpCompare lp p s = rbind (rd lp p) (\<lambda>b.
     if b = LP_EOF then Inr False
     else rbind (lpGet lp p) (\<lambda>e. case e of
       LP_STR q n \<Rightarrow>
         if length s = n then rbind (rd_range lp q n) (\<lambda>bs. Inr (bs = s)) else Inr False
     | LP_INT sz \<Rightarrow> (case string2ll s of Some sval \<Rightarrow> Inr (sz = sval) | None \<Rightarrow> Inr False)))"

text \<open>\<open>vencoding\<close> of \<open>lpFind\<close>: not tried yet, not a number, or the number.\<close>

datatype vencoding = V_UNTRIED | V_NONE | V_INT int

definition lpFind_enc :: "bytes \<Rightarrow> vencoding \<Rightarrow> vencoding" where
  "lpFind_enc s venc = (case venc of
     V_UNTRIED \<Rightarrow> if 32 \<le> length s \<or> length s = 0 then V_NONE
       else (case string2ll s of None \<Rightarrow> V_NONE | Some v \<Rightarrow> V_INT v)
   | _ \<Rightarrow> venc)"

text \<open>One comparison: the flag, the \<open>vencoding\<close> and the \<open>entry_size\<close> after it.\<close>

definition lpFind_cmp :: "bytes \<Rightarrow> nat \<Rightarrow> nat \<Rightarrow> bytes \<Rightarrow> vencoding \<Rightarrow> nat \<Rightarrow> (bool \<times> vencoding \<times> nat) lp_res" where
  "lpFind_cmp lp lp_bytes p s venc entry_size =
     rbind (lpGetWithSize lp p) (\<lambda>(e, es).
       let entry_size = (case es of Some n \<Rightarrow> n | None \<Rightarrow> entry_size) in
       case e of
         LP_STR q n \<Rightarrow>
           rbind (lp_assert (LP_HDR_SIZE \<le> p \<and> p + entry_size < lp_bytes)) (\<lambda>_.
             if length s = n
             then rbind (rd_range lp q n) (\<lambda>bs. Inr (bs = s, venc, entry_size))
             else Inr (False, venc, entry_size))
       | LP_INT ll \<Rightarrow>
           let venc = lpFind_enc s venc in
           Inr ((case venc of V_INT vll \<Rightarrow> ll = vll | _ \<Rightarrow> False), venc, entry_size))"

text \<open>\<open>skipcnt\<close> is an \<open>int\<close> in the code; a natural number here, which is the same for every
  \<open>skip\<close> below \<open>2^31\<close> (the callers pass 0 or 1).\<close>

fun lpFind_loop :: "nat \<Rightarrow> bytes \<Rightarrow> nat \<Rightarrow> nat \<Rightarrow> bytes \<Rightarrow> nat \<Rightarrow> nat \<Rightarrow> vencoding \<Rightarrow> nat \<Rightarrow> nat option lp_res" where
  "lpFind_loop 0 lp lp_bytes p s skip skipcnt venc entry_size = Inl LP_LOOP"
| "lpFind_loop (Suc n) lp lp_bytes p s skip skipcnt venc entry_size =
     rbind (if skipcnt = 0
            then rbind (lpFind_cmp lp lp_bytes p s venc entry_size) (\<lambda>(found, venc, entry_size).
              Inr (found, skip, venc, entry_size, (p + entry_size) mod 2 ^ 32))
            else rbind (lpSkip lp p) (\<lambda>q. Inr (False, skipcnt - 1, venc, entry_size, q)))
       (\<lambda>(found, skipcnt, venc, entry_size, q).
         if found then Inr (Some p)
         else rbind (if lp_bytes \<le> q + 8 then lpAssertValidEntry lp lp_bytes q
                     else lp_assert (LP_HDR_SIZE \<le> q \<and> q < lp_bytes)) (\<lambda>_.
           rbind (rd lp q) (\<lambda>b.
             if b = LP_EOF then rbind (lp_assert (q + 1 = lp_bytes)) (\<lambda>_. Inr None)
             else lpFind_loop n lp lp_bytes q s skip skipcnt venc entry_size)))"

definition lpFind :: "bytes \<Rightarrow> nat \<Rightarrow> bytes \<Rightarrow> nat \<Rightarrow> nat option lp_res" where
  "lpFind lp p s skip = rbind (lpBytes lp) (\<lambda>lp_bytes.
     lpFind_loop (length lp * (skip + 1)) lp lp_bytes p s skip 0 V_UNTRIED 123456789)"

text \<open>Loops of \<open>lpSeek\<close>.\<close>

fun lpSeek_forward :: "bytes \<Rightarrow> nat \<Rightarrow> nat option \<Rightarrow> nat option lp_res" where
  "lpSeek_forward lp index None = Inr None"
| "lpSeek_forward lp 0 (Some p) = Inr (Some p)"
| "lpSeek_forward lp (Suc index) (Some p) = rbind (lpNext lp p) (\<lambda>q. lpSeek_forward lp index q)"

fun lpSeek_backward :: "bytes \<Rightarrow> nat \<Rightarrow> nat option \<Rightarrow> nat option lp_res" where
  "lpSeek_backward lp index None = Inr None"
| "lpSeek_backward lp 0 (Some p) = Inr (Some p)"
| "lpSeek_backward lp (Suc index) (Some p) = rbind (lpPrev lp p) (\<lambda>q. lpSeek_backward lp index q)"

text \<open>\<open>index\<close> is a \<open>long\<close>; the loops count it towards 0 and towards -1.\<close>

definition lpSeek :: "bytes \<Rightarrow> int \<Rightarrow> nat option lp_res" where
  "lpSeek lp index = rbind (lpGetNumElements lp) (\<lambda>numele.
     let fwd = (\<lambda>i. rbind (lpFirst lp) (\<lambda>p. lpSeek_forward lp (nat i) p));
         bwd = (\<lambda>i. rbind (lpLast lp) (\<lambda>p. lpSeek_backward lp (nat (-1 - i)) p))
     in if numele \<noteq> LP_HDR_NUMELE_UNKNOWN then
          let index = (if index < 0 then int numele + index else index) in
          if index < 0 then Inr None
          else if int numele \<le> index then Inr None
          else if int numele div 2 < index then bwd (index - int numele)
          else fwd index
        else if index < 0 then bwd index else fwd index)"

section \<open>Insertion, replacement, deletion\<close>

definition wr :: "bytes \<Rightarrow> nat \<Rightarrow> bytes \<Rightarrow> bytes lp_res" where
  "wr lp p bs = (if p + length bs \<le> length lp then Inr (mem_write lp p bs) else Inl LP_OOB)"

definition wr_move :: "bytes \<Rightarrow> nat \<Rightarrow> nat \<Rightarrow> nat \<Rightarrow> bytes lp_res" where
  "wr_move lp dst src n =
     (if dst + n \<le> length lp \<and> src + n \<le> length lp then Inr (mem_move lp dst src n) else Inl LP_OOB)"

datatype lp_where = LP_BEFORE | LP_AFTER | LP_REPLACE

text \<open>\<open>elestr\<close>, \<open>eleint\<close> (the encoded integer), or both NULL.\<close>

datatype lp_arg = ELE_STR bytes | ELE_INT bytes | ELE_NULL

text \<open>The encoded element.\<close>

definition lp_arg_enc :: "lp_arg \<Rightarrow> bytes" where
  "lp_arg_enc ele = (case ele of
     ELE_STR s \<Rightarrow> (case fst (lpEncodeGetType s) of Some intenc \<Rightarrow> intenc | None \<Rightarrow> lpEncodeString s)
   | ELE_INT intenc \<Rightarrow> intenc
   | ELE_NULL \<Rightarrow> [])"

definition lp_arg_enclen :: "lp_arg \<Rightarrow> nat" where
  "lp_arg_enclen ele = (case ele of
     ELE_STR s \<Rightarrow> snd (lpEncodeGetType s)
   | ELE_INT intenc \<Rightarrow> length intenc
   | ELE_NULL \<Rightarrow> 0)"

text \<open>\<open>lpInsert\<close> up to the point where \<open>p\<close> and \<open>where\<close> are settled and the length of
  the replaced entry is known.\<close>

definition lpInsert_where :: "bytes \<Rightarrow> bool \<Rightarrow> nat \<Rightarrow> lp_where \<Rightarrow> (nat \<times> bool) lp_res" where
  "lpInsert_where lp del_ele p wh =
     (let wh = (if del_ele then LP_REPLACE else wh) in
      if wh = LP_AFTER then
        rbind (lpSkip lp p) (\<lambda>p. rbind (lpGetTotalBytes lp) (\<lambda>n.
          rbind (lp_assert (LP_HDR_SIZE \<le> p \<and> p < n)) (\<lambda>_. Inr (p, False))))
      else Inr (p, wh = LP_REPLACE))"

definition lpInsert_replaced :: "bytes \<Rightarrow> nat \<Rightarrow> bool \<Rightarrow> nat \<Rightarrow> nat lp_res" where
  "lpInsert_replaced lp p replace old_listpack_bytes =
     (if replace then
        rbind (lp_entrylen lp p) (\<lambda>replaced_len.
          rbind (lp_assert (LP_HDR_SIZE \<le> p \<and> p + replaced_len < old_listpack_bytes)) (\<lambda>_.
            Inr replaced_len))
      else Inr 0)"

text \<open>The room for the new entry: reallocation before, \<open>memmove\<close>, reallocation after.\<close>

definition lpInsert_room :: "allocator \<Rightarrow> bytes \<Rightarrow> nat \<Rightarrow> nat \<Rightarrow> nat \<Rightarrow> nat \<Rightarrow> nat \<Rightarrow> bytes lp_res" where
  "lpInsert_room al lp poff len replaced_len old_listpack_bytes new_listpack_bytes =
     (let lp = (if old_listpack_bytes < new_listpack_bytes \<and> lp_malloc_size lp < new_listpack_bytes
                then lp_realloc al lp new_listpack_bytes else lp)
      in if old_listpack_bytes < poff + replaced_len then Inl LP_OOB
         else rbind (wr_move lp (poff + len) (poff + replaced_len) (old_listpack_bytes - poff - replaced_len)) (\<lambda>lp.
           Inr (if new_listpack_bytes < old_listpack_bytes then lp_realloc al lp new_listpack_bytes else lp)))"

definition lpInsert_count :: "bytes \<Rightarrow> bool \<Rightarrow> bool \<Rightarrow> bytes lp_res" where
  "lpInsert_count lp replace del_ele =
     (if \<not> replace \<or> del_ele then
        rbind (lpGetNumElements lp) (\<lambda>num_elements.
          Inr (if num_elements \<noteq> LP_HDR_NUMELE_UNKNOWN
               then lpSetNumElements lp (if \<not> del_ele then int num_elements + 1 else int num_elements - 1)
               else lp))
      else Inr lp)"

text \<open>The new listpack and \<open>newp\<close>.\<close>

definition lpInsert :: "allocator \<Rightarrow> bytes \<Rightarrow> lp_arg \<Rightarrow> nat \<Rightarrow> lp_where \<Rightarrow> (bytes \<times> nat option) lp_res" where
  "lpInsert al lp ele p wh =
     (let del_ele = (ele = ELE_NULL) in
      rbind (lpInsert_where lp del_ele p wh) (\<lambda>(poff, replace).
      let enclen = lp_arg_enclen ele;
          backlen = (if \<not> del_ele then lpEncodeBacklen enclen else [])
      in rbind (lpGetTotalBytes lp) (\<lambda>old_listpack_bytes.
         rbind (lpInsert_replaced lp poff replace old_listpack_bytes) (\<lambda>replaced_len.
         let new_listpack_bytes = old_listpack_bytes + enclen + length backlen - replaced_len in
         if UINT32_MAX < new_listpack_bytes then Inl LP_NULL
         else
           rbind (lpInsert_room al lp poff (enclen + length backlen) replaced_len
             old_listpack_bytes new_listpack_bytes) (\<lambda>lp.
           rbind (rd lp poff) (\<lambda>b.
           let newp = (if del_ele \<and> b = LP_EOF then None else Some poff) in
           rbind (if \<not> del_ele
                  then rbind (wr lp poff (lp_arg_enc ele)) (\<lambda>lp. wr lp (poff + enclen) backlen)
                  else Inr lp) (\<lambda>lp.
           rbind (lpInsert_count lp replace del_ele) (\<lambda>lp.
             Inr (lpSetTotalBytes lp new_listpack_bytes, newp)))))))))"

definition lpInsertString :: "allocator \<Rightarrow> bytes \<Rightarrow> bytes \<Rightarrow> nat \<Rightarrow> lp_where \<Rightarrow> (bytes \<times> nat option) lp_res" where
  "lpInsertString al lp s p wh = lpInsert al lp (ELE_STR s) p wh"

definition lpInsertInteger :: "allocator \<Rightarrow> bytes \<Rightarrow> int \<Rightarrow> nat \<Rightarrow> lp_where \<Rightarrow> (bytes \<times> nat option) lp_res" where
  "lpInsertInteger al lp lval p wh = lpInsert al lp (ELE_INT (lpEncodeIntegerGetType lval)) p wh"

definition lpAppend :: "allocator \<Rightarrow> bytes \<Rightarrow> bytes \<Rightarrow> bytes lp_res" where
  "lpAppend al lp ele = rbind (lpGetTotalBytes lp) (\<lambda>listpack_bytes.
     rbind (lpInsert al lp (ELE_STR ele) (listpack_bytes - 1) LP_BEFORE) (\<lambda>(lp, _). Inr lp))"

definition lpAppendInteger :: "allocator \<Rightarrow> bytes \<Rightarrow> int \<Rightarrow> bytes lp_res" where
  "lpAppendInteger al lp lval = rbind (lpGetTotalBytes lp) (\<lambda>listpack_bytes.
     rbind (lpInsertInteger al lp lval (listpack_bytes - 1) LP_BEFORE) (\<lambda>(lp, _). Inr lp))"

definition lpPrepend :: "allocator \<Rightarrow> bytes \<Rightarrow> bytes \<Rightarrow> bytes lp_res" where
  "lpPrepend al lp s = rbind (lpFirst lp) (\<lambda>p. case p of
     None \<Rightarrow> lpAppend al lp s
   | Some p \<Rightarrow> rbind (lpInsert al lp (ELE_STR s) p LP_BEFORE) (\<lambda>(lp, _). Inr lp))"

definition lpPrependInteger :: "allocator \<Rightarrow> bytes \<Rightarrow> int \<Rightarrow> bytes lp_res" where
  "lpPrependInteger al lp lval = rbind (lpFirst lp) (\<lambda>p. case p of
     None \<Rightarrow> lpAppendInteger al lp lval
   | Some p \<Rightarrow> rbind (lpInsertInteger al lp lval p LP_BEFORE) (\<lambda>(lp, _). Inr lp))"

definition lpReplace :: "allocator \<Rightarrow> bytes \<Rightarrow> nat \<Rightarrow> bytes \<Rightarrow> (bytes \<times> nat option) lp_res" where
  "lpReplace al lp p s = lpInsert al lp (ELE_STR s) p LP_REPLACE"

definition lpReplaceInteger :: "allocator \<Rightarrow> bytes \<Rightarrow> nat \<Rightarrow> int \<Rightarrow> (bytes \<times> nat option) lp_res" where
  "lpReplaceInteger al lp p lval = lpInsertInteger al lp lval p LP_REPLACE"

definition lpDelete :: "allocator \<Rightarrow> bytes \<Rightarrow> nat \<Rightarrow> (bytes \<times> nat option) lp_res" where
  "lpDelete al lp p = lpInsert al lp ELE_NULL p LP_REPLACE"

section \<open>Deleting ranges\<close>

text \<open>The search for the end of the range: \<open>tail\<close> and \<open>deleted\<close>.\<close>

fun lpDeleteRange_tail :: "bytes \<Rightarrow> nat \<Rightarrow> nat \<Rightarrow> nat \<Rightarrow> nat \<Rightarrow> (nat \<times> nat) lp_res" where
  "lpDeleteRange_tail lp bytes 0 tail deleted = Inr (tail, deleted)"
| "lpDeleteRange_tail lp bytes (Suc num) tail deleted =
     rbind (lpSkip lp tail) (\<lambda>tail. rbind (rd lp tail) (\<lambda>b.
       if b = LP_EOF then rbind (lp_assert (tail + 1 = bytes)) (\<lambda>_. Inr (tail, deleted + 1))
       else rbind (lpAssertValidEntry lp bytes tail) (\<lambda>_.
         lpDeleteRange_tail lp bytes num tail (deleted + 1))))"

definition lpDeleteRangeWithEntry :: "allocator \<Rightarrow> bytes \<Rightarrow> nat \<Rightarrow> nat \<Rightarrow> (bytes \<times> nat option) lp_res" where
  "lpDeleteRangeWithEntry al lp p num = rbind (lpBytes lp) (\<lambda>bytes.
     if num = 0 then Inr (lp, Some p)
     else rbind (lpDeleteRange_tail lp bytes num p 0) (\<lambda>(tail, deleted).
       rbind (wr_move lp p tail (bytes - tail)) (\<lambda>lp.
       let lp = lpSetTotalBytes lp (bytes - (tail - p)) in
       rbind (lpGetNumElements lp) (\<lambda>numele.
       let lp = (if numele \<noteq> LP_HDR_NUMELE_UNKNOWN then lpSetNumElements lp (int numele - int deleted) else lp) in
       rbind (lpShrinkToFit al lp) (\<lambda>lp.
       rbind (rd lp p) (\<lambda>b. Inr (lp, if b = LP_EOF then None else Some p)))))))"

definition lpDeleteRange :: "allocator \<Rightarrow> bytes \<Rightarrow> int \<Rightarrow> nat \<Rightarrow> bytes lp_res" where
  "lpDeleteRange al lp index num = rbind (lpGetNumElements lp) (\<lambda>numele.
     if num = 0 then Inr lp
     else rbind (lpSeek lp index) (\<lambda>p. case p of
       None \<Rightarrow> Inr lp
     | Some p \<Rightarrow>
       let index = (if numele \<noteq> LP_HDR_NUMELE_UNKNOWN \<and> index < 0 then int numele + index else index) in
       if numele \<noteq> LP_HDR_NUMELE_UNKNOWN \<and> nat ((int numele - index) mod 2 ^ 32) \<le> num then
         rbind (wr lp p [LP_EOF]) (\<lambda>lp.
         lpShrinkToFit al (lpSetNumElements (lpSetTotalBytes lp (p + 1)) index))
       else rbind (lpDeleteRangeWithEntry al lp p num) (\<lambda>(lp, _). Inr lp)))"

text \<open>The loop of \<open>lpBatchDelete\<close> over the remaining pointers; it returns the listpack and
  \<open>dst\<close>, which is \<open>total_bytes - (lp_end - dst)\<close> as an offset.\<close>

fun lpBatchDelete_loop :: "bytes \<Rightarrow> nat \<Rightarrow> nat list \<Rightarrow> nat \<Rightarrow> (bytes \<times> nat) lp_res" where
  "lpBatchDelete_loop lp tot [] dst = Inr (lp, dst)"
| "lpBatchDelete_loop lp tot (skip # ps) dst =
     rbind (rd lp skip) (\<lambda>b. rbind (lp_assert (b \<noteq> LP_EOF)) (\<lambda>_.
     rbind (lpSkip lp skip) (\<lambda>keep_start.
       if ps \<noteq> [] \<and> keep_start = hd ps then lpBatchDelete_loop lp tot ps dst
       else
         let keep_end = (if ps \<noteq> [] then hd ps else tot) in
         rbind (lp_assert (keep_start < keep_end)) (\<lambda>_.
         rbind (wr_move lp dst keep_start (keep_end - keep_start)) (\<lambda>lp.
           lpBatchDelete_loop lp tot ps (dst + (keep_end - keep_start)))))))"

definition lpBatchDelete :: "allocator \<Rightarrow> bytes \<Rightarrow> nat list \<Rightarrow> bytes lp_res" where
  "lpBatchDelete al lp ps =
     (if ps = [] then Inr lp
      else rbind (lpGetTotalBytes lp) (\<lambda>total_bytes.
        rbind (rd lp (total_bytes - 1)) (\<lambda>b. rbind (lp_assert (b = LP_EOF)) (\<lambda>_.
        rbind (lpBatchDelete_loop lp total_bytes ps (hd ps)) (\<lambda>(lp, dst).
        let total_bytes = dst in
        rbind (rd lp (total_bytes - 1)) (\<lambda>b. rbind (lp_assert (b = LP_EOF)) (\<lambda>_.
        let lp = lpSetTotalBytes lp total_bytes in
        rbind (lpGetNumElements lp) (\<lambda>numele.
          lpShrinkToFit al (if numele \<noteq> LP_HDR_NUMELE_UNKNOWN
            then lpSetNumElements lp (int numele - int (length ps)) else lp)))))))))"

section \<open>Merging and copying\<close>

text \<open>The two listpacks are different blocks. The flag says that the result took the place of
  the first.\<close>

definition lpMerge :: "allocator \<Rightarrow> bytes \<Rightarrow> bytes \<Rightarrow> (bytes \<times> bool) lp_res" where
  "lpMerge al first second =
     rbind (lpBytes first) (\<lambda>first_bytes. rbind (lpLength first) (\<lambda>(first_len, first).
     rbind (lpBytes second) (\<lambda>second_bytes. rbind (lpLength second) (\<lambda>(second_len, second).
     let append = second_bytes \<le> first_bytes;
         (target, target_bytes, source, source_bytes) =
           (if append then (first, first_bytes, second, second_bytes)
            else (second, second_bytes, first, first_bytes));
         lpbytes = first_bytes + second_bytes - LP_HDR_SIZE - 1
     in rbind (lp_assert (lpbytes < UINT32_MAX)) (\<lambda>_.
        let lplength = (first_len + second_len) mod 2 ^ 32;
            lplength = (if lplength < UINT16_MAX then lplength else UINT16_MAX);
            target = lp_realloc al target lpbytes
        in rbind
             (if append then
                rbind (rd_range source LP_HDR_SIZE (source_bytes - LP_HDR_SIZE)) (\<lambda>bs.
                  wr target (target_bytes - 1) bs)
              else
                rbind (wr_move target (source_bytes - 1) LP_HDR_SIZE (target_bytes - LP_HDR_SIZE)) (\<lambda>target.
                  rbind (rd_range source 0 (source_bytes - 1)) (\<lambda>bs. wr target 0 bs)))
             (\<lambda>target. Inr (lpSetTotalBytes (lpSetNumElements target (int lplength)) lpbytes, append)))))))"

definition lpDup :: "allocator \<Rightarrow> bytes \<Rightarrow> bytes lp_res" where
  "lpDup al lp = rbind (lpBytes lp) (\<lambda>lpbytes.
     rbind (rd_range lp 0 lpbytes) (\<lambda>bs. wr (lp_malloc al lpbytes) 0 bs))"

definition lpEstimateBytesRepeatedInteger :: "int \<Rightarrow> nat \<Rightarrow> nat" where
  "lpEstimateBytesRepeatedInteger lval rep =
     (let enclen = length (lpEncodeIntegerGetType lval);
          backlen = lpEncodeBacklen_size enclen
      in (LP_HDR_SIZE + (enclen + backlen) * rep + 1) mod 2 ^ 32)"

section \<open>Validation of a listpack\<close>

definition lpValidateFirst :: "bytes \<Rightarrow> nat option lp_res" where
  "lpValidateFirst lp = rbind (rd lp LP_HDR_SIZE) (\<lambda>b. Inr (if b = LP_EOF then None else Some LP_HDR_SIZE))"

text \<open>The scan with its optional callback, which sees the entry and the count of the header and may
  keep a state of its own (\<open>cb_userdata\<close>).\<close>

type_synonym 'u entry_cb = "nat \<Rightarrow> nat \<Rightarrow> 'u \<Rightarrow> bool \<times> 'u"

definition lp_call_cb :: "'u entry_cb option \<Rightarrow> nat \<Rightarrow> nat \<Rightarrow> 'u \<Rightarrow> bool \<times> 'u" where
  "lp_call_cb cb prev numele u = (case cb of None \<Rightarrow> (True, u) | Some f \<Rightarrow> f prev numele u)"

fun lpValidate_loop ::
  "nat \<Rightarrow> bytes \<Rightarrow> nat \<Rightarrow> nat \<Rightarrow> 'u entry_cb option \<Rightarrow> 'u \<Rightarrow> nat option \<Rightarrow> nat \<Rightarrow> (bool \<times> nat option \<times> nat \<times> 'u) lp_res" where
  "lpValidate_loop n lp bytes numele cb u None count = Inr (True, None, count, u)"
| "lpValidate_loop 0 lp bytes numele cb u (Some p) count = Inl LP_LOOP"
| "lpValidate_loop (Suc n) lp bytes numele cb u (Some p) count =
     rbind (rd lp p) (\<lambda>b.
       if b = LP_EOF then Inr (True, Some p, count, u)
       else rbind (lpValidateNext lp (Some p) bytes) (\<lambda>(ok, q).
         if \<not> ok then Inr (False, q, count, u)
         else let (ok, u) = lp_call_cb cb p numele u in
           if \<not> ok then Inr (False, q, count, u)
           else lpValidate_loop n lp bytes numele cb u q ((count + 1) mod 2 ^ 32)))"

definition lpValidateIntegrity :: "bytes \<Rightarrow> nat \<Rightarrow> bool \<Rightarrow> 'u entry_cb option \<Rightarrow> 'u \<Rightarrow> (bool \<times> 'u) lp_res" where
  "lpValidateIntegrity lp sz deep cb u =
     (if sz < LP_HDR_SIZE + 1 then Inr (False, u)
      else rbind (lpGetTotalBytes lp) (\<lambda>bytes.
        if bytes \<noteq> sz then Inr (False, u)
        else rbind (rd lp (sz - 1)) (\<lambda>b.
          if b \<noteq> LP_EOF then Inr (False, u)
          else if \<not> deep then Inr (True, u)
          else rbind (lpGetNumElements lp) (\<lambda>numele.
            rbind (lpValidate_loop (sz + 1) lp bytes numele cb u (Some LP_HDR_SIZE) 0)
              (\<lambda>(ok, p, count, u).
                Inr (ok \<and> p = Some (sz - 1) \<and> (numele = LP_HDR_NUMELE_UNKNOWN \<or> numele = count), u))))))"

end
