(* ===== verification/Listpack_Codec.thy ===== *)
theory Listpack_Codec
  imports Listpack
begin

text \<open>
  The encodings of \<open>src/src/listpack.c\<close>: which bytes are a complete encoded element
  (\<open>enc_ok\<close>) and which value they stand for (\<open>enc_val\<close>), that the integer and string
  encoders produce such bytes for every 64-bit integer and every string that fits, that the
  reversed length is read back from its end, and that a function that reads one entry gives the
  same result when the entry stands inside a listpack.
\<close>

section \<open>Bytes and masks\<close>

lemma byte_low: "unat (b AND mask n :: byte) = unat b mod 2 ^ n"
  by (subst take_bit_eq_mask [symmetric], subst unsigned_take_bit_eq, rule take_bit_eq_mod)

lemma byte_high: "unat (b AND NOT (mask n) :: byte) = unat b div 2 ^ n * 2 ^ n"
proof -
  have lt: "unat b < 2 ^ 8" using unsigned_less [of b, where ?'a = nat] by simp
  have "b AND NOT (mask n) = push_bit n (drop_bit n b)"
    by (rule bit_word_eqI) (auto simp: bit_simps)
  moreover have "unat (push_bit n (drop_bit n b)) =
      take_bit LENGTH(8) (push_bit n (drop_bit n (take_bit LENGTH(8) (unat b))))"
    by (simp only: unsigned_push_bit_eq unsigned_drop_bit_eq)
  moreover have "take_bit LENGTH(8) (push_bit n (drop_bit n (take_bit LENGTH(8) (unat b)))) =
      (unat b div 2 ^ n * 2 ^ n) mod 2 ^ 8"
    using lt by (simp add: take_bit_eq_mod push_bit_eq_mult drop_bit_eq_div)
  moreover have "unat b div 2 ^ n * 2 ^ n < 2 ^ 8"
    using lt by (metis div_times_less_eq_dividend le_less_trans)
  ultimately show ?thesis by simp
qed

lemma byte_masks:
  "(0x80::byte) = NOT (mask 7)" "(0xC0::byte) = NOT (mask 6)" "(0xE0::byte) = NOT (mask 5)" "(0xF0::byte) = NOT (mask 4)"
  "(0x7F::byte) = mask 7" "(0x3F::byte) = mask 6" "(0x1F::byte) = mask 5" "(0xF::byte) = mask 4"
  by (simp_all add: mask_eq_exp_minus_1)

lemma byte_tests:
  "lp_is_7bit_uint b \<longleftrightarrow> unat b < 128"
  "lp_is_6bit_str b \<longleftrightarrow> 128 \<le> unat b \<and> unat b < 192"
  "lp_is_13bit_int b \<longleftrightarrow> 192 \<le> unat b \<and> unat b < 224"
  "lp_is_12bit_str b \<longleftrightarrow> 224 \<le> unat b \<and> unat b < 240"
proof -
  have lt: "unat b < 256" using unsigned_less [of b, where ?'a = nat] by simp
  have "lp_is_7bit_uint b \<longleftrightarrow> unat b div 2 ^ 7 * 2 ^ 7 = 0"
    unfolding lp_is_7bit_uint_def byte_masks byte_high [symmetric] by (simp add: unat_eq_0)
  then show "lp_is_7bit_uint b \<longleftrightarrow> unat b < 128" using lt by auto
  have "lp_is_6bit_str b \<longleftrightarrow> unat b div 2 ^ 6 * 2 ^ 6 = 128"
    unfolding lp_is_6bit_str_def byte_masks(2) byte_high [symmetric] word_unat_eq_iff by simp
  then show "lp_is_6bit_str b \<longleftrightarrow> 128 \<le> unat b \<and> unat b < 192" using lt by auto
  have "lp_is_13bit_int b \<longleftrightarrow> unat b div 2 ^ 5 * 2 ^ 5 = 192"
    unfolding lp_is_13bit_int_def byte_masks(3) byte_high [symmetric] word_unat_eq_iff by simp
  then show "lp_is_13bit_int b \<longleftrightarrow> 192 \<le> unat b \<and> unat b < 224" using lt by auto
  have "lp_is_12bit_str b \<longleftrightarrow> unat b div 2 ^ 4 * 2 ^ 4 = 224"
    unfolding lp_is_12bit_str_def byte_masks(4) byte_high [symmetric] word_unat_eq_iff by simp
  then show "lp_is_12bit_str b \<longleftrightarrow> 224 \<le> unat b \<and> unat b < 240" using lt by auto
qed

section \<open>Reads inside a context\<close>

text \<open>\<open>rle r r'\<close>: where \<open>r\<close> succeeds, \<open>r'\<close> succeeds with the same value. A
  function that reads only its entry gives the same result when bytes are put around the entry;
  the collection \<open>rle\<close> shows it by going through the code.\<close>

definition rle :: "('e + 'a) \<Rightarrow> ('e + 'a) \<Rightarrow> bool" where
  "rle r r' \<longleftrightarrow> (\<forall>y. r = Inr y \<longrightarrow> r' = Inr y)"

named_theorems rle_intros "refinement of results, by the structure of the code"

lemma rleD: "rle r r' \<Longrightarrow> r = Inr y \<Longrightarrow> r' = Inr y"
  by (simp add: rle_def)

lemma rle_refl [rle_intros]: "rle r r"
  by (simp add: rle_def)

lemma rle_rbind [rle_intros]: "rle r r' \<Longrightarrow> (\<And>x. rle (f x) (f' x)) \<Longrightarrow> rle (rbind r f) (rbind r' f')"
  by (cases r) (auto simp: rle_def)

lemma rle_if [rle_intros]: "rle a a' \<Longrightarrow> rle b b' \<Longrightarrow> rle (if c then a else b) (if c then a' else b')"
  by (simp add: rle_def)

lemma rle_rd: "q = length A + p \<Longrightarrow> rle (rd e p) (rd (A @ e @ C) q)"
  by (auto simp: rle_def rd_def nth_append)

lemma rle_rd_range: "q = length A + p \<Longrightarrow> rle (rd_range e p n) (rd_range (A @ e @ C) q n)"
  by (auto simp: rle_def rd_range_def mem_read_def)

lemma rle_rd_le: "q = length A + p \<Longrightarrow> rle (rd_le e p n) (rd_le (A @ e @ C) q n)"
  unfolding rd_le_def by (intro rle_intros rle_rd_range)

lemma rle_size:
  "rle (lpCurrentEncodedSizeUnsafe e p) (lpCurrentEncodedSizeUnsafe (A @ e @ C) (length A + p))"
  unfolding lpCurrentEncodedSizeUnsafe_def by (intro rle_intros rle_rd rle_rd_le) simp_all

lemma rle_size_bytes:
  "rle (lpCurrentEncodedSizeBytes e p) (lpCurrentEncodedSizeBytes (A @ e @ C) (length A + p))"
  unfolding lpCurrentEncodedSizeBytes_def by (intro rle_intros rle_rd) simp_all

text \<open>An element moves with the entry.\<close>

fun shift_elem :: "nat \<Rightarrow> lp_elem \<Rightarrow> lp_elem" where
  "shift_elem k (LP_STR q n) = LP_STR (k + q) n"
| "shift_elem k (LP_INT v) = LP_INT v"

lemma rbind_assoc: "rbind (rbind r f) g = rbind r (\<lambda>x. rbind (f x) g)"
  by (cases r) simp_all

lemma rbind_if: "rbind (if c then a else b) f = (if c then rbind a f else rbind b f)"
  by simp

lemma rle_get:
  "rle (rbind (lpGetWithSize e p) (\<lambda>(el, es). Inr (shift_elem (length A) el, es)))
     (lpGetWithSize (A @ e @ C) (length A + p))"
  unfolding lpGetWithSize_def Let_def rbind_assoc rbind_if rbind_simps prod.case shift_elem.simps add.assoc
  by (intro rle_intros rle_rd rle_rd_le) simp_all

section \<open>The reversed length\<close>

lemma small_no_bit: "d < 128 \<Longrightarrow> 7 \<le> n \<Longrightarrow> \<not> bit (d::nat) n"
proof -
  assume "d < 128" "7 \<le> n"
  then have "d = take_bit 7 d" by (simp add: take_bit_nat_eq_self)
  then show "\<not> bit d n" using \<open>7 \<le> n\<close> by (metis bit_take_bit_iff not_le)
qed

lemma byte_127: "(127::byte) = mask 7"
  by (simp add: mask_eq_exp_minus_1)

lemma bit_128: "bit (128::byte) n \<longleftrightarrow> n = 7"
proof -
  have m: "(128::byte) = NOT (mask 7)" by (simp add: mask_eq_exp_minus_1)
  have "bit (NOT (mask 7) :: byte) n \<longleftrightarrow> n < 8 \<and> \<not> n < 7"
    by (simp only: bit_not_iff bit_mask_iff possible_bit_word) auto
  then show ?thesis unfolding m by auto
qed

lemma byte_or128:
  assumes "d < 128"
  shows "unat ((of_nat d OR 128 :: byte) AND 127) = d" "(of_nat d OR 128 :: byte) AND 128 \<noteq> 0"
    "unat ((of_nat d :: byte) AND 127) = d" "(of_nat d :: byte) AND 128 = 0"
proof -
  show d: "unat ((of_nat d :: byte) AND 127) = d"
    unfolding byte_127 byte_low using assms by (simp add: unat_of_nat)
  have "(of_nat d OR 128 :: byte) AND 127 = of_nat d AND 127"
    unfolding byte_127 by (rule bit_word_eqI) (simp only: bit_or_iff bit_and_iff bit_mask_iff bit_128, auto)
  then show "unat ((of_nat d OR 128 :: byte) AND 127) = d" using d by simp
  have "bit ((of_nat d OR 128 :: byte) AND 128) 7"
    by (simp only: bit_or_iff bit_and_iff bit_128) simp
  then show "(of_nat d OR 128 :: byte) AND 128 \<noteq> 0" by (metis bit_0_eq bot_apply bot_bool_def)
  show "(of_nat d :: byte) AND 128 = 0"
    using small_no_bit [OF assms]
    by (intro bit_word_eqI) (simp only: bit_and_iff bit_128, auto simp: bit_simps)
qed

lemma or_push_bit: "v < 2 ^ s \<Longrightarrow> v OR push_bit s d = v + d * 2 ^ s" for v d :: nat
proof -
  assume "v < 2 ^ s"
  then have v: "v = take_bit s v" by (simp add: take_bit_nat_eq_self)
  have "v AND push_bit s d = 0"
    by (rule bit_eqI, subst v) (auto simp: bit_simps bit_128)
  then show ?thesis by (simp add: disjunctive_add_eq_or [symmetric] push_bit_eq_mult)
qed

lemma decode_more:
  assumes "rd lp p = Inr (of_nat d OR 128)" "d < 128" "shift \<le> 21" "0 < p" "val < 2 ^ shift"
  shows "lpDecodeBacklen_loop lp p val shift = lpDecodeBacklen_loop lp (p - 1) (val + d * 2 ^ shift) (shift + 7)"
  using assms by (subst lpDecodeBacklen_loop.simps) (simp add: byte_or128 or_push_bit)

lemma decode_last:
  assumes "rd lp p = Inr (of_nat d)" "d < 128" "val < 2 ^ shift"
  shows "lpDecodeBacklen_loop lp p val shift = Inr (val + d * 2 ^ shift)"
  using assms by (subst lpDecodeBacklen_loop.simps) (simp add: byte_or128 or_push_bit)

lemma length_lpEncodeBacklen [simp]: "length (lpEncodeBacklen l) = lpEncodeBacklen_size l"
  by (simp add: lpEncodeBacklen_def lpEncodeBacklen_size_def)

lemma lpEncodeBacklen_size_bounds: "1 \<le> lpEncodeBacklen_size l" "lpEncodeBacklen_size l \<le> 5"
  by (simp_all add: lpEncodeBacklen_size_def)

lemma rd_append: "p = length A \<Longrightarrow> rd (A @ b # C) p = Inr b"
  by (simp add: rd_def nth_append)

text \<open>The reversed length in \<open>n\<close> digits of base 128.\<close>

fun backlen_bytes :: "nat \<Rightarrow> nat \<Rightarrow> bytes" where
  "backlen_bytes 0 l = []"
| "backlen_bytes (Suc 0) l = [of_nat l]"
| "backlen_bytes (Suc (Suc n)) l = backlen_bytes (Suc n) (l div 128) @ [of_nat (l mod 128) OR 128]"

lemma length_backlen_bytes [simp]: "length (backlen_bytes n l) = n"
  by (induction n l rule: backlen_bytes.induct) auto

lemma lpEncodeBacklen_bytes: "lpEncodeBacklen l = backlen_bytes (lpEncodeBacklen_size l) l"
proof -
  have n: "5 = Suc 4" "4 = Suc 3" "3 = Suc 2" "2 = Suc 1" "1 = Suc 0" by simp_all
  have b: "backlen_bytes 1 l = [of_nat l]"
    "backlen_bytes 2 l = [of_nat (l div 128), of_nat (l mod 128) OR 128]"
    "backlen_bytes 3 l = [of_nat (l div 128 div 128), of_nat (l div 128 mod 128) OR 128, of_nat (l mod 128) OR 128]"
    "backlen_bytes 4 l = [of_nat (l div 128 div 128 div 128), of_nat (l div 128 div 128 mod 128) OR 128,
      of_nat (l div 128 mod 128) OR 128, of_nat (l mod 128) OR 128]"
    "backlen_bytes 5 l = [of_nat (l div 128 div 128 div 128 div 128), of_nat (l div 128 div 128 div 128 mod 128) OR 128,
      of_nat (l div 128 div 128 mod 128) OR 128, of_nat (l div 128 mod 128) OR 128, of_nat (l mod 128) OR 128]"
    unfolding n by (simp_all only: One_nat_def backlen_bytes.simps append.simps)
  have d: "l div 2 ^ 7 = l div 128" "l div 2 ^ 14 = l div 128 div 128" "l div 2 ^ 21 = l div 128 div 128 div 128"
    "l div 2 ^ 28 = l div 128 div 128 div 128 div 128"
    by (simp_all add: div_mult2_eq [symmetric])
  show ?thesis unfolding lpEncodeBacklen_def lpEncodeBacklen_size_def d by (simp only: b split: if_splits) simp
qed

lemma lpEncodeBacklen_size_digits: "l < 2 ^ 35 \<Longrightarrow> l < 128 ^ lpEncodeBacklen_size l"
  by (simp add: lpEncodeBacklen_size_def)

lemma decode_bytes:
  assumes "0 < n" "shift + 7 * n \<le> 35" "l < 128 ^ n" "val < 2 ^ shift" "X \<noteq> []"
  shows "lpDecodeBacklen_loop (X @ backlen_bytes n l @ Y) (length X + n - 1) val shift = Inr (val + l * 2 ^ shift)"
  using assms
proof (induction n l arbitrary: shift val Y rule: backlen_bytes.induct)
  case (2 l)
  then show ?case by (simp add: decode_last [of _ _ l] rd_append)
next
  case (3 n l)
  let ?b = "of_nat (l mod 128) OR 128 :: byte"
  let ?lp = "X @ backlen_bytes (Suc (Suc n)) l @ Y" and ?v = "val + l mod 128 * 2 ^ shift"
  have r: "rd ?lp (length X + Suc (Suc n) - 1) = Inr ?b"
    using rd_append [of _ "X @ backlen_bytes (Suc n) (l div 128)" ?b Y] by simp
  have v: "?v < 2 ^ (shift + 7)"
  proof -
    have "l mod 128 \<le> 127" by simp
    then have "?v < 2 ^ shift + 127 * 2 ^ shift"
      using "3.prems"(4) by (intro add_less_le_mono mult_le_mono1)
    also have "\<dots> = 2 ^ (shift + 7)" by (simp add: power_add)
    finally show ?thesis .
  qed
  have "lpDecodeBacklen_loop ?lp (length X + Suc (Suc n) - 1) val shift =
      lpDecodeBacklen_loop ?lp (length X + Suc (Suc n) - 1 - 1) ?v (shift + 7)"
    using "3.prems" by (intro decode_more [OF r]) auto
  also have "\<dots> = Inr (?v + l div 128 * 2 ^ (shift + 7))"
    using "3.IH" [of "shift + 7" ?v "?b # Y"] "3.prems" v by (simp add: less_mult_imp_div_less)
  also have "?v + l div 128 * 2 ^ (shift + 7) = val + (l mod 128 + l div 128 * 128) * 2 ^ shift"
    by (simp only: power_add add_mult_distrib) simp
  also have "l mod 128 + l div 128 * 128 = l" by (rule mod_div_mult_eq)
  finally show ?case .
qed simp

lemma lpDecodeBacklen_encode:
  assumes "l < 2 ^ 35" "X \<noteq> []"
  shows "lpDecodeBacklen (X @ lpEncodeBacklen l @ Y) (length X + lpEncodeBacklen_size l - 1) = Inr l"
proof -
  have "0 < lpEncodeBacklen_size l" "7 * lpEncodeBacklen_size l \<le> 35"
    using lpEncodeBacklen_size_bounds [of l] by linarith+
  then show ?thesis
    using decode_bytes [of "lpEncodeBacklen_size l" 0 l 0 X Y] lpEncodeBacklen_size_digits assms
    by (simp add: lpDecodeBacklen_def lpEncodeBacklen_bytes)
qed

section \<open>Encoded elements\<close>

datatype lpval = VInt int | VStr bytes

text \<open>A complete encoding, and the value it stands for.\<close>

definition enc_ok :: "bytes \<Rightarrow> bool" where
  "enc_ok e \<longleftrightarrow> lpCurrentEncodedSizeUnsafe e 0 = Inr (length e) \<and> e \<noteq> [] \<and> hd e \<noteq> LP_EOF"

definition enc_val :: "bytes \<Rightarrow> lpval" where
  "enc_val e = (case lpGetWithSize e 0 of
     Inr (LP_STR q n, _) \<Rightarrow> VStr (mem_read e q n) | Inr (LP_INT v, _) \<Rightarrow> VInt v | Inl _ \<Rightarrow> VStr [])"

lemma rd_le_ok: "p + n \<le> length e \<Longrightarrow> rd_le e p n = Inr (nat (le_uint (mem_read e p n)))"
  by (simp add: rd_le_def rd_range_def)

lemma rd_le_Inr: "rd_le e p n = Inr u \<longleftrightarrow> p + n \<le> length e \<and> u = nat (le_uint (mem_read e p n))"
  by (auto simp: rd_le_def rd_range_def)

lemma rd_Inr: "rd e p = Inr b \<longleftrightarrow> p < length e \<and> b = e ! p"
  by (auto simp: rd_def)

lemma rd_hd: "e \<noteq> [] \<Longrightarrow> rd e 0 = Inr (hd e)"
  by (simp add: rd_def hd_conv_nth)

lemma rd_le4_less: "rd_le e p 4 = Inr u \<Longrightarrow> u < 2 ^ 32"
  using le_uint_less [of "mem_read e p 4"] by (auto simp: rd_le_Inr)

lemma wrap_size: "(5 + u) mod 2 ^ 32 = n \<Longrightarrow> 5 \<le> n \<Longrightarrow> u < 2 ^ 32 \<Longrightarrow> 5 + u = (n::nat)"
proof (cases "5 + u < 2 ^ 32")
  case False
  assume "(5 + u) mod 2 ^ 32 = n" "5 \<le> n" "u < 2 ^ 32"
  moreover have "(5 + u) mod 2 ^ 32 = 5 + u - 2 ^ 32"
    using False calculation(3) by (simp only: le_mod_geq not_less) simp
  ultimately show ?thesis using False by linarith
qed simp

text \<open>The size and the element are computed by the same case distinction.\<close>

definition size_get :: "bytes \<Rightarrow> nat lp_res \<Rightarrow> (lp_elem \<times> nat option) lp_res \<Rightarrow> bool" where
  "size_get e r r' \<longleftrightarrow> (r = Inr (length e) \<longrightarrow>
     (\<exists>el. r' = Inr (el, Some (length e + lpEncodeBacklen_size (length e))) \<and>
        (\<forall>q n. el = LP_STR q n \<longrightarrow> q + n = length e)))"

lemma size_get_if:
  "size_get e a a' \<Longrightarrow> size_get e b b' \<Longrightarrow> size_get e (if c then a else b) (if c then a' else b')"
  by (simp add: size_get_def)

lemma size_get_int:
  "n + k = m \<Longrightarrow> lpEncodeBacklen_size n = k \<Longrightarrow> n = Suc j \<Longrightarrow>
   size_get e (Inr n) (rbind (rd_le e 1 j) (\<lambda>u. Inr (LP_INT (f u), Some m)))"
  by (auto simp: size_get_def rd_le_ok)

lemma lpGetWithSize_size:
  assumes "e \<noteq> []" "hd e \<noteq> LP_EOF"
  shows "size_get e (lpCurrentEncodedSizeUnsafe e 0) (lpGetWithSize e 0)"
proof -
  note b = rd_hd [OF assms(1)] assms(2)
  have str32: "size_get e (rbind (rd_le e 1 4) (\<lambda>len. Inr ((5 + len) mod 2 ^ 32)))
      (rbind (rd_le e 1 4) (\<lambda>count. Inr (LP_STR 5 count, Some (5 + count + lpEncodeBacklen_size (count + 5)))))"
  proof (cases "rd_le e 1 4")
    case (Inr u)
    then have "(5 + u) mod 2 ^ 32 = length e \<Longrightarrow> 5 + u = length e"
      using wrap_size [of u] rd_le4_less [OF Inr] by (simp add: rd_le_Inr)
    with Inr show ?thesis by (auto simp: size_get_def add.commute)
  qed (simp add: size_get_def)
  show ?thesis
    unfolding lpCurrentEncodedSizeUnsafe_def lpGetWithSize_def b(1) rbind_simps Let_def
    unfolding if_not_P [OF b(2)] add_0
    using assms(1) b(1)
    by (intro size_get_if size_get_int str32)
      (auto simp: size_get_def lpEncodeBacklen_size_def rd_def add.commute)
qed

lemma enc_ok_get:
  assumes "enc_ok e"
  obtains el where "lpGetWithSize e 0 = Inr (el, Some (length e + lpEncodeBacklen_size (length e)))"
    "\<And>q n. el = LP_STR q n \<Longrightarrow> q + n = length e"
  using lpGetWithSize_size [of e] assms unfolding size_get_def enc_ok_def by blast

definition size_bytes :: "bytes \<Rightarrow> nat lp_res \<Rightarrow> nat lp_res \<Rightarrow> bool" where
  "size_bytes e r r' \<longleftrightarrow> (r = Inr (length e) \<longrightarrow> (\<exists>k. r' = Inr k \<and> 0 < k \<and> k \<le> length e))"

lemma size_bytes_if:
  "size_bytes e a a' \<Longrightarrow> size_bytes e b b' \<Longrightarrow> size_bytes e (if c then a else b) (if c then a' else b')"
  by (simp add: size_bytes_def)

lemma enc_ok_size_bytes:
  assumes "enc_ok e"
  obtains k where "lpCurrentEncodedSizeBytes e 0 = Inr k" "0 < k" "k \<le> length e"
proof -
  have b: "rd e 0 = Inr (hd e)" "hd e \<noteq> LP_EOF" "e \<noteq> []"
    using assms by (auto simp: enc_ok_def rd_hd)
  have "size_bytes e (lpCurrentEncodedSizeUnsafe e 0) (lpCurrentEncodedSizeBytes e 0)"
    unfolding lpCurrentEncodedSizeUnsafe_def lpCurrentEncodedSizeBytes_def b(1) rbind_simps
    unfolding if_not_P [OF b(2)]
    using b(3) by (intro size_bytes_if) (auto simp: size_bytes_def rbind_Inr rd_le_Inr rd_Inr)
  then show thesis using assms that by (auto simp: size_bytes_def enc_ok_def)
qed

section \<open>Encoding an element and reading it back\<close>

lemma le_uint_le_bytes_pos: "0 \<le> x \<Longrightarrow> x < 256 ^ n \<Longrightarrow> nat (le_uint (le_bytes n x)) = nat x"
  by (simp add: le_uint_le_bytes)

lemma mem_read_Cons_le: "mem_read (b # le_bytes n x) (Suc 0) n = le_bytes n x"
  by (simp add: mem_read_def)

lemma enc_tests:
  "\<not> lp_is_7bit_uint 0xF1" "\<not> lp_is_6bit_str 0xF1" "\<not> lp_is_13bit_int 0xF1" "lp_is_16bit_int 0xF1"
  "\<not> lp_is_7bit_uint 0xF2" "\<not> lp_is_6bit_str 0xF2" "\<not> lp_is_13bit_int 0xF2" "\<not> lp_is_16bit_int 0xF2"
  "lp_is_24bit_int 0xF2"
  "\<not> lp_is_7bit_uint 0xF3" "\<not> lp_is_6bit_str 0xF3" "\<not> lp_is_13bit_int 0xF3" "\<not> lp_is_16bit_int 0xF3"
  "\<not> lp_is_24bit_int 0xF3" "lp_is_32bit_int 0xF3"
  "\<not> lp_is_7bit_uint 0xF4" "\<not> lp_is_6bit_str 0xF4" "\<not> lp_is_13bit_int 0xF4" "\<not> lp_is_16bit_int 0xF4"
  "\<not> lp_is_24bit_int 0xF4" "\<not> lp_is_32bit_int 0xF4" "lp_is_64bit_int 0xF4"
  "\<not> lp_is_7bit_uint 0xF0" "\<not> lp_is_6bit_str 0xF0" "\<not> lp_is_13bit_int 0xF0" "\<not> lp_is_16bit_int 0xF0"
  "\<not> lp_is_24bit_int 0xF0" "\<not> lp_is_32bit_int 0xF0" "\<not> lp_is_64bit_int 0xF0" "\<not> lp_is_12bit_str 0xF0"
  "lp_is_32bit_str 0xF0"
  by (simp_all add: byte_tests lp_is_16bit_int_def lp_is_24bit_int_def lp_is_32bit_int_def
      lp_is_64bit_int_def lp_is_32bit_str_def)

lemmas enc_unfold = enc_ok_def enc_val_def lpCurrentEncodedSizeUnsafe_def lpGetWithSize_def

lemma signed_wide:
  assumes "- int h \<le> v" "v < int h" "N = 2 * int h" "m = 2 * h - 1"
  shows "lp_signed (nat (if v < 0 then N + v else v)) h m = v"
proof (cases "v < 0")
  case True
  then have "h \<le> nat (N + v)" "int (m - nat (N + v)) = int m - (N + v)" "int m = 2 * int h - 1"
    using assms by linarith+
  with True assms(3) show ?thesis by (simp add: lp_signed_def)
next
  case False
  then have "\<not> h \<le> nat v" using assms(2) by linarith
  with False show ?thesis by (simp add: lp_signed_def)
qed

lemma enc_wide:
  "0 \<le> w \<Longrightarrow> w < 2 ^ 16 \<Longrightarrow> enc_ok (0xF1 # le_bytes 2 w) \<and>
     enc_val (0xF1 # le_bytes 2 w) = VInt (lp_signed (nat w) (2 ^ 15) UINT16_MAX)"
  "0 \<le> w \<Longrightarrow> w < 2 ^ 24 \<Longrightarrow> enc_ok (0xF2 # le_bytes 3 w) \<and>
     enc_val (0xF2 # le_bytes 3 w) = VInt (lp_signed (nat w) (2 ^ 23) (UINT32_MAX div 256))"
  "0 \<le> w \<Longrightarrow> w < 2 ^ 32 \<Longrightarrow> enc_ok (0xF3 # le_bytes 4 w) \<and>
     enc_val (0xF3 # le_bytes 4 w) = VInt (lp_signed (nat w) (2 ^ 31) UINT32_MAX)"
  "0 \<le> w \<Longrightarrow> w < 2 ^ 64 \<Longrightarrow> enc_ok (0xF4 # le_bytes 8 w) \<and>
     enc_val (0xF4 # le_bytes 8 w) = VInt (lp_signed (nat w) (2 ^ 63) ULLONG_MAX)"
  by (simp_all add: enc_unfold rd_hd enc_tests rd_le_ok mem_read_Cons_le le_uint_le_bytes)

lemma encode_int_wide:
  assumes "\<not> (-4096 \<le> v \<and> v \<le> 4095)" "is_int64 v"
  shows "enc_ok (lpEncodeIntegerGetType v) \<and> enc_val (lpEncodeIntegerGetType v) = VInt v"
proof -
  consider "-32768 \<le> v \<and> v \<le> 32767" | "\<not> (-32768 \<le> v \<and> v \<le> 32767)" "-8388608 \<le> v \<and> v \<le> 8388607"
    | "\<not> (-8388608 \<le> v \<and> v \<le> 8388607)" "-2147483648 \<le> v \<and> v \<le> 2147483647"
    | "\<not> (-2147483648 \<le> v \<and> v \<le> 2147483647)" by blast
  then show ?thesis
  proof cases
    case 1
    let ?w = "if v < 0 then 2 ^ 16 + v else v"
    have "lpEncodeIntegerGetType v = 0xF1 # le_bytes 2 ?w"
      using 1 assms(1) by (auto simp: lpEncodeIntegerGetType_def)
    moreover have "lp_signed (nat ?w) (2 ^ 15) UINT16_MAX = v" by (rule signed_wide) (use 1 in auto)
    ultimately show ?thesis using enc_wide(1) [of ?w] 1 by (simp split: if_splits)
  next
    case 2
    let ?w = "if v < 0 then 2 ^ 24 + v else v"
    have "lpEncodeIntegerGetType v = 0xF2 # le_bytes 3 ?w"
      using 2 assms(1) by (auto simp: lpEncodeIntegerGetType_def)
    moreover have "lp_signed (nat ?w) (2 ^ 23) (UINT32_MAX div 256) = v" by (rule signed_wide) (use 2 in auto)
    ultimately show ?thesis using enc_wide(2) [of ?w] 2 by (simp split: if_splits)
  next
    case 3
    let ?w = "if v < 0 then 2 ^ 32 + v else v"
    have "lpEncodeIntegerGetType v = 0xF3 # le_bytes 4 ?w"
      using 3 assms(1) by (auto simp: lpEncodeIntegerGetType_def)
    moreover have "lp_signed (nat ?w) (2 ^ 31) UINT32_MAX = v" by (rule signed_wide) (use 3 in auto)
    ultimately show ?thesis using enc_wide(3) [of ?w] 3 by (simp split: if_splits)
  next
    case 4
    have r: "-9223372036854775808 \<le> v" "v \<le> 9223372036854775807" using assms(2) by (simp_all add: is_int64_def)
    let ?w = "if v < 0 then 2 ^ 64 + v else v"
    have m: "v mod 2 ^ 64 = ?w"
    proof (cases "v < 0")
      case True
      have "v mod 2 ^ 64 = (v + 2 ^ 64) mod 2 ^ 64" by simp
      also have "\<dots> = v + 2 ^ 64" using True r by (intro mod_pos_pos_trivial) auto
      finally show ?thesis using True by simp
    qed (use r in simp)
    have "lpEncodeIntegerGetType v = 0xF4 # le_bytes 8 (v mod 2 ^ 64)"
      using 4 assms(1) by (auto simp: lpEncodeIntegerGetType_def)
    moreover have "lp_signed (nat ?w) (2 ^ 63) ULLONG_MAX = v" by (rule signed_wide) (use r in auto)
    ultimately show ?thesis using enc_wide(4) [of ?w] r unfolding m by (simp split: if_splits)
  qed
qed

lemma byte_or:
  assumes "d < 2 ^ k" "c * 2 ^ k + d < 256"
  shows "unat (of_nat d OR of_nat (c * 2 ^ k) :: byte) = c * 2 ^ k + d"
proof -
  have "(of_nat d OR of_nat (c * 2 ^ k) :: byte) = of_nat (d OR push_bit k c)"
    by (simp only: of_nat_or_eq push_bit_eq_mult)
  also have "d OR push_bit k c = c * 2 ^ k + d" using or_push_bit [OF assms(1), of c] by simp
  finally have e: "(of_nat d OR of_nat (c * 2 ^ k) :: byte) = of_nat (c * 2 ^ k + d)" .
  show ?thesis unfolding e using assms(2) by (subst unat_of_nat) simp
qed

lemma byte_tags:
  "d < 64 \<Longrightarrow> unat (of_nat d OR 0x80 :: byte) = 128 + d"
  "d < 32 \<Longrightarrow> unat (of_nat d OR 0xC0 :: byte) = 192 + d"
  "d < 16 \<Longrightarrow> unat (of_nat d OR 0xE0 :: byte) = 224 + d"
  using byte_or [of d 6 2] byte_or [of d 5 6] byte_or [of d 4 14] by simp_all

lemma unat_and_masks:
  "unat (b AND 0x7F :: byte) = unat b mod 128" "unat (b AND 0x3F :: byte) = unat b mod 64"
  "unat (b AND 0x1F :: byte) = unat b mod 32" "unat (b AND 0xF :: byte) = unat b mod 16"
  using byte_low [of b 7] byte_low [of b 6] byte_low [of b 5] byte_low [of b 4]
  by (simp_all add: mask_eq_exp_minus_1)

lemma eof_unat: "b \<noteq> LP_EOF \<longleftrightarrow> unat b \<noteq> 255"
  by (simp add: word_unat_eq_iff)

lemma encode_int_narrow:
  assumes "-4096 \<le> v" "v \<le> 4095"
  shows "enc_ok (lpEncodeIntegerGetType v) \<and> enc_val (lpEncodeIntegerGetType v) = VInt v"
proof (cases "0 \<le> v \<and> v \<le> 127")
  case True
  define b :: byte where "b = word_of_int v"
  have b: "unat b = nat v" using True by (simp add: b_def unat_eq_nat_uint uint_word_of_int)
  have "lpEncodeIntegerGetType v = [b]" using True by (simp add: lpEncodeIntegerGetType_def b_def)
  moreover have "nat v < 128" using True by linarith
  ultimately show ?thesis using True b
    by (simp add: enc_unfold rd_hd eof_unat byte_tests unat_and_masks lp_signed_def)
next
  case False
  define w where "w = nat (if v < 0 then 2 ^ 13 + v else v)"
  define b :: byte where "b = of_nat (w div 256) OR 0xC0"
  have w: "w < 8192" using assms by (auto simp: w_def)
  then have b: "unat b = 192 + w div 256" unfolding b_def by (intro byte_tags) auto
  have b1: "unat (of_nat w :: byte) = w mod 256" by (simp add: unat_of_nat)
  have "lpEncodeIntegerGetType v = [b, of_nat w]"
  proof -
    have u: "(if v < 0 then 2 ^ 13 + v else v) = int w" using assms by (simp add: w_def)
    have d: "int w div 256 = int (w div 256)" by (simp add: zdiv_int)
    have "lpEncodeIntegerGetType v = [word_of_int (int w div 256) OR 0xC0, word_of_int (int w)]"
      unfolding lpEncodeIntegerGetType_def Let_def u using False assms by (simp only: if_False if_True simp_thms)
    then show ?thesis unfolding d b_def by simp
  qed
  moreover have "lp_signed (w div 256 * 256 + w mod 256) (2 ^ 12) 8191 = v"
    using signed_wide [of "2 ^ 12" v "2 ^ 13" 8191] assms by (simp add: w_def)
  moreover have "w div 256 < 32" using w by simp
  moreover from this have "(192 + w div 256) mod 32 = w div 256" by (simp add: mod_if)
  ultimately show ?thesis using b b1
    by (simp add: enc_unfold rd_hd eof_unat byte_tests unat_and_masks rd_def)
qed

lemma encode_int:
  "is_int64 v \<Longrightarrow> enc_ok (lpEncodeIntegerGetType v)"
  "is_int64 v \<Longrightarrow> enc_val (lpEncodeIntegerGetType v) = VInt v"
  using encode_int_narrow encode_int_wide by metis+
lemma encode_string:
  assumes "length s < 2 ^ 32 - 5"
  shows "enc_ok (lpEncodeString s)" "enc_val (lpEncodeString s) = VStr s"
    "length (lpEncodeString s) = (if length s < 64 then 1 + length s
       else if length s < 4096 then 2 + length s else 5 + length s)"
proof -
  have "enc_ok (lpEncodeString s) \<and> enc_val (lpEncodeString s) = VStr s"
  proof -
    consider "length s < 64" | "\<not> length s < 64" "length s < 4096" | "\<not> length s < 4096" by linarith
    then show ?thesis
    proof cases
      case 1
      define b :: byte where "b = of_nat (length s) OR 0x80"
      have b: "unat b = 128 + length s" unfolding b_def using 1 by (rule byte_tags)
      have "lpEncodeString s = b # s" using 1 by (simp add: lpEncodeString_def b_def)
      moreover have "(128 + length s) mod 64 = length s" using 1 by (simp add: mod_if)
      ultimately show ?thesis using 1 b
        by (simp add: enc_unfold Let_def rd_hd eof_unat byte_tests unat_and_masks mem_read_def)
    next
      case 2
      define b :: byte where "b = of_nat (length s div 256) OR 0xE0"
      have d: "length s div 256 < 16" using 2 by simp
      then have b: "unat b = 224 + length s div 256" unfolding b_def by (rule byte_tags)
      have b1: "unat (of_nat (length s) :: byte) = length s mod 256" by (simp add: unat_of_nat)
      have nb: "\<not> lp_is_16bit_int b" "\<not> lp_is_24bit_int b" "\<not> lp_is_32bit_int b" "\<not> lp_is_64bit_int b"
        using b d by (auto simp: lp_is_16bit_int_def lp_is_24bit_int_def lp_is_32bit_int_def lp_is_64bit_int_def)
      have "lpEncodeString s = b # of_nat (length s) # s" using 2 by (simp add: lpEncodeString_def b_def)
      moreover have "(224 + length s div 256) mod 16 = length s div 256" using d by (simp add: mod_if)
      ultimately show ?thesis using 2 b b1 d nb
        by (simp add: enc_unfold Let_def rd_hd eof_unat byte_tests unat_and_masks mem_read_def rd_def)
    next
      case 3
      then have "lpEncodeString s = 0xF0 # le_bytes 4 (int (length s)) @ s" by (simp add: lpEncodeString_def)
      moreover have "mem_read (0xF0 # le_bytes 4 (int (length s)) @ s) (Suc 0) 4 = le_bytes 4 (int (length s))"
        by (simp add: mem_read_def)
      moreover have "mem_read (0xF0 # le_bytes 4 (int (length s)) @ s) 5 (length s) = s"
        by (simp add: mem_read_def)
      ultimately show ?thesis using 3 assms
        by (simp add: enc_unfold rd_hd enc_tests rd_le_ok le_uint_le_bytes)
    qed
  qed
  then show "enc_ok (lpEncodeString s)" "enc_val (lpEncodeString s) = VStr s" by simp_all
qed (simp add: lpEncodeString_def)

end
