(* ===== verification/Listpack_Rep.thy ===== *)
theory Listpack_Rep
  imports Listpack_Codec
begin

text \<open>
  What a listpack block represents: \<open>lp_rep lp es\<close> says that the block \<open>lp\<close> holds the encoded
  elements \<open>es\<close> behind a header with the right total and a count that is exact or unknown.  On such
  a block the traversal functions of \<^verbatim>\<open>src/src/src/listpack.c\<close> (\<open>lpFirst\<close>, \<open>lpNext\<close>, \<open>lpPrev\<close>,
  \<open>lpLast\<close>, \<open>lpSeek\<close>), the readers (\<open>lpLength\<close>, \<open>lpGet\<close>, \<open>lpCompare\<close>) and the search (\<open>lpFind\<close>)
  return what the list of the elements' texts (\<open>lp_text\<close>) says, and none of them reads outside the
  block or fails an assertion.
\<close>

section \<open>Entries and the representation of a listpack\<close>

definition entry :: "bytes \<Rightarrow> bytes" where
  "entry e = e @ lpEncodeBacklen (length e)"

definition body :: "bytes list \<Rightarrow> bytes" where
  "body es = concat (map entry es)"

lemma body_simps [simp]: "body [] = []" "body (e # es) = entry e @ body es" "body (xs @ ys) = body xs @ body ys"
  by (simp_all add: body_def)

abbreviation entry_len :: "bytes \<Rightarrow> nat" where
  "entry_len e \<equiv> length e + lpEncodeBacklen_size (length e)"

lemma length_entry [simp]: "length (entry e) = entry_len e"
  by (simp add: entry_def)

text \<open>The header with the total length and the count.\<close>

definition lp_hdr :: "nat \<Rightarrow> nat \<Rightarrow> bytes" where
  "lp_hdr n c = le_bytes 4 (int n) @ le_bytes 2 (int c)"

lemma length_lp_hdr [simp]: "length (lp_hdr n c) = 6"
  by (simp add: lp_hdr_def)

text \<open>\<open>lp_rep lp es\<close>: the block \<open>lp\<close> holds the listpack of the encodings \<open>es\<close>. The count in
  the header is exact or unknown.\<close>

definition lp_rep :: "bytes \<Rightarrow> bytes list \<Rightarrow> bool" where
  "lp_rep lp es \<longleftrightarrow> (\<forall>e \<in> set es. enc_ok e) \<and> 7 + length (body es) \<le> UINT32_MAX \<and>
     (\<exists>c junk. lp = lp_hdr (7 + length (body es)) c @ body es @ LP_EOF # junk \<and>
        (c = UINT16_MAX \<or> c = length es \<and> c < UINT16_MAX))"

definition lp_pos :: "bytes list \<Rightarrow> nat \<Rightarrow> nat" where
  "lp_pos es i = 6 + length (body (take i es))"

text \<open>Header fields.\<close>

lemma lpGetTotalBytes_hdr: "n < 2 ^ 32 \<Longrightarrow> lpGetTotalBytes (lp_hdr n c @ xs) = Inr n"
  by (simp add: lpGetTotalBytes_def rd_le_ok mem_read_def lp_hdr_def le_uint_le_bytes)

lemma lpGetNumElements_hdr: "c < 2 ^ 16 \<Longrightarrow> lpGetNumElements (lp_hdr n c @ xs) = Inr c"
  by (simp add: lpGetNumElements_def rd_le_ok mem_read_def lp_hdr_def le_uint_le_bytes)

lemma lpSetTotalBytes_hdr: "lpSetTotalBytes (lp_hdr n c @ xs) m = lp_hdr m c @ xs"
  by (simp add: lpSetTotalBytes_def mem_write_def lp_hdr_def)

lemma lpSetNumElements_hdr: "lpSetNumElements (lp_hdr n c @ xs) (int d) = lp_hdr n d @ xs"
  by (simp add: lpSetNumElements_def mem_write_def lp_hdr_def)

lemmas hdr_simps = lpGetTotalBytes_hdr lpGetNumElements_hdr lpSetTotalBytes_hdr lpSetNumElements_hdr

section \<open>One entry inside a listpack\<close>

text \<open>The facts about the entry at offset \<open>p\<close> of a listpack of \<open>n\<close> bytes.\<close>

lemma entry_context:
  assumes lp: "lp = A @ entry e @ C" and e: "enc_ok e" and A: "6 \<le> length A"
    and n: "length A + entry_len e < n" "n < 2 ^ 32"
  shows "lp_entrylen lp (length A) = Inr (entry_len e)"
    and "lpSkip lp (length A) = Inr (length A + entry_len e)"
    and "lpDecodeBacklen lp (length A + entry_len e - 1) = Inr (length e)"
    and "lpValidateNext lp (Some (length A)) n = Inr (True, Some (length A + entry_len e))"
    and "rd lp (length A) = Inr (hd e)"
proof -
  let ?L = "entry_len e"
  have lp': "lp = A @ e @ (lpEncodeBacklen (length e) @ C)" by (simp add: lp entry_def)
  have sz: "lpCurrentEncodedSizeUnsafe lp (length A) = Inr (length e)"
    using rleD [OF rle_size [of e 0 A "lpEncodeBacklen (length e) @ C"]] e by (simp add: lp' enc_ok_def)
  show el: "lp_entrylen lp (length A) = Inr ?L" using n by (simp add: lp_entrylen_def sz)
  show "lpSkip lp (length A) = Inr (length A + ?L)" using n by (simp add: lpSkip_def el)
  have "length e < 2 ^ 35" using n by simp
  then show dec: "lpDecodeBacklen lp (length A + ?L - 1) = Inr (length e)"
    using lpDecodeBacklen_encode [of "length e" "A @ e" C] e
    by (simp add: lp' enc_ok_def add.assoc)
  obtain k where k: "lpCurrentEncodedSizeBytes e 0 = Inr k" "0 < k" "k \<le> length e"
    using e by (rule enc_ok_size_bytes)
  have kb: "lpCurrentEncodedSizeBytes lp (length A) = Inr k"
    using rleD [OF rle_size_bytes [of e 0 A "lpEncodeBacklen (length e) @ C"]] k by (simp add: lp')
  show b: "rd lp (length A) = Inr (hd e)" using e by (simp add: lp' rd_def nth_append enc_ok_def hd_conv_nth)
  have oor: "\<not> out_of_range n (length A)" "\<not> out_of_range n (length A + k)" "\<not> out_of_range n (length A + ?L)"
    using A n k by (simp_all add: out_of_range_def)
  show "lpValidateNext lp (Some (length A)) n = Inr (True, Some (length A + ?L))"
    using oor k n e dec by (simp add: lpValidateNext_def b kb sz enc_ok_def Let_def)
qed

section \<open>Traversal\<close>

lemma lp_repE:
  assumes "lp_rep lp es"
  obtains c junk where "lp = lp_hdr (7 + length (body es)) c @ body es @ LP_EOF # junk"
    "c = UINT16_MAX \<or> c = length es \<and> c < UINT16_MAX" "7 + length (body es) < 2 ^ 32" "c < 2 ^ 16"
  using assms unfolding lp_rep_def by fastforce

lemma lp_rep_enc_ok: "lp_rep lp es \<Longrightarrow> i < length es \<Longrightarrow> enc_ok (es ! i)"
  by (simp add: lp_rep_def)

lemma lp_rep_total: "lp_rep lp es \<Longrightarrow> lpGetTotalBytes lp = Inr (7 + length (body es))"
  by (erule lp_repE) (simp add: hdr_simps)

lemma lp_pos_0 [simp]: "lp_pos es 0 = 6"
  by (simp add: lp_pos_def)

lemma lp_pos_Suc: "i < length es \<Longrightarrow> lp_pos es (Suc i) = lp_pos es i + entry_len (es ! i)"
  by (simp add: lp_pos_def take_Suc_conv_app_nth)

lemma lp_pos_le: "lp_pos es i \<le> 6 + length (body es)"
proof -
  have "body es = body (take i es) @ body (drop i es)" by (metis append_take_drop_id body_simps(3))
  then show ?thesis by (simp add: lp_pos_def)
qed

lemma lp_pos_length: "length es \<le> i \<Longrightarrow> lp_pos es i = 6 + length (body es)"
  by (simp add: lp_pos_def)

text \<open>The block around the entry \<open>i\<close>.\<close>

lemma lp_rep_split:
  assumes "lp_rep lp es" "i < length es"
  obtains A C where "lp = A @ entry (es ! i) @ C" "length A = lp_pos es i" "enc_ok (es ! i)"
    "6 \<le> lp_pos es i" "lp_pos es i + entry_len (es ! i) < 7 + length (body es)" "7 + length (body es) < 2 ^ 32"
proof -
  obtain c junk where lp: "lp = lp_hdr (7 + length (body es)) c @ body es @ LP_EOF # junk"
    and n: "7 + length (body es) < 2 ^ 32"
    using assms(1) by (rule lp_repE)
  have es: "es = take i es @ es ! i # drop (Suc i) es" using assms(2) by (rule id_take_nth_drop)
  have b: "body es = body (take i es) @ entry (es ! i) @ body (drop (Suc i) es)" by (subst es) simp
  show thesis
  proof (rule that)
    show "lp = (lp_hdr (7 + length (body es)) c @ body (take i es)) @ entry (es ! i) @ (body (drop (Suc i) es) @ LP_EOF # junk)"
      by (subst lp) (simp add: b)
    show "length (lp_hdr (7 + length (body es)) c @ body (take i es)) = lp_pos es i" by (simp add: lp_pos_def)
    show "lp_pos es i + entry_len (es ! i) < 7 + length (body es)"
      using lp_pos_le [of es "Suc i"] assms(2) by (simp add: lp_pos_Suc)
  qed (use assms n in \<open>simp_all add: lp_rep_enc_ok lp_pos_def\<close>)
qed

lemma lp_rep_entry:
  assumes "lp_rep lp es" "i < length es"
  shows "lp_entrylen lp (lp_pos es i) = Inr (entry_len (es ! i))"
    and "lpSkip lp (lp_pos es i) = Inr (lp_pos es (Suc i))"
    and "lpDecodeBacklen lp (lp_pos es (Suc i) - 1) = Inr (length (es ! i))"
    and "lpValidateNext lp (Some (lp_pos es i)) (7 + length (body es)) = Inr (True, Some (lp_pos es (Suc i)))"
    and "rd lp (lp_pos es i) = Inr (hd (es ! i))"
    and "hd (es ! i) \<noteq> LP_EOF"
proof -
  obtain A C where *: "lp = A @ entry (es ! i) @ C" "length A = lp_pos es i" "enc_ok (es ! i)"
    "6 \<le> lp_pos es i" "lp_pos es i + entry_len (es ! i) < 7 + length (body es)" "7 + length (body es) < 2 ^ 32"
    using assms by (rule lp_rep_split)
  note c = entry_context [OF *(1,3), unfolded *(2), OF *(4-6)]
  show "lp_entrylen lp (lp_pos es i) = Inr (entry_len (es ! i))"
    "lpSkip lp (lp_pos es i) = Inr (lp_pos es (Suc i))"
    "lpDecodeBacklen lp (lp_pos es (Suc i) - 1) = Inr (length (es ! i))"
    "lpValidateNext lp (Some (lp_pos es i)) (7 + length (body es)) = Inr (True, Some (lp_pos es (Suc i)))"
    "rd lp (lp_pos es i) = Inr (hd (es ! i))"
    using c assms(2) by (simp_all add: lp_pos_Suc)
  show "hd (es ! i) \<noteq> LP_EOF" using *(3) by (simp add: enc_ok_def)
qed

lemma lp_rep_bounds:
  assumes "lp_rep lp es" "i < length es"
  shows "6 \<le> lp_pos es i" "lp_pos es i + entry_len (es ! i) < 2 ^ 32"
  by (rule lp_rep_split [OF assms], simp, rule lp_rep_split [OF assms], simp)

lemma lp_rep_eof:
  assumes "lp_rep lp es"
  shows "rd lp (6 + length (body es)) = Inr LP_EOF"
  using assms by (rule lp_repE) (simp add: rd_def nth_append)

lemma lp_at_pos:
  assumes "lp_rep lp es" "i \<le> length es"
  shows "lp_at lp (lp_pos es i) = Inr (if i < length es then Some (lp_pos es i) else None)"
proof (cases "i < length es")
  case True
  then show ?thesis using lp_rep_entry [OF assms(1) True] lp_rep_total [OF assms(1)]
    by (simp add: lp_at_def lpBytes_def lpAssertValidEntry_def)
next
  case False
  then show ?thesis using lp_rep_eof [OF assms(1)] lp_rep_total [OF assms(1)]
    by (simp add: lp_at_def lpBytes_def lp_pos_length)
qed

text \<open>The pointer to element \<open>i\<close>, NULL past the end.\<close>

definition lp_ptr :: "bytes list \<Rightarrow> nat \<Rightarrow> nat option" where
  "lp_ptr es i = (if i < length es then Some (lp_pos es i) else None)"

lemma lpFirst_rep: "lp_rep lp es \<Longrightarrow> lpFirst lp = Inr (lp_ptr es 0)"
  using lp_at_pos [of lp es 0] by (simp add: lpFirst_def lp_ptr_def)

lemma lpNext_rep: "lp_rep lp es \<Longrightarrow> i < length es \<Longrightarrow> lpNext lp (lp_pos es i) = Inr (lp_ptr es (Suc i))"
  using lp_at_pos [of lp es "Suc i"] by (simp add: lpNext_def lp_rep_entry lp_ptr_def)

lemma lpPrev_rep:
  assumes "lp_rep lp es" "i \<le> length es"
  shows "lpPrev lp (lp_pos es i) = Inr (if i = 0 then None else Some (lp_pos es (i - 1)))"
proof (cases i)
  case (Suc j)
  then have j: "j < length es" using assms(2) by simp
  note e = lp_rep_entry [OF assms(1) j]
  note A = lp_rep_bounds [OF assms(1) j]
  have p: "lp_pos es (Suc j) = lp_pos es j + entry_len (es ! j)" using j by (rule lp_pos_Suc)
  have g: "0 < entry_len (es ! j)" using lpEncodeBacklen_size_bounds(1) [of "length (es ! j)"] by simp
  have q: "nat ((int (lp_pos es (Suc j)) - 1 - (int (entry_len (es ! j) mod 2 ^ 64) - 1)) mod 2 ^ 32) = lp_pos es j"
    using A p by simp
  have "lp_pos es (Suc j) \<noteq> 6" "lp_pos es (Suc j) \<noteq> 0" using A g p by linarith+
  then show ?thesis using e q lp_rep_total [OF assms(1)]
    by (simp add: Suc lpPrev_def Let_def lpBytes_def lpAssertValidEntry_def)
qed (simp add: lpPrev_def)

lemma lpLast_rep:
  assumes "lp_rep lp es"
  shows "lpLast lp = Inr (if es = [] then None else Some (lp_pos es (length es - 1)))"
  using lpPrev_rep [OF assms, of "length es"] lp_rep_total [OF assms]
  by (simp add: lpLast_def lp_pos_length)

lemma entry_len_ge2: "enc_ok e \<Longrightarrow> 2 \<le> entry_len e"
  using lpEncodeBacklen_size_bounds(1) [of "length e"] by (cases e) (simp_all add: enc_ok_def)

lemma length_body: "\<forall>e \<in> set es. enc_ok e \<Longrightarrow> 2 * length es \<le> length (body es)"
proof (induction es)
  case (Cons e es)
  then show ?case using entry_len_ge2 [of e] by simp
qed simp

lemma lp_rep_length_less:
  assumes "lp_rep lp es"
  shows "2 * length es + 7 \<le> length lp" "length es < 2 ^ 31"
proof -
  have "2 * length es \<le> length (body es)" using assms by (intro length_body) (simp add: lp_rep_def)
  moreover obtain c junk where "lp = lp_hdr (7 + length (body es)) c @ body es @ LP_EOF # junk"
    "7 + length (body es) < 2 ^ 32" using assms by (rule lp_repE)
  ultimately show "2 * length es + 7 \<le> length lp" "length es < 2 ^ 31" by simp_all
qed

lemma lpLength_loop_rep:
  assumes "lp_rep lp es" "length es - i \<le> n" "count + (length es - i) < 2 ^ 32"
  shows "lpLength_loop n lp (lp_ptr es i) count = Inr (count + (length es - i))"
  using assms(2,3)
proof (induction n arbitrary: i count)
  case 0
  then show ?case by (simp add: lp_ptr_def)
next
  case (Suc n)
  show ?case
  proof (cases "i < length es")
    case True
    then show ?thesis
      using Suc.prems Suc.IH [of "Suc i" "count + 1"] lpNext_rep [OF assms(1) True]
      by (simp add: lp_ptr_def)
  qed (use Suc in \<open>simp add: lp_ptr_def\<close>)
qed

lemma lpLength_rep:
  assumes "lp_rep lp es"
  shows "\<exists>lp'. lpLength lp = Inr (length es, lp') \<and> lp_rep lp' es"
proof -
  obtain c junk where lp: "lp = lp_hdr (7 + length (body es)) c @ body es @ LP_EOF # junk"
    and c: "c = UINT16_MAX \<or> c = length es \<and> c < UINT16_MAX" "c < 2 ^ 16"
    using assms by (rule lp_repE)
  have n: "lpGetNumElements lp = Inr c" using c by (simp add: lp hdr_simps)
  show ?thesis
  proof (cases "c = UINT16_MAX")
    case True
    have "lpLength_loop (length lp) lp (lp_ptr es 0) 0 = Inr (length es)"
      using lpLength_loop_rep [OF assms, of 0 "length lp" 0] lp_rep_length_less [OF assms] by simp
    then have "lpLength lp = Inr (length es, if length es < UINT16_MAX then lpSetNumElements lp (int (length es)) else lp)"
      using n True assms by (simp add: lpLength_def lpFirst_rep)
    moreover have "lp_rep (if length es < UINT16_MAX then lpSetNumElements lp (int (length es)) else lp) es"
      using assms unfolding lp by (auto simp: lp_rep_def hdr_simps)
    ultimately show ?thesis by blast
  next
    case False
    then show ?thesis using n c assms by (auto simp: lpLength_def)
  qed
qed

section \<open>Seeking\<close>

lemma lpSeek_forward_rep:
  "lp_rep lp es \<Longrightarrow> lpSeek_forward lp k (lp_ptr es i) = Inr (lp_ptr es (i + k))"
proof (induction k arbitrary: i)
  case (Suc k)
  then show ?case using Suc.IH [of "Suc i"] by (cases "i < length es") (simp_all add: lp_ptr_def lpNext_rep)
qed (simp add: lp_ptr_def)

lemma lpSeek_backward_rep:
  assumes "lp_rep lp es" "i < length es"
  shows "lpSeek_backward lp k (Some (lp_pos es i)) = Inr (if k \<le> i then Some (lp_pos es (i - k)) else None)"
  using assms(2)
proof (induction k arbitrary: i)
  case (Suc k)
  then show ?case using Suc.IH [of "i - 1"] lpPrev_rep [OF assms(1), of i]
    by (cases i) (simp_all add: Suc_le_eq)
qed simp

text \<open>Negative indexes count from the end.\<close>

definition lp_index :: "bytes list \<Rightarrow> int \<Rightarrow> int" where
  "lp_index es index = (if index < 0 then int (length es) + index else index)"

lemma lpSeek_rep:
  assumes "lp_rep lp es"
  shows "lpSeek lp index =
    Inr (if 0 \<le> lp_index es index then lp_ptr es (nat (lp_index es index)) else None)"
proof -
  obtain c junk where lp: "lp = lp_hdr (7 + length (body es)) c @ body es @ LP_EOF # junk"
    and c: "c = UINT16_MAX \<or> c = length es \<and> c < UINT16_MAX" "c < 2 ^ 16"
    using assms by (rule lp_repE)
  have n: "lpGetNumElements lp = Inr c" using c by (simp add: lp hdr_simps)
  have fwd: "rbind (lpFirst lp) (\<lambda>p. lpSeek_forward lp (nat i) p) = Inr (lp_ptr es (nat i))" for i
    using assms lpSeek_forward_rep [of lp es "nat i" 0] by (simp add: lpFirst_rep)
  have bwd: "rbind (lpLast lp) (\<lambda>p. lpSeek_backward lp (nat (-1 - i)) p) =
      Inr (if 0 \<le> int (length es) + i then lp_ptr es (nat (int (length es) + i)) else None)" if "i < 0" for i
  proof (cases "es = []")
    case True
    with that show ?thesis using assms by (simp add: lpLast_rep)
  next
    case False
    then have "lpSeek_backward lp (nat (-1 - i)) (Some (lp_pos es (length es - 1))) =
        Inr (if nat (-1 - i) \<le> length es - 1 then Some (lp_pos es (length es - 1 - nat (-1 - i))) else None)"
      using assms by (intro lpSeek_backward_rep) simp_all
    moreover have "nat (-1 - i) \<le> length es - 1 \<longleftrightarrow> 0 \<le> int (length es) + i"
      using that length_greater_0_conv [of es] False by linarith
    moreover have "length es - 1 - nat (-1 - i) = nat (int (length es) + i)" if "0 \<le> int (length es) + i"
      using that \<open>i < 0\<close> by linarith
    moreover have "nat (int (length es) + i) < length es" if "0 \<le> int (length es) + i"
      using that \<open>i < 0\<close> by linarith
    ultimately show ?thesis using assms False that by (simp add: lpLast_rep lp_ptr_def)
  qed
  show ?thesis
  proof (cases "c = UINT16_MAX")
    case True
    then show ?thesis using fwd bwd [of index] by (simp add: lpSeek_def n Let_def lp_index_def)
  next
    case False
    define j where "j = lp_index es index"
    have "lpSeek lp index = (if j < 0 then Inr None else if int (length es) \<le> j then Inr None
        else if int (length es) div 2 < j
        then rbind (lpLast lp) (\<lambda>p. lpSeek_backward lp (nat (-1 - (j - int (length es)))) p)
        else rbind (lpFirst lp) (\<lambda>p. lpSeek_forward lp (nat j) p))"
      using False c by (simp add: lpSeek_def n Let_def lp_index_def j_def)
    moreover have "lp_ptr es (nat j) = None" if "int (length es) \<le> j"
      using that by (simp add: lp_ptr_def le_nat_iff)
    ultimately show ?thesis using fwd [of j] bwd [of "j - int (length es)"]
      unfolding j_def [symmetric] by simp
  qed
qed

section \<open>Reading elements\<close>

text \<open>The string an element denotes: integers in their canonical decimal form.\<close>

fun val_text :: "lpval \<Rightarrow> bytes" where
  "val_text (VStr s) = s"
| "val_text (VInt v) = sdec v"

definition lp_text :: "bytes list \<Rightarrow> bytes list" where
  "lp_text es = map (val_text \<circ> enc_val) es"

text \<open>Decoded integers are 64-bit values.\<close>

definition get_int64 :: "(lp_elem \<times> nat option) lp_res \<Rightarrow> bool" where
  "get_int64 r \<longleftrightarrow> (\<forall>v es. r = Inr (LP_INT v, es) \<longrightarrow> is_int64 v)"

lemma get_int64_if: "get_int64 a \<Longrightarrow> get_int64 b \<Longrightarrow> get_int64 (if c then a else b)"
  by simp

lemma lp_signed_int64:
  assumes "u \<le> m" "h \<le> 2 ^ 63" "m \<le> 2 ^ 63 + h - 1" "h \<le> 2 ^ 63"
  shows "is_int64 (lp_signed u h m)"
proof (cases "h \<le> u")
  case True
  then have "int (m - u) \<le> 9223372036854775807" using assms by simp
  with True show ?thesis by (simp add: lp_signed_def is_int64_def)
next
  case False
  with assms show ?thesis by (simp add: lp_signed_def is_int64_def)
qed

lemma lp_unsigned_int64: "u < 2 ^ 63 \<Longrightarrow> is_int64 (lp_signed u ULLONG_MAX 0)"
  by (simp add: lp_signed_def is_int64_def)

lemma get_int64_le:
  assumes "256 ^ k \<le> m + 1" "h \<le> 2 ^ 63" "m \<le> 2 ^ 63 + h - 1"
  shows "get_int64 (rbind (rd_le e p k) (\<lambda>u. Inr (LP_INT (lp_signed u h m), s)))"
proof (cases "rd_le e p k")
  case (Inr u)
  then have len: "p + k \<le> length e" and u: "u = nat (le_uint (mem_read e p k))" by (simp_all add: rd_le_Inr)
  have "length (mem_read e p k) = k" using len by simp
  then have "le_uint (mem_read e p k) < 256 ^ k" using le_uint_less [of "mem_read e p k"] by simp
  then have "u < 256 ^ k" unfolding u by (simp add: nat_less_iff)
  then have "is_int64 (lp_signed u h m)" using assms by (intro lp_signed_int64) auto
  with Inr show ?thesis by (simp add: get_int64_def)
qed (simp add: get_int64_def)

lemma lpGetWithSize_int64: "get_int64 (lpGetWithSize e 0)"
proof (cases "rd e 0")
  case (Inr b)
  have b: "unat b < 256" using unsigned_less [of b, where ?'a = nat] by simp
  have "unat (b AND 0x7f) < 128" by (simp add: unat_and_masks)
  then have i7: "is_int64 (lp_signed (unat (b AND 0x7f)) ULLONG_MAX 0)"
    by (intro lp_unsigned_int64) simp
  have ibad: "is_int64 (lp_signed (12345678900000000 + unat b) ULLONG_MAX 0)"
    using b by (intro lp_unsigned_int64) simp
  have i13: "get_int64 (rbind (rd e 1) (\<lambda>b1.
      Inr (LP_INT (lp_signed (unat (b AND 0x1f) * 256 + unat b1) (2 ^ 12) 8191), Some 3)))"
  proof (cases "rd e 1")
    case (Inr b1)
    have "unat b1 < 256" using unsigned_less [of b1, where ?'a = nat] by simp
    moreover have "unat (b AND 0x1f) \<le> 31" by (simp add: unat_and_masks)
    ultimately have "unat (b AND 0x1f) * 256 + unat b1 \<le> 8191" by simp
    then have "is_int64 (lp_signed (unat (b AND 0x1f) * 256 + unat b1) (2 ^ 12) 8191)"
      by (rule lp_signed_int64) simp_all
    with Inr show ?thesis by (simp add: get_int64_def)
  qed (simp add: get_int64_def)
  show ?thesis
    unfolding lpGetWithSize_def Inr rbind_simps Let_def add_0
    by (intro get_int64_if i13 get_int64_le) (use i7 ibad in \<open>auto simp: get_int64_def rbind_Inr\<close>)
qed (simp add: lpGetWithSize_def get_int64_def)

lemma enc_val_int64: "enc_val e = VInt v \<Longrightarrow> is_int64 v"
  using lpGetWithSize_int64 [of e]
  by (auto simp: enc_val_def get_int64_def split: sum.splits lp_elem.splits)

text \<open>The element of entry \<open>i\<close>: an integer, or the place of its string in the block.\<close>

lemma lpGetWithSize_rep:
  assumes "lp_rep lp es" "i < length es"
  obtains (int) v where "lpGetWithSize lp (lp_pos es i) = Inr (LP_INT v, Some (entry_len (es ! i)))"
      "enc_val (es ! i) = VInt v"
    | (str) q s where "lpGetWithSize lp (lp_pos es i) = Inr (LP_STR q (length s), Some (entry_len (es ! i)))"
      "enc_val (es ! i) = VStr s" "rd_range lp q (length s) = Inr s" "q + length s \<le> lp_pos es i + length (es ! i)"
proof -
  obtain A C where *: "lp = A @ entry (es ! i) @ C" "length A = lp_pos es i" "enc_ok (es ! i)"
    using assms by (rule lp_rep_split)
  let ?e = "es ! i" and ?C = "lpEncodeBacklen (length (es ! i)) @ C"
  have lp: "lp = A @ ?e @ ?C" using *(1) by (simp add: entry_def)
  obtain el where el: "lpGetWithSize ?e 0 = Inr (el, Some (entry_len ?e))" "\<And>q n. el = LP_STR q n \<Longrightarrow> q + n = length ?e"
    using enc_ok_get [OF *(3)] by metis
  have g: "lpGetWithSize lp (lp_pos es i) = Inr (shift_elem (length A) el, Some (entry_len ?e))"
    using rleD [OF rle_get [of ?e 0 A ?C]] el(1) by (simp add: lp [symmetric] *(2))
  show thesis
  proof (cases el)
    case (LP_INT v)
    then show thesis using int [of v] g el(1) by (simp add: enc_val_def)
  next
    case (LP_STR q n)
    let ?s = "mem_read ?e q n"
    have n: "q + n = length ?e" using el(2) LP_STR by simp
    have len: "length ?s = n" using n by simp
    have "rd_range ?e q n = Inr ?s" using n by (simp add: rd_range_def)
    then have "rd_range lp (length A + q) n = Inr ?s"
      using rleD [OF rle_rd_range [of "length A + q" A q ?e n ?C]] lp by simp
    then show thesis using str [of "length A + q" ?s] g el(1) LP_STR len n by (simp add: enc_val_def *(2))
  qed
qed

lemma lpGet_intbuf_rep:
  assumes "lp_rep lp es" "i < length es" "length intbuf = LP_INTBUF_SIZE"
  shows "lpGet_intbuf lp (lp_pos es i) intbuf = Inr (lp_text es ! i)"
  using assms(1,2)
proof (cases rule: lpGetWithSize_rep)
  case (int v)
  then show ?thesis using assms enc_val_int64 [OF int(2)]
    by (simp add: lpGet_intbuf_def lpGet_def lp_text_def ll2string_text_sdec)
next
  case (str q s)
  then show ?thesis using assms by (simp add: lpGet_intbuf_def lpGet_def lp_text_def)
qed

lemma lpCompare_rep:
  assumes "lp_rep lp es" "i < length es"
  shows "lpCompare lp (lp_pos es i) s = Inr (s = lp_text es ! i)"
proof -
  note e = lp_rep_entry(5,6) [OF assms]
  from assms show ?thesis
  proof (cases rule: lpGetWithSize_rep)
    case (int v)
    have "(case string2ll s of None \<Rightarrow> False | Some w \<Rightarrow> v = w) \<longleftrightarrow> s = sdec v"
      using lltext.compare_by_value [OF enc_val_int64 [OF int(2)], of s] enc_val_int64 [OF int(2)]
      by (simp add: ll2string_text_sdec)
    with int e assms show ?thesis
      by (cases "string2ll s") (auto simp: lpCompare_def lpGet_def lp_text_def)
  next
    case (str q t)
    then show ?thesis using e assms by (auto simp: lpCompare_def lpGet_def lp_text_def)
  qed
qed

section \<open>Searching\<close>

text \<open>The search on the texts: \<open>c\<close> elements are skipped, then every \<open>skip + 1\<close>-th is compared.\<close>

fun lp_find :: "bytes \<Rightarrow> nat \<Rightarrow> nat \<Rightarrow> bytes list \<Rightarrow> nat option" where
  "lp_find s skip c [] = None"
| "lp_find s skip 0 (t # ts) = (if t = s then Some 0 else map_option Suc (lp_find s skip skip ts))"
| "lp_find s skip (Suc c) (t # ts) = map_option Suc (lp_find s skip c ts)"

lemma sdec_not_Nil: "sdec v \<noteq> []"
  by (simp add: sdec_def)

definition venc_ok :: "bytes \<Rightarrow> vencoding \<Rightarrow> bool" where
  "venc_ok s venc \<longleftrightarrow> venc = V_UNTRIED \<or> venc = lpFind_enc s V_UNTRIED"

lemma lpFind_enc_idem: "venc_ok s venc \<Longrightarrow> lpFind_enc s venc = lpFind_enc s V_UNTRIED"
  by (auto simp: venc_ok_def lpFind_enc_def split: option.splits)

lemma lpFind_enc_cmp:
  assumes "is_int64 v"
  shows "(case lpFind_enc s V_UNTRIED of V_INT w \<Rightarrow> v = w | _ \<Rightarrow> False) \<longleftrightarrow> s = sdec v"
proof (cases "32 \<le> length s \<or> length s = 0")
  case True
  then have "s \<noteq> sdec v" using length_sdec [OF assms] sdec_not_Nil [of v] by auto
  with True show ?thesis by (simp add: lpFind_enc_def)
next
  case False
  then show ?thesis
    using lltext.compare_by_value [OF assms, of s] assms
    by (auto simp: lpFind_enc_def ll2string_text_sdec split: option.splits)
qed

lemma lpFind_cmp_rep:
  assumes "lp_rep lp es" "i < length es" "venc_ok s venc"
  obtains venc' where "lpFind_cmp lp (7 + length (body es)) (lp_pos es i) s venc n =
      Inr (lp_text es ! i = s, venc', entry_len (es ! i))" "venc_ok s venc'"
  using assms(1,2)
proof (cases rule: lpGetWithSize_rep)
  case (int v)
  have "(case lpFind_enc s venc of V_INT w \<Rightarrow> v = w | _ \<Rightarrow> False) \<longleftrightarrow> lp_text es ! i = s"
    using lpFind_enc_cmp [OF enc_val_int64 [OF int(2)], of s] lpFind_enc_idem [OF assms(3)] int(2) assms(2)
    by (auto simp: lp_text_def)
  then show thesis using that [of "lpFind_enc s venc"] int lpFind_enc_idem [OF assms(3)]
    by (simp add: lpFind_cmp_def venc_ok_def)
next
  case (str q t)
  have "6 \<le> lp_pos es i" "lp_pos es i + entry_len (es ! i) < 7 + length (body es)"
    using lp_rep_split [OF assms(1,2)] by metis+
  then have "lpFind_cmp lp (7 + length (body es)) (lp_pos es i) s venc n =
      Inr (lp_text es ! i = s, venc, entry_len (es ! i))"
    using str assms(2) by (cases "length s = length t") (auto simp: lpFind_cmp_def lp_text_def)
  then show thesis using that assms(3) by blast
qed

lemma lp_rep_valid:
  assumes "lp_rep lp es" "i \<le> length es"
  shows "lpAssertValidEntry lp (7 + length (body es)) (lp_pos es i) = Inr ()"
proof (cases "i < length es")
  case False
  then show ?thesis using lp_rep_eof [OF assms(1)]
    by (simp add: lpAssertValidEntry_def lpValidateNext_def lp_pos_length out_of_range_def)
qed (simp add: lpAssertValidEntry_def lp_rep_entry(4) [OF assms(1)])

text \<open>The end of an iteration: the next entry is checked, and the scan goes on or ends.\<close>

lemma lpFind_continue:
  assumes "lp_rep lp es" "i < length es" "q = lp_pos es (Suc i)" "n = 7 + length (body es)"
  shows "rbind (if n \<le> q + 8 then lpAssertValidEntry lp n q else lp_assert (6 \<le> q \<and> q < n)) (\<lambda>_.
      rbind (rd lp q) (\<lambda>b. if b = LP_EOF then rbind (lp_assert (q + 1 = n)) (\<lambda>_. Inr None) else X)) =
    (if Suc i = length es then Inr None else X)"
proof -
  have q: "q < n" "6 \<le> q" using lp_pos_le [of es "Suc i"] assms(3,4) by (simp_all add: lp_pos_def)
  have valid: "lpAssertValidEntry lp n q = Inr ()"
    using lp_rep_valid [OF assms(1), of "Suc i"] assms(2-4) by simp
  have next_byte: "rd lp q = Inr (if Suc i = length es then LP_EOF else hd (es ! Suc i))"
    using lp_rep_eof [OF assms(1)] lp_rep_entry(5) [OF assms(1), of "Suc i"] assms(2,3)
    by (auto simp: lp_pos_length)
  show ?thesis
  proof (cases "Suc i = length es")
    case True
    then have "q + 1 = n" using assms(3,4) by (simp add: lp_pos_length)
    with True q valid next_byte show ?thesis by simp
  next
    case False
    then have "hd (es ! Suc i) \<noteq> LP_EOF" using lp_rep_entry(6) [OF assms(1), of "Suc i"] assms(2) by simp
    with False q valid next_byte show ?thesis by simp
  qed
qed

lemma lpFind_loop_step:
  assumes "lp_rep lp es" "i < length es" "venc_ok s venc"
  obtains venc' m where "venc_ok s venc'"
    "lpFind_loop (Suc n) lp (7 + length (body es)) (lp_pos es i) s skip c venc k =
      (if c = 0 \<and> lp_text es ! i = s then Inr (Some (lp_pos es i))
       else if Suc i = length es then Inr None
       else lpFind_loop n lp (7 + length (body es)) (lp_pos es (Suc i)) s skip
         (if c = 0 then skip else c - 1) venc' m)"
proof -
  have q: "(lp_pos es i + entry_len (es ! i)) mod 2 ^ 32 = lp_pos es (Suc i)"
    using lp_rep_bounds [OF assms(1,2)] assms(2) by (simp add: lp_pos_Suc)
  note cont = lpFind_continue [OF assms(1,2) refl refl]
  show thesis
  proof (cases "c = 0")
    case True
    obtain venc' where cmp: "lpFind_cmp lp (7 + length (body es)) (lp_pos es i) s venc k =
        Inr (lp_text es ! i = s, venc', entry_len (es ! i))" "venc_ok s venc'"
      using assms by (rule lpFind_cmp_rep)
    show thesis
      by (rule that [OF cmp(2)]) (simp only: lpFind_loop.simps True cmp(1) refl if_True rbind_simps prod.case q cont simp_thms)
  next
    case False
    show thesis
      by (rule that [OF assms(3)])
        (simp only: lpFind_loop.simps False if_False rbind_simps prod.case lp_rep_entry(2) [OF assms(1,2)] cont simp_thms)
  qed
qed

lemma lpFind_loop_rep:
  assumes "lp_rep lp es" "i < length es" "venc_ok s venc" "length es - i \<le> n"
  shows "lpFind_loop n lp (7 + length (body es)) (lp_pos es i) s skip c venc k =
    Inr (map_option (\<lambda>j. lp_pos es (i + j)) (lp_find s skip c (drop i (lp_text es))))"
  using assms(2-4)
proof (induction n arbitrary: i c venc k)
  case (Suc n)
  obtain venc' m where step: "venc_ok s venc'"
    "lpFind_loop (Suc n) lp (7 + length (body es)) (lp_pos es i) s skip c venc k =
      (if c = 0 \<and> lp_text es ! i = s then Inr (Some (lp_pos es i))
       else if Suc i = length es then Inr None
       else lpFind_loop n lp (7 + length (body es)) (lp_pos es (Suc i)) s skip
         (if c = 0 then skip else c - 1) venc' m)"
    using lpFind_loop_step [OF assms(1) Suc.prems(1,2)] by metis
  have len: "length (lp_text es) = length es" by (simp add: lp_text_def)
  have d: "drop i (lp_text es) = lp_text es ! i # drop (Suc i) (lp_text es)"
    using Suc.prems(1) by (simp add: Cons_nth_drop_Suc len)
  show ?case
  proof (cases "Suc i = length es")
    case True
    then show ?thesis unfolding step(2) d by (cases c) (simp_all add: len)
  next
    case False
    then have "Suc i < length es" using Suc.prems(1) by simp
    then show ?thesis
      using Suc.IH [of "Suc i" venc' "if c = 0 then skip else c - 1" m] step(1) Suc.prems(3) False
      unfolding step(2) d by (cases c) (simp_all add: option.map_comp comp_def)
  qed
qed simp

lemma lpFind_rep:
  assumes "lp_rep lp es" "i < length es"
  shows "lpFind lp (lp_pos es i) s skip =
    Inr (map_option (\<lambda>j. lp_pos es (i + j)) (lp_find s skip 0 (drop i (lp_text es))))"
proof -
  have "length es \<le> length lp" using lp_rep_length_less(1) [OF assms(1)] by simp
  also have "\<dots> \<le> length lp * (skip + 1)" by simp
  finally show ?thesis
    using lpFind_loop_rep [OF assms, of s V_UNTRIED "length lp * (skip + 1)"] lp_rep_total [OF assms(1)]
    by (simp add: lpFind_def lpBytes_def venc_ok_def)
qed

end
