(* ===== verification/Sequence.thy ===== *)
theory Sequence
  imports Prelude
begin

text \<open>
  The contract of a container that keeps a sequence: elements are pushed at both ends, inserted
  and deleted by index, and read back.  The locale \<open>seq_store\<close> states what every step promises and
  draws the consequences for whole runs; the containers of the program interpret it.
\<close>

datatype 'a seq_op = PushBack 'a | PushFront 'a | InsertAt nat 'a | DeleteAt nat

text \<open>The effect on the list; an index past the end changes nothing.\<close>

fun seq_spec :: "'a seq_op \<Rightarrow> 'a list \<Rightarrow> 'a list" where
  "seq_spec (PushBack x) xs = xs @ [x]"
| "seq_spec (PushFront x) xs = x # xs"
| "seq_spec (InsertAt i x) xs = (if i < length xs then take i xs @ x # drop i xs else xs)"
| "seq_spec (DeleteAt i) xs = take i xs @ drop (Suc i) xs"

fun seq_run :: "('op \<Rightarrow> 's \<Rightarrow> 'e + 's) \<Rightarrow> 'op list \<Rightarrow> 's \<Rightarrow> 'e + 's" where
  "seq_run exec [] s = Inr s"
| "seq_run exec (op # ops) s = (case exec op s of Inl e \<Rightarrow> Inl e | Inr s' \<Rightarrow> seq_run exec ops s')"

locale seq_store =
  fixes rep :: "'s \<Rightarrow> 'a list \<Rightarrow> bool"
    and cap :: "'a list \<Rightarrow> bool"
    and exec :: "'a seq_op \<Rightarrow> 's \<Rightarrow> 'e + 's"
    and get :: "'s \<Rightarrow> nat \<Rightarrow> 'e + 'a option"
  assumes exec: "rep s xs \<Longrightarrow> cap (seq_spec op xs) \<Longrightarrow> \<exists>s'. exec op s = Inr s' \<and> rep s' (seq_spec op xs)"
    and get: "rep s xs \<Longrightarrow> get s i = Inr (if i < length xs then Some (xs ! i) else None)"
begin

lemma run:
  assumes "rep s xs" "\<forall>k \<le> length ops. cap (fold seq_spec (take k ops) xs)"
  shows "\<exists>s'. seq_run exec ops s = Inr s' \<and> rep s' (fold seq_spec ops xs)"
  using assms
proof (induction ops arbitrary: s xs)
  case (Cons op ops)
  have "cap (seq_spec op xs)" using Cons.prems(2) by (auto dest: spec [of _ 1])
  then obtain s' where s': "exec op s = Inr s'" "rep s' (seq_spec op xs)" using exec Cons.prems(1) by blast
  have "\<forall>k \<le> length ops. cap (fold seq_spec (take k ops) (seq_spec op xs))"
    using Cons.prems(2) by (auto dest: spec [of _ "Suc _"])
  then show ?case using Cons.IH [OF s'(2)] s'(1) by simp
qed simp

text \<open>Reading after a run.\<close>

lemma run_get:
  assumes "rep s xs" "\<forall>k \<le> length ops. cap (fold seq_spec (take k ops) xs)"
  shows "\<exists>s'. seq_run exec ops s = Inr s' \<and> rep s' (fold seq_spec ops xs) \<and>
    (\<forall>i. get s' i = Inr (if i < length (fold seq_spec ops xs) then Some (fold seq_spec ops xs ! i) else None))"
  using run [OF assms] get by blast

end

end
