(* ===== verification/Listpack_Edit.thy ===== *)
theory Listpack_Edit
  imports Listpack_Rep Sequence
begin

text \<open>
  The editing functions of \<^verbatim>\<open>src/src/src/listpack.c\<close> on a represented listpack: \<open>lpNew\<close>, \<open>lpInsert\<close>
  in its three positions and its deleting form with the wrappers built on it, \<open>lpDeleteRange\<close>,
  \<open>lpDeleteRangeWithEntry\<close>, \<open>lpBatchDelete\<close>, \<open>lpMerge\<close> and \<open>lpDup\<close>.  Each lemma \<open>..._rep\<close> gives the
  elements of the block the function returns, for every allocator that returns at least the size
  asked for.  Listpacks then interpret the contract \<open>seq_store\<close>, and the last section holds the
  properties over the public functions only.
\<close>

section \<open>Moving the tail of a block\<close>

lemma alloc_ok_le: "alloc_ok al \<Longrightarrow> m \<le> n \<Longrightarrow> m \<le> al_usable al n"
  unfolding alloc_ok_def using order_trans by blast

lemma lp_realloc_prefix:
  assumes "alloc_ok al" "length A \<le> n"
  obtains J where "lp_realloc al (A @ X) n = A @ J" "n \<le> length (A @ J)"
proof
  have u: "n \<le> al_usable al n" using assms(1) by (simp add: alloc_ok_le)
  let ?J = "take (al_usable al n - length A) X @ map (al_junk al) [length (A @ X)..<al_usable al n]"
  show eq: "lp_realloc al (A @ X) n = A @ ?J" using assms(2) u by (simp add: lp_realloc_def mem_realloc_def)
  show "n \<le> length (A @ ?J)" using u length_mem_realloc [of "al_junk al" "A @ X"]
    unfolding eq [symmetric] by (simp add: lp_realloc_def)
qed

lemma wr_move_tail:
  assumes "k + length Y \<le> length (R @ Y @ J)"
  obtains G J' where "wr_move (P @ R @ Y @ J) (length P + k) (length P + length R) (length Y) = Inr (P @ G @ Y @ J')"
    "length G = k"
proof
  let ?L = "P @ R @ Y @ J"
  show "length (take k (R @ Y @ J)) = k" using assms by simp
  have "mem_read ?L (length P + length R) (length Y) = Y" by (simp add: mem_read_def)
  then show "wr_move ?L (length P + k) (length P + length R) (length Y) =
      Inr (P @ take k (R @ Y @ J) @ Y @ drop (length P + k + length Y) ?L)"
    using assms by (simp add: wr_move_def mem_move_def mem_write_def)
qed

lemma wr_at: "length N = length G \<Longrightarrow> wr (P @ G @ Z) (length P) N = Inr (P @ N @ Z)"
  by (simp add: wr_def mem_write_def)

lemma lpInsert_room_ok:
  assumes "alloc_ok al" "old = length (P @ R @ Y)" "new = length P + k + length Y"
  obtains G J' where "lpInsert_room al (P @ R @ Y @ J) (length P) k (length R) old new = Inr (P @ G @ Y @ J')"
    "length G = k"
proof -
  let ?lp = "P @ R @ Y @ J"
  let ?lp1 = "if old < new \<and> length ?lp < new then lp_realloc al ?lp new else ?lp"
  obtain J1 where J1: "?lp1 = P @ R @ Y @ J1" "k + length Y \<le> length (R @ Y @ J1)"
  proof (cases "old < new \<and> length ?lp < new")
    case True
    then obtain J1 where "lp_realloc al (?lp @ []) new = ?lp @ J1" "new \<le> length (?lp @ J1)"
      using lp_realloc_prefix [OF assms(1), of ?lp new "[]"] by auto
    then show thesis using True assms(3) by (intro that [of "J @ J1"]) simp_all
  next
    case False
    then have "?lp1 = P @ R @ Y @ J" by (simp only: if_False)
    then show thesis using False assms by (intro that [of J]) auto
  qed
  obtain G J2 where m: "wr_move (P @ R @ Y @ J1) (length P + k) (length P + length R) (length Y) = Inr (P @ G @ Y @ J2)"
    and G: "length G = k"
    using J1(2) by (rule wr_move_tail)
  obtain J3 where J3: "lp_realloc al ((P @ G @ Y) @ J2) new = (P @ G @ Y) @ J3"
    using lp_realloc_prefix [OF assms(1), of "P @ G @ Y" new J2] by (auto simp: assms(3) G)
  have "old - length P - length R = length Y" "\<not> old < length P + length R" using assms(2) by simp_all
  then have "lpInsert_room al ?lp (length P) k (length R) old new =
      Inr (P @ G @ Y @ (if new < old then J3 else J2))"
    using m J3 unfolding lpInsert_room_def Let_def J1(1) by simp
  with G show thesis by (intro that)
qed

section \<open>Inserting, replacing and deleting one entry\<close>

definition arg_ok :: "lp_arg \<Rightarrow> bool" where
  "arg_ok ele \<longleftrightarrow> ele = ELE_NULL \<or> enc_ok (lp_arg_enc ele) \<and> lp_arg_enclen ele = length (lp_arg_enc ele)"

definition arg_list :: "lp_arg \<Rightarrow> bytes list" where
  "arg_list ele = (if ele = ELE_NULL then [] else [lp_arg_enc ele])"

text \<open>The list with \<open>k\<close> elements at \<open>i\<close> replaced by \<open>xs\<close>.\<close>

definition lsplice :: "'a list \<Rightarrow> nat \<Rightarrow> nat \<Rightarrow> 'a list \<Rightarrow> 'a list" where
  "lsplice es i k xs = take i es @ xs @ drop (i + k) es"

lemma body_split3:
  "body es = body (take i es) @ body (take k (drop i es)) @ body (drop (i + k) es)"
  by (metis append_take_drop_id body_simps(3) drop_drop add.commute)

lemma length_body_splice:
  "length (body (lsplice es i k xs)) + length (body (take k (drop i es))) = length (body es) + length (body xs)"
  by (subst body_split3 [of es i k]) (simp add: lsplice_def)

lemma lp_ptr_splice:
  assumes "i + k \<le> length es"
  shows "lp_ptr (lsplice es i k xs) i = (if xs = [] \<and> i + k = length es then None else Some (lp_pos es i))"
proof -
  have "take i (lsplice es i k xs) = take i es" using assms by (simp add: lsplice_def min_def)
  then show ?thesis using assms by (cases xs) (auto simp: lp_ptr_def lp_pos_def lsplice_def)
qed

text \<open>The count of the header after the operation.\<close>

definition count_ok :: "nat \<Rightarrow> 'a list \<Rightarrow> bool" where
  "count_ok c es \<longleftrightarrow> c = UINT16_MAX \<or> c = length es \<and> c < UINT16_MAX"

lemma lpInsert_count_ok:
  assumes "count_ok c es" "i + k \<le> length es" "k = (if replace then 1 else 0)" "ele = ELE_NULL \<longrightarrow> replace"
  obtains c' where "lpInsert_count (lp_hdr n c @ xs) replace (ele = ELE_NULL) = Inr (lp_hdr n c' @ xs)"
    "count_ok c' (lsplice es i k (arg_list ele))"
proof -
  have c: "c < 2 ^ 16" using assms(1) by (auto simp: count_ok_def)
  have g: "lpGetNumElements (lp_hdr n c @ xs) = Inr c" using c by (rule lpGetNumElements_hdr)
  have s1: "lpSetNumElements (lp_hdr n c @ xs) (int c + 1) = lp_hdr n (Suc c) @ xs"
    using lpSetNumElements_hdr [of n c xs "Suc c"] by (simp add: add.commute)
  have s2: "lpSetNumElements (lp_hdr n c @ xs) (int c - 1) = lp_hdr n (c - 1) @ xs" if "0 < c"
    using lpSetNumElements_hdr [of n c xs "c - 1"] that by (simp add: of_nat_diff)
  show thesis
  proof (cases "c = UINT16_MAX \<or> replace \<and> ele \<noteq> ELE_NULL")
    case True
    then show thesis using assms
      by (intro that [of c]) (auto simp: lpInsert_count_def g count_ok_def lsplice_def arg_list_def)
  next
    case False
    then have F: "c \<noteq> UINT16_MAX" "replace \<longrightarrow> ele = ELE_NULL" and ce: "c = length es" "c < UINT16_MAX"
      using assms(1) by (auto simp: count_ok_def)
    show thesis
    proof (rule that)
      have "0 < c" if "ele = ELE_NULL" using ce assms that by (cases es) simp_all
      then show "lpInsert_count (lp_hdr n c @ xs) replace (ele = ELE_NULL) =
          Inr (lp_hdr n (if ele = ELE_NULL then c - 1 else Suc c) @ xs)"
        using F s1 s2 by (auto simp: lpInsert_count_def g)
      show "count_ok (if ele = ELE_NULL then c - 1 else Suc c) (lsplice es i k (arg_list ele))"
        using F ce assms by (auto simp: count_ok_def lsplice_def arg_list_def)
    qed
  qed
qed

lemma lp_rep_count:
  "lp_rep lp es \<longleftrightarrow> (\<forall>e \<in> set es. enc_ok e) \<and> 7 + length (body es) \<le> UINT32_MAX \<and>
     (\<exists>c junk. lp = lp_hdr (7 + length (body es)) c @ body es @ LP_EOF # junk \<and> count_ok c es)"
  by (simp add: lp_rep_def count_ok_def)

lemma lpInsert_write:
  assumes "arg_ok ele" "length G = length (body (arg_list ele))"
  shows "(if ele \<noteq> ELE_NULL
      then rbind (wr (P @ G @ Z) (length P) (lp_arg_enc ele))
        (\<lambda>lp. wr lp (length P + lp_arg_enclen ele) (lpEncodeBacklen (lp_arg_enclen ele)))
      else Inr (P @ G @ Z)) = Inr (P @ body (arg_list ele) @ Z)"
proof (cases "ele = ELE_NULL")
  case False
  let ?e = "lp_arg_enc ele"
  have n: "lp_arg_enclen ele = length ?e" using assms(1) False by (simp add: arg_ok_def)
  have G: "G @ Z = take (length ?e) G @ drop (length ?e) G @ Z" by (metis append_assoc append_take_drop_id)
  have w1: "wr (P @ G @ Z) (length P) ?e = Inr (P @ ?e @ drop (length ?e) G @ Z)"
    unfolding G using assms(2) False by (intro wr_at) (simp add: arg_list_def)
  have "wr ((P @ ?e) @ drop (length ?e) G @ Z) (length (P @ ?e)) (lpEncodeBacklen (length ?e)) =
      Inr ((P @ ?e) @ lpEncodeBacklen (length ?e) @ Z)"
    using assms(2) False by (intro wr_at) (simp add: arg_list_def)
  then show ?thesis using False by (simp add: n w1 arg_list_def entry_def)
qed (use assms in \<open>simp add: arg_list_def\<close>)

lemma rd_at: "Y \<noteq> [] \<Longrightarrow> rd (P @ Y @ Z) (length P) = Inr (hd Y)"
  by (cases Y) (simp_all add: rd_def nth_append)

lemma lpInsert_newp:
  assumes "lp_rep lp es" "i + k \<le> length es" "length G = length (body (arg_list ele))" "length P = lp_pos es i"
    and "rd (P @ G @ (body (drop (i + k) es) @ [LP_EOF]) @ J) (lp_pos es i) = Inr b"
  shows "(if ele = ELE_NULL \<and> b = LP_EOF then None else Some (lp_pos es i)) = lp_ptr (lsplice es i k (arg_list ele)) i"
proof (cases "ele = ELE_NULL")
  case True
  let ?Z = "body (drop (i + k) es) @ [LP_EOF]"
  have "b = hd ?Z" using assms(3,5) rd_at [of ?Z P J] True by (simp add: arg_list_def assms(4))
  moreover have "hd ?Z = LP_EOF \<longleftrightarrow> i + k = length es"
  proof (cases "i + k < length es")
    case True
    then show ?thesis using lp_rep_enc_ok [OF assms(1) True]
      by (simp add: Cons_nth_drop_Suc [symmetric] entry_def enc_ok_def)
  qed (use assms(2) in simp)
  ultimately show ?thesis using True assms(2) by (simp add: lp_ptr_splice arg_list_def)
qed (use assms(2) in \<open>simp add: lp_ptr_splice arg_list_def\<close>)

lemma lp_rep_spliceI:
  assumes "lp_rep lp es" "arg_ok ele" "count_ok c (lsplice es i k (arg_list ele))"
    "7 + length (body (lsplice es i k (arg_list ele))) \<le> UINT32_MAX"
  shows "lp_rep (lp_hdr (7 + length (body (lsplice es i k (arg_list ele)))) c @
    body (lsplice es i k (arg_list ele)) @ LP_EOF # J) (lsplice es i k (arg_list ele))"
proof -
  have "\<forall>e \<in> set (lsplice es i k (arg_list ele)). enc_ok e"
    using assms(1,2) by (auto simp: lp_rep_def lsplice_def arg_ok_def arg_list_def dest: in_set_takeD in_set_dropD)
  then show ?thesis using assms(3,4) unfolding lp_rep_count by blast
qed

lemma lpInsert_splice:
  assumes rep: "lp_rep lp es" and "i + k \<le> length es" and k: "k = (if replace then 1 else 0)"
    and wh: "lpInsert_where lp (ele = ELE_NULL) p wh = Inr (lp_pos es i, replace)"
    and ele: "arg_ok ele" "ele = ELE_NULL \<longrightarrow> replace" and al: "alloc_ok al"
    and fits: "7 + length (body (lsplice es i k (arg_list ele))) \<le> UINT32_MAX"
  shows "\<exists>lp'. lpInsert al lp ele p wh = Inr (lp', lp_ptr (lsplice es i k (arg_list ele)) i) \<and>
    lp_rep lp' (lsplice es i k (arg_list ele))"
proof -
  obtain c J where lp: "lp = lp_hdr (7 + length (body es)) c @ body es @ LP_EOF # J"
    and c: "count_ok c es" and "\<forall>e \<in> set es. enc_ok e" "7 + length (body es) \<le> UINT32_MAX"
    using rep unfolding lp_rep_count by blast
  define H where "H = lp_hdr (7 + length (body es)) c"
  define X R Z where "X = body (take i es)" and "R = body (take k (drop i es))" and "Z = body (drop (i + k) es) @ [LP_EOF]"
  let ?es = "lsplice es i k (arg_list ele)"
  have lp': "lp = (H @ X) @ R @ Z @ J" and pos: "lp_pos es i = length (H @ X)"
    and N: "body ?es @ [LP_EOF] = X @ body (arg_list ele) @ Z"
    using body_split3 [of es i k] by (simp_all add: lp H_def X_def R_def Z_def lp_pos_def lsplice_def)
  have old: "7 + length (body es) = length ((H @ X) @ R @ Z)"
    using body_split3 [of es i k] by (simp add: H_def X_def R_def Z_def)
  have new: "7 + length (body es) + length (body (arg_list ele)) - length R = 7 + length (body ?es)"
    using length_body_splice [of es i k "arg_list ele"] by (simp add: R_def)
  have "7 + length (body ?es) = length (H @ X) + length (body (arg_list ele)) + length Z"
    using arg_cong [OF N, of length] by (simp add: H_def)
  then obtain G J' where room: "lpInsert_room al ((H @ X) @ R @ Z @ J) (length (H @ X)) (length (body (arg_list ele)))
      (length R) (7 + length (body es)) (7 + length (body ?es)) = Inr ((H @ X) @ G @ Z @ J')"
    and G: "length G = length (body (arg_list ele))"
    by (rule lpInsert_room_ok [OF al old, of _ "length (body (arg_list ele))" J])
  obtain c' where cnt: "lpInsert_count (lp_hdr (7 + length (body es)) c @ X @ body (arg_list ele) @ Z @ J') replace (ele = ELE_NULL) =
      Inr (lp_hdr (7 + length (body es)) c' @ X @ body (arg_list ele) @ Z @ J')" "count_ok c' ?es"
    by (rule lpInsert_count_ok [OF c assms(2) k ele(2)])
  have repl: "lpInsert_replaced lp (lp_pos es i) replace (7 + length (body es)) = Inr (length R)"
    using lp_rep_entry(1) [OF rep, of i] lp_rep_bounds(1) [OF rep, of i] lp_pos_le [of es "Suc i"] k assms(2)
    by (auto simp: lpInsert_replaced_def R_def lp_pos_Suc take_Suc_conv_app_nth hd_drop_conv_nth)
  have newp: "(if ele = ELE_NULL \<and> b = LP_EOF then None else Some (lp_pos es i)) = lp_ptr ?es i"
    if "rd ((H @ X) @ G @ Z @ J') (lp_pos es i) = Inr b" for b
    using lpInsert_newp [OF rep assms(2) G pos [symmetric]] that unfolding Z_def by blast
  obtain b where b: "rd ((H @ X) @ G @ Z @ J') (lp_pos es i) = Inr b" by (simp add: pos rd_def Z_def)
  have len: "lp_arg_enclen ele + length (if ele \<noteq> ELE_NULL then lpEncodeBacklen (lp_arg_enclen ele) else []) =
      length (body (arg_list ele))"
    using ele(1) by (auto simp: arg_ok_def arg_list_def lp_arg_enclen_def)
  have w: "(if ele \<noteq> ELE_NULL
      then rbind (wr ((H @ X) @ G @ Z @ J') (length (H @ X)) (lp_arg_enc ele))
        (\<lambda>lp. wr lp (length (H @ X) + lp_arg_enclen ele) (lpEncodeBacklen (lp_arg_enclen ele)))
      else Inr ((H @ X) @ G @ Z @ J')) = Inr ((H @ X) @ body (arg_list ele) @ Z @ J')"
    using ele(1) G by (rule lpInsert_write)
  have new': "7 + length (body es) + lp_arg_enclen ele +
      length (if ele \<noteq> ELE_NULL then lpEncodeBacklen (lp_arg_enclen ele) else []) - length R = 7 + length (body ?es)"
    unfolding add.assoc [of _ "lp_arg_enclen ele"] len by (rule new)
  have cnt': "lpInsert_count ((H @ X) @ body (arg_list ele) @ Z @ J') replace (ele = ELE_NULL) =
      Inr (lp_hdr (7 + length (body es)) c' @ X @ body (arg_list ele) @ Z @ J')"
    using cnt(1) by (simp add: H_def)
  have bl: "(if ele \<noteq> ELE_NULL then rbind r (\<lambda>lp. wr lp q (if ele \<noteq> ELE_NULL then bs else [])) else r') =
      (if ele \<noteq> ELE_NULL then rbind r (\<lambda>lp. wr lp q bs) else r')" for r q bs r'
    by simp
  have "lpInsert al lp ele p wh = Inr (lpSetTotalBytes (lp_hdr (7 + length (body es)) c' @ X @ body (arg_list ele) @ Z @ J')
      (7 + length (body ?es)), lp_ptr ?es i)"
    using fits newp [OF b]
    unfolding lpInsert_def Let_def wh rbind_simps split lp_rep_total [OF rep] repl new' len
    unfolding pos lp' room rbind_simps b [unfolded pos] bl w cnt' by simp
  moreover have "lp_rep (lpSetTotalBytes (lp_hdr (7 + length (body es)) c' @ X @ body (arg_list ele) @ Z @ J')
      (7 + length (body ?es))) ?es"
    using lp_rep_spliceI [OF rep ele(1) cnt(2) fits, of J'] N by (simp add: lpSetTotalBytes_hdr lsplice_def X_def Z_def)
  ultimately show ?thesis by blast
qed

lemma lpInsert_where_rep:
  assumes "lp_rep lp es"
  shows "lpInsert_where lp False p LP_BEFORE = Inr (p, False)"
    and "i < length es \<Longrightarrow> lpInsert_where lp False (lp_pos es i) LP_AFTER = Inr (lp_pos es (Suc i), False)"
    and "lpInsert_where lp False p LP_REPLACE = Inr (p, True)"
    and "lpInsert_where lp True p wh = Inr (p, True)"
proof -
  assume "i < length es"
  then have "lpSkip lp (lp_pos es i) = Inr (lp_pos es (Suc i))" using assms by (intro lp_rep_entry)
  moreover have "6 \<le> lp_pos es (Suc i)" by (simp add: lp_pos_def)
  ultimately show "lpInsert_where lp False (lp_pos es i) LP_AFTER = Inr (lp_pos es (Suc i), False)"
    using lp_pos_le [of es "Suc i"] by (simp add: lpInsert_where_def lp_rep_total [OF assms])
qed (simp_all add: lpInsert_where_def)

text \<open>The arguments of the public functions and the room they need.\<close>

lemma length_encode_int: "length (lpEncodeIntegerGetType v) \<le> 9"
  by (simp add: lpEncodeIntegerGetType_def Let_def)

lemma arg_int:
  assumes "is_int64 v"
  shows "arg_ok (ELE_INT (lpEncodeIntegerGetType v))" "arg_list (ELE_INT (lpEncodeIntegerGetType v)) = [lpEncodeIntegerGetType v]"
    "lp_text [lpEncodeIntegerGetType v] = [sdec v]" "length (body [lpEncodeIntegerGetType v]) \<le> 10"
  using encode_int [OF assms] length_encode_int [of v]
  by (simp_all add: arg_ok_def lp_arg_enc_def lp_arg_enclen_def arg_list_def lp_text_def lpEncodeBacklen_size_def)

lemma arg_str:
  assumes "length s < 2 ^ 32 - 5"
  obtains e where "arg_ok (ELE_STR s)" "arg_list (ELE_STR s) = [e]" "lp_text [e] = [s]" "length (body [e]) \<le> length s + 10"
proof (cases "string2ll s")
  case None
  then have "lp_arg_enc (ELE_STR s) = lpEncodeString s" by (simp add: lp_arg_enc_def lpEncodeGetType_def)
  moreover have "snd (lpEncodeGetType s) = length (lpEncodeString s)"
    using None encode_string(3) [OF assms] by (simp add: lpEncodeGetType_def)
  moreover have "length (lpEncodeString s) \<le> length s + 5" using encode_string(3) [OF assms] by simp
  ultimately show thesis
    using encode_string(1,2) [OF assms] lpEncodeBacklen_size_bounds(2) [of "length (lpEncodeString s)"]
    by (intro that [of "lpEncodeString s"])
      (simp_all add: arg_ok_def arg_list_def lp_arg_enclen_def lp_text_def)
next
  case (Some v)
  then have "lp_arg_enc (ELE_STR s) = lpEncodeIntegerGetType v" by (simp add: lp_arg_enc_def lpEncodeGetType_def)
  moreover have "is_int64 v" "s = sdec v" using Some by (simp_all add: string2ll_iff)
  ultimately show thesis using arg_int [of v] Some
    by (intro that [of "lpEncodeIntegerGetType v"])
      (simp_all add: arg_ok_def arg_list_def lp_arg_enc_def lp_arg_enclen_def lpEncodeGetType_def)
qed

lemma length_lp_text [simp]: "length (lp_text es) = length es"
  by (simp add: lp_text_def)

lemma lp_text_one: "lp_text [e] = [hd (lp_text [e])]"
  by (simp add: lp_text_def)

lemma lp_text_splice: "lp_text (lsplice es i k xs) = lsplice (lp_text es) i k (lp_text xs)"
  by (simp add: lp_text_def lsplice_def take_map drop_map)

lemma length_body_splice_le: "length (body (lsplice es i k xs)) \<le> length (body es) + length (body xs)"
  using length_body_splice [of es i k xs] by linarith

definition ins_index :: "lp_where \<Rightarrow> nat \<Rightarrow> nat" where
  "ins_index wh i = (if wh = LP_AFTER then Suc i else i)"

definition ins_text :: "'a list \<Rightarrow> lp_where \<Rightarrow> nat \<Rightarrow> 'a \<Rightarrow> 'a list" where
  "ins_text ts wh i s = (case wh of
     LP_BEFORE \<Rightarrow> take i ts @ s # drop i ts
   | LP_AFTER \<Rightarrow> take (Suc i) ts @ s # drop (Suc i) ts
   | LP_REPLACE \<Rightarrow> ts[i := s])"

lemma ins_text_splice:
  "i < length ts \<Longrightarrow> ins_text ts wh i s = lsplice ts (ins_index wh i) (if wh = LP_REPLACE then 1 else 0) [s]"
  by (cases wh) (simp_all add: ins_text_def ins_index_def lsplice_def upd_conv_take_nth_drop)

lemma lpInsert_rep:
  assumes "lp_rep lp es" "i < length es" "alloc_ok al" and ele: "arg_ok ele" "arg_list ele = [e]"
    and "7 + length (body es) + length (body [e]) \<le> UINT32_MAX"
  shows "\<exists>lp' es'. lpInsert al lp ele (lp_pos es i) wh = Inr (lp', lp_ptr es' (ins_index wh i)) \<and>
    lp_rep lp' es' \<and> lp_text es' = ins_text (lp_text es) wh i (hd (lp_text [e]))"
proof -
  let ?k = "if wh = LP_REPLACE then 1 else 0" and ?j = "ins_index wh i"
  have n: "ele \<noteq> ELE_NULL" using ele(2) by (auto simp: arg_list_def)
  have w: "lpInsert_where lp (ele = ELE_NULL) (lp_pos es i) wh = Inr (lp_pos es ?j, wh = LP_REPLACE)"
    using lpInsert_where_rep [OF assms(1)] assms(2) n by (cases wh) (simp_all add: ins_index_def)
  have j: "?j + ?k \<le> length es" using assms(2) by (cases wh) (simp_all add: ins_index_def)
  have "7 + length (body (lsplice es ?j ?k (arg_list ele))) \<le> UINT32_MAX"
    using assms(6) length_body_splice_le [of es ?j ?k "[e]"] unfolding ele(2) by linarith
  then obtain lp' where "lpInsert al lp ele (lp_pos es i) wh = Inr (lp', lp_ptr (lsplice es ?j ?k [e]) ?j)"
    "lp_rep lp' (lsplice es ?j ?k [e])"
    using lpInsert_splice [OF assms(1) j refl w ele(1) _ assms(3)] n ele(2) by auto
  moreover have "lp_text (lsplice es ?j ?k [e]) = ins_text (lp_text es) wh i (hd (lp_text [e]))"
    using assms(2) lp_text_one [of e] by (simp add: lp_text_splice ins_text_splice)
  ultimately show ?thesis by blast
qed

lemma lpInsertString_rep:
  assumes "lp_rep lp es" "i < length es" "alloc_ok al" "lpBytes lp = Inr n" "n + length s + 10 \<le> UINT32_MAX"
  shows "\<exists>lp' es'. lpInsertString al lp s (lp_pos es i) wh = Inr (lp', lp_ptr es' (ins_index wh i)) \<and>
    lp_rep lp' es' \<and> lp_text es' = ins_text (lp_text es) wh i s"
proof -
  have n: "n = 7 + length (body es)" using assms(1,4) by (simp add: lpBytes_def lp_rep_total)
  then have "length s < 2 ^ 32 - 5" using assms(5) by simp
  then obtain e where "arg_ok (ELE_STR s)" "arg_list (ELE_STR s) = [e]" "lp_text [e] = [s]" "length (body [e]) \<le> length s + 10"
    by (rule arg_str)
  then show ?thesis
    using lpInsert_rep [OF assms(1-3), of "ELE_STR s" e wh] assms(5) n by (simp add: lpInsertString_def)
qed

lemma lpInsertInteger_rep:
  assumes "lp_rep lp es" "i < length es" "alloc_ok al" "lpBytes lp = Inr n" "n + 10 \<le> UINT32_MAX" "is_int64 v"
  shows "\<exists>lp' es'. lpInsertInteger al lp v (lp_pos es i) wh = Inr (lp', lp_ptr es' (ins_index wh i)) \<and>
    lp_rep lp' es' \<and> lp_text es' = ins_text (lp_text es) wh i (sdec v)"
proof -
  have n: "n = 7 + length (body es)" using assms(1,4) by (simp add: lpBytes_def lp_rep_total)
  then show ?thesis
    using lpInsert_rep [OF assms(1-3) arg_int(1,2) [OF assms(6)], of wh] arg_int(3,4) [OF assms(6)] assms(5)
    by (simp add: lpInsertInteger_def)
qed

lemma lpAppend_rep:
  assumes "lp_rep lp es" "alloc_ok al" "lpBytes lp = Inr n" "n + length s + 10 \<le> UINT32_MAX"
  shows "\<exists>lp' es'. lpAppend al lp s = Inr lp' \<and> lp_rep lp' es' \<and> lp_text es' = lp_text es @ [s]"
proof -
  have n: "n = 7 + length (body es)" using assms(1,3) by (simp add: lpBytes_def lp_rep_total)
  then have "length s < 2 ^ 32 - 5" using assms(4) by simp
  then obtain e where e: "arg_ok (ELE_STR s)" "arg_list (ELE_STR s) = [e]" "lp_text [e] = [s]" "length (body [e]) \<le> length s + 10"
    by (rule arg_str)
  have "lpInsert_where lp (ELE_STR s = ELE_NULL) (lp_pos es (length es)) LP_BEFORE = Inr (lp_pos es (length es), False)"
    using lpInsert_where_rep(1) [OF assms(1)] by simp
  then obtain lp' where "lpInsert al lp (ELE_STR s) (6 + length (body es)) LP_BEFORE =
      Inr (lp', lp_ptr (es @ [e]) (length es))" "lp_rep lp' (es @ [e])"
    using lpInsert_splice [OF assms(1) _ refl _ e(1) _ assms(2), of "length es" False "6 + length (body es)" LP_BEFORE]
      assms(4) e(2,4) n by (auto simp: lsplice_def lp_pos_length)
  moreover have "lp_text (es @ [e]) = lp_text es @ [s]" using e(3) by (simp add: lp_text_def)
  ultimately show ?thesis by (auto simp: lpAppend_def lp_rep_total [OF assms(1)])
qed

lemma lpPrepend_rep:
  assumes "lp_rep lp es" "alloc_ok al" "lpBytes lp = Inr n" "n + length s + 10 \<le> UINT32_MAX"
  shows "\<exists>lp' es'. lpPrepend al lp s = Inr lp' \<and> lp_rep lp' es' \<and> lp_text es' = s # lp_text es"
proof (cases "es = []")
  case True
  then show ?thesis using lpAppend_rep [OF assms] lpFirst_rep [OF assms(1)]
    by (simp add: lpPrepend_def lp_ptr_def lp_text_def)
next
  case False
  then show ?thesis using lpInsertString_rep [OF assms(1) _ assms(2-4), of 0 LP_BEFORE] lpFirst_rep [OF assms(1)]
    by (auto simp: lpPrepend_def lp_ptr_def lpInsertString_def ins_text_def)
qed

lemma lpDelete_rep:
  assumes "lp_rep lp es" "i < length es" "alloc_ok al"
  shows "\<exists>lp'. lpDelete al lp (lp_pos es i) = Inr (lp', lp_ptr (lsplice es i 1 []) i) \<and>
    lp_rep lp' (lsplice es i 1 [])"
proof -
  have w: "lpInsert_where lp (ELE_NULL = ELE_NULL) (lp_pos es i) LP_REPLACE = Inr (lp_pos es i, True)"
    using lpInsert_where_rep(4) [OF assms(1)] by simp
  have l: "arg_list ELE_NULL = []" by (simp add: arg_list_def)
  have "7 + length (body (lsplice es i 1 [])) \<le> UINT32_MAX"
    using assms(1) length_body_splice_le [of es i 1 "[]"] by (simp add: lp_rep_def)
  then show ?thesis
    using lpInsert_splice [OF assms(1) _ refl w _ _ assms(3)] assms(2) by (simp add: lpDelete_def l arg_ok_def)
qed

lemma lpNew_rep:
  assumes "alloc_ok al"
  shows "lp_rep (lpNew al capacity) []"
proof -
  let ?n = "if 7 < capacity then capacity else 7"
  have "7 \<le> al_usable al ?n" using assms by (intro alloc_ok_le) simp_all
  then have "7 \<le> length (lp_malloc al ?n)" by (simp add: lp_malloc_def)
  then have "lpNew al capacity = lp_hdr 7 0 @ LP_EOF # drop 7 (lp_malloc al ?n)"
    by (simp add: lpNew_def lpSetTotalBytes_def lpSetNumElements_def mem_write_def lp_hdr_def Let_def)
  then show ?thesis by (auto simp: lp_rep_count count_ok_def intro!: exI [of _ 0])
qed

section \<open>Deleting ranges\<close>

lemma lp_repI:
  "\<forall>e \<in> set es. enc_ok e \<Longrightarrow> 7 + length (body es) \<le> UINT32_MAX \<Longrightarrow> count_ok c es \<Longrightarrow> n = 7 + length (body es) \<Longrightarrow>
   lp_rep (lp_hdr n c @ body es @ LP_EOF # J) es"
  unfolding lp_rep_count by blast

lemma lp_rep_countE:
  assumes "lp_rep lp es"
  obtains c J where "lp = lp_hdr (7 + length (body es)) c @ body es @ LP_EOF # J" "count_ok c es" "c < 2 ^ 16"
    "\<forall>e \<in> set es. enc_ok e" "7 + length (body es) \<le> UINT32_MAX"
  using assms unfolding lp_rep_count count_ok_def by fastforce

lemma lpShrinkToFit_rep:
  assumes "lp_rep lp es" "alloc_ok al"
  shows "\<exists>lp'. lpShrinkToFit al lp = Inr lp' \<and> lp_rep lp' es"
proof -
  obtain c J where lp: "lp = lp_hdr (7 + length (body es)) c @ body es @ LP_EOF # J"
    and c: "count_ok c es" "\<forall>e \<in> set es. enc_ok e" "7 + length (body es) \<le> UINT32_MAX"
    using assms(1) by (rule lp_rep_countE)
  obtain J' where "lp_realloc al ((lp_hdr (7 + length (body es)) c @ body es @ [LP_EOF]) @ J) (7 + length (body es)) =
      (lp_hdr (7 + length (body es)) c @ body es @ [LP_EOF]) @ J'"
    using lp_realloc_prefix [OF assms(2), of "lp_hdr (7 + length (body es)) c @ body es @ [LP_EOF]" "7 + length (body es)" J]
    by auto
  then have "lp_rep (lp_realloc al lp (7 + length (body es))) es" using c lp_repI [of es c _ J'] by (simp add: lp)
  then show ?thesis using assms(1) by (simp add: lpShrinkToFit_def lp_rep_total)
qed

lemma lpDeleteRange_tail_rep:
  assumes "lp_rep lp es" "i < length es"
  shows "lpDeleteRange_tail lp (7 + length (body es)) num (lp_pos es i) d =
    Inr (lp_pos es (i + min num (length es - i)), d + min num (length es - i))"
  using assms(2)
proof (induction num arbitrary: i d)
  case (Suc num)
  have skip: "lpSkip lp (lp_pos es i) = Inr (lp_pos es (Suc i))" using assms(1) Suc.prems by (rule lp_rep_entry)
  show ?case
  proof (cases "Suc i = length es")
    case True
    then show ?thesis using skip lp_rep_eof [OF assms(1)] by (simp add: lp_pos_length)
  next
    case False
    then have i: "Suc i < length es" using Suc.prems by simp
    have "rd lp (lp_pos es (Suc i)) = Inr (hd (es ! Suc i))" "hd (es ! Suc i) \<noteq> LP_EOF"
      using assms(1) i by (rule lp_rep_entry)+
    moreover have "lpAssertValidEntry lp (7 + length (body es)) (lp_pos es (Suc i)) = Inr ()"
      using assms(1) i by (intro lp_rep_valid) simp_all
    moreover have "min (Suc num) (length es - i) = Suc (min num (length es - Suc i))" using i by simp
    ultimately show ?thesis using skip Suc.IH [OF i] by simp
  qed
qed simp

lemma lp_rep_rd_ptr:
  assumes "lp_rep lp es" "i \<le> length es"
  shows "rbind (rd lp (lp_pos es i)) (\<lambda>b. Inr (lp, if b = LP_EOF then None else Some (lp_pos es i))) =
    Inr (lp, lp_ptr es i)"
proof (cases "i < length es")
  case False
  then show ?thesis using lp_rep_eof [OF assms(1)] by (simp add: lp_ptr_def lp_pos_length)
qed (use lp_rep_entry(5,6) [OF assms(1)] in \<open>simp add: lp_ptr_def\<close>)

lemma lpDeleteRangeWithEntry_rep:
  assumes rep: "lp_rep lp es" and i: "i < length es" and al: "alloc_ok al"
  shows "\<exists>lp'. lpDeleteRangeWithEntry al lp (lp_pos es i) num = Inr (lp', lp_ptr (lsplice es i num []) i) \<and>
    lp_rep lp' (lsplice es i num [])"
proof (cases "num = 0")
  case True
  then show ?thesis using assms by (simp add: lpDeleteRangeWithEntry_def lpBytes_def lp_rep_total lsplice_def lp_ptr_def)
next
  case False
  let ?k = "min num (length es - i)"
  let ?es = "lsplice es i num []"
  have es: "?es = lsplice es i ?k []" by (auto simp: lsplice_def min_def)
  have k: "i + ?k \<le> length es" using i by simp
  define X R Z where "X = body (take i es)" and "R = body (take ?k (drop i es))" and "Z = body (drop (i + ?k) es) @ [LP_EOF]"
  obtain c J where lp: "lp = (lp_hdr (7 + length (body es)) c @ X) @ R @ Z @ J"
    and c: "count_ok c es" "c < 2 ^ 16" and ok: "\<forall>e \<in> set es. enc_ok e" "7 + length (body es) \<le> UINT32_MAX"
    using rep by (rule lp_rep_countE) (use body_split3 [of es i ?k] in \<open>simp add: X_def R_def Z_def\<close>)
  have pos: "lp_pos es i = length (lp_hdr (7 + length (body es)) c @ X)" "lp_pos es (i + ?k) = lp_pos es i + length R"
    using body_split3 [of es i ?k] by (simp_all add: lp_pos_def X_def R_def take_add)
  have len: "7 + length (body es) - lp_pos es (i + ?k) = length Z"
    "7 + length (body es) - length R = 7 + length (body ?es)"
    using body_split3 [of es i ?k] pos(1) unfolding es pos(2) by (simp_all add: X_def R_def Z_def lsplice_def)
  obtain J' where mv: "wr_move lp (lp_pos es i) (lp_pos es (i + ?k)) (length Z) =
      Inr ((lp_hdr (7 + length (body es)) c @ X) @ Z @ J')"
    unfolding lp pos
    by (rule wr_move_tail [of 0 Z R J "lp_hdr (7 + length (body es)) c @ X"]) simp_all
  let ?c = "if c = UINT16_MAX then c else c - ?k"
  let ?lp = "lp_hdr (7 + length (body ?es)) ?c @ body ?es @ LP_EOF # J'"
  have "lp_rep ?lp ?es"
    using ok c(1) length_body_splice_le [of es i num "[]"] k
    by (intro lp_repI) (auto simp: lsplice_def count_ok_def dest: in_set_takeD in_set_dropD)
  then obtain lp' where sh: "lpShrinkToFit al ?lp = Inr lp'" "lp_rep lp' ?es" using lpShrinkToFit_rep al by blast
  have p: "lp_pos es i = lp_pos ?es i" using i by (simp add: lp_pos_def lsplice_def)
  have "int (c - ?k) = int c - int ?k" if "c \<noteq> UINT16_MAX" using that c(1) k by (simp add: count_ok_def of_nat_diff)
  then have cnt: "lpGetNumElements (lp_hdr n c @ xs) = Inr c"
    "(if c \<noteq> UINT16_MAX then lpSetNumElements (lp_hdr n c @ xs) (int c - int ?k) else lp_hdr n c @ xs) = lp_hdr n ?c @ xs" for n xs
    using c(2) lpSetNumElements_hdr [of n c xs "c - ?k"] by (auto simp: lpGetNumElements_hdr)
  have blk: "(lp_hdr n m @ X) @ Z @ J' = lp_hdr n m @ body ?es @ LP_EOF # J'" for n m
    unfolding es by (simp add: X_def Z_def lsplice_def)
  have "lpDeleteRangeWithEntry al lp (lp_pos es i) num =
      rbind (rd lp' (lp_pos es i)) (\<lambda>b. Inr (lp', if b = LP_EOF then None else Some (lp_pos es i)))"
    using False sh(1) mv len
    unfolding lpDeleteRangeWithEntry_def lpBytes_def lp_rep_total [OF rep] rbind_simps
      lpDeleteRange_tail_rep [OF rep i] split Let_def len(1)
    by (simp only: if_False rbind_simps mv blk lpSetTotalBytes_hdr pos(2) add_diff_cancel_left' add_0 cnt)
  moreover have "i \<le> length ?es" using i by (simp add: lsplice_def)
  ultimately show ?thesis using lp_rep_rd_ptr [OF sh(2), of i] sh(2) unfolding p by auto
qed

lemma body_split2: "body es = body (take j es) @ body (drop j es)"
  by (metis append_take_drop_id body_simps(3))

lemma lp_truncate_rep:
  assumes rep: "lp_rep lp es" and al: "alloc_ok al" and j: "j < length es" "j < UINT16_MAX"
  shows "\<exists>lp'. rbind (wr lp (lp_pos es j) [LP_EOF]) (\<lambda>lp.
      lpShrinkToFit al (lpSetNumElements (lpSetTotalBytes lp (lp_pos es j + 1)) (int j))) = Inr lp' \<and>
    lp_rep lp' (take j es)"
proof -
  obtain c J where lp: "lp = lp_hdr (7 + length (body es)) c @ body es @ LP_EOF # J"
    and ok: "\<forall>e \<in> set es. enc_ok e" "7 + length (body es) \<le> UINT32_MAX"
    using rep by (rule lp_rep_countE)
  let ?P = "lp_hdr (7 + length (body es)) c @ body (take j es)"
  obtain y Y where "body (drop j es) @ LP_EOF # J = y # Y" by (cases "body (drop j es) @ LP_EOF # J") auto
  then have lp': "lp = ?P @ [y] @ Y"
    using body_split2 [of es j] by (simp add: lp)
  have "wr lp (lp_pos es j) [LP_EOF] = Inr (?P @ [LP_EOF] @ Y)"
    unfolding lp' using wr_at [of "[LP_EOF]" "[y]" ?P Y] by (simp add: lp_pos_def)
  moreover have "lp_pos es j + 1 = 7 + length (body (take j es))" by (simp add: lp_pos_def)
  moreover have "lp_rep (lp_hdr (7 + length (body (take j es))) j @ body (take j es) @ LP_EOF # Y) (take j es)"
    using ok j lp_pos_le [of es j]
    by (intro lp_repI) (auto simp: count_ok_def lp_pos_def dest: in_set_takeD)
  ultimately show ?thesis using lpShrinkToFit_rep [OF _ al] by (simp add: hdr_simps)
qed

lemma lpDeleteRange_rep:
  assumes rep: "lp_rep lp es" and al: "alloc_ok al" and j_def: "j = lp_index es index"
  shows "\<exists>lp'. lpDeleteRange al lp index num = Inr lp' \<and>
    lp_rep lp' (if 0 \<le> j then lsplice es (nat j) num [] else es)"
proof -
  obtain c J where lp: "lp = lp_hdr (7 + length (body es)) c @ body es @ LP_EOF # J" and c: "count_ok c es" "c < 2 ^ 16"
    using rep by (rule lp_rep_countE)
  have n: "lpGetNumElements lp = Inr c" using c by (simp add: lp hdr_simps)
  have seek: "lpSeek lp index = Inr (if 0 \<le> j then lp_ptr es (nat j) else None)"
    using lpSeek_rep [OF rep] by (simp add: j_def)
  have step: "lpDeleteRange al lp index num =
      (if c \<noteq> UINT16_MAX \<and> length es - nat j \<le> num
       then rbind (wr lp (lp_pos es (nat j)) [LP_EOF]) (\<lambda>lp.
         lpShrinkToFit al (lpSetNumElements (lpSetTotalBytes lp (lp_pos es (nat j) + 1)) (int (nat j))))
       else rbind (lpDeleteRangeWithEntry al lp (lp_pos es (nat j)) num) (\<lambda>(lp, _). Inr lp))"
    if h: "0 < num" "0 \<le> j" "nat j < length es"
  proof (cases "c = UINT16_MAX")
    case True
    with h show ?thesis by (simp add: lpDeleteRange_def n seek lp_ptr_def)
  next
    case False
    then have ce: "c = length es" using c(1) by (simp add: count_ok_def)
    then have ix: "(if c \<noteq> UINT16_MAX \<and> index < 0 then int c + index else index) = int (nat j)"
      using False h(2) by (simp add: j_def lp_index_def)
    have "(int c - j) mod 2 ^ 32 = int c - j" using h(2,3) c(2) ce by (intro mod_pos_pos_trivial) simp_all
    then have m: "nat ((int c - int (nat j)) mod 2 ^ 32) = length es - nat j" using h(2) ce by (simp add: nat_diff_distrib)
    have s: "lpSeek lp index = Inr (Some (lp_pos es (nat j)))" using h by (simp add: seek lp_ptr_def)
    have "(num = 0) = False" using h(1) by simp
    then show ?thesis
      unfolding lpDeleteRange_def n rbind_simps s Let_def ix m by (simp only: option.case if_False)
  qed
  consider (none) "num = 0 \<or> j < 0 \<or> length es \<le> nat j"
    | (cut) "0 < num" "0 \<le> j" "nat j < length es" "c \<noteq> UINT16_MAX" "length es - nat j \<le> num"
    | (range) "0 < num" "0 \<le> j" "nat j < length es" "\<not> (c \<noteq> UINT16_MAX \<and> length es - nat j \<le> num)"
    by fastforce
  then show ?thesis
  proof cases
    case none
    then have "lpDeleteRange al lp index num = Inr lp" by (auto simp: lpDeleteRange_def n seek lp_ptr_def)
    then show ?thesis using none rep by (auto simp: lsplice_def)
  next
    case cut
    then have "nat j < UINT16_MAX" using c(1) by (simp add: count_ok_def)
    moreover have "lsplice es (nat j) num [] = take (nat j) es" using cut(5) by (simp add: lsplice_def)
    ultimately show ?thesis using step [OF cut(1-3)] lp_truncate_rep [OF rep al cut(3)] cut(2,4,5) by simp
  next
    case range
    then show ?thesis
      using step [OF range(1-3)] lpDeleteRangeWithEntry_rep [OF rep range(3) al, of num] by auto
  qed
qed

section \<open>Deleting a batch of entries in place\<close>

text \<open>What is left of the elements from \<open>i\<close> on when the indexes \<open>js\<close> go.\<close>

definition kept :: "'a list \<Rightarrow> nat \<Rightarrow> nat list \<Rightarrow> 'a list" where
  "kept es i js = map ((!) es) (filter (\<lambda>j. j \<notin> set js) [i..<length es])"

lemma kept_Nil: "kept es i [] = drop i es"
  by (rule nth_equalityI) (simp_all add: kept_def)

lemma kept_Cons:
  assumes "i < length es" "\<forall>j \<in> set js. i < j"
  shows "kept es i (i # js) = kept es (Suc i) js"
proof -
  have "filter (\<lambda>j. j \<notin> set (i # js)) [Suc i..<length es] = filter (\<lambda>j. j \<notin> set js) [Suc i..<length es]"
    by (rule filter_cong) auto
  then show ?thesis using assms(1) by (simp add: kept_def upt_conv_Cons)
qed

lemma kept_gap:
  assumes "i \<le> j" "j \<le> length es" "\<forall>k \<in> set js. j \<le> k"
  shows "kept es i js = take (j - i) (drop i es) @ kept es j js"
proof -
  have "[i..<length es] = [i..<j] @ [j..<length es]" using assms(1,2) by (metis le_iff_add upt_add_eq_append)
  moreover have "filter (\<lambda>j. j \<notin> set js) [i..<j] = [i..<j]" using assms(3) by (auto simp: filter_id_conv)
  moreover have "map ((!) es) [i..<j] = take (j - i) (drop i es)"
    using assms(1,2) by (intro nth_equalityI) simp_all
  ultimately show ?thesis by (simp add: kept_def)
qed

lemma lp_pos_add: "lp_pos es (i + k) = lp_pos es i + length (body (take k (drop i es)))"
  by (simp add: lp_pos_def take_add)

lemma wr_move_left:
  assumes "length A + length W = src"
  shows "\<exists>W'. wr_move (A @ W @ B @ C) (length A) src (length B) = Inr (A @ B @ W' @ C) \<and> length W' = length W"
proof -
  have "mem_read (A @ W @ B @ C) src (length B) = B" by (simp add: assms [symmetric] mem_read_def)
  then have "wr_move (A @ W @ B @ C) (length A) src (length B) = Inr (A @ B @ drop (length B) (W @ B) @ C)"
    by (simp add: assms [symmetric] wr_move_def mem_move_def mem_write_def)
  moreover have "length (drop (length B) (W @ B)) = length W" by simp
  ultimately show ?thesis by blast
qed

lemma lp_pos_less: "\<forall>e \<in> set es. enc_ok e \<Longrightarrow> i < j \<Longrightarrow> j \<le> length es \<Longrightarrow> lp_pos es i < lp_pos es j"
proof -
  assume es: "\<forall>e \<in> set es. enc_ok e" and ij: "i < j" "j \<le> length es"
  have "enc_ok (es ! i)" using es ij by simp
  then have "lp_pos es i < lp_pos es (Suc i)"
    using entry_len_ge2 [of "es ! i"] lp_pos_Suc [of i es] ij by linarith
  also have "\<dots> \<le> lp_pos es j" using lp_pos_add [of es "Suc i" "j - Suc i"] ij by simp
  finally show ?thesis .
qed

lemma body_drop: "i < length es \<Longrightarrow> body (drop i es) = entry (es ! i) @ body (drop (Suc i) es)"
  by (simp add: Cons_nth_drop_Suc [symmetric])

lemma lpBatchDelete_step:
  assumes ok: "\<forall>e \<in> set es. enc_ok e" "7 + length (body es) < 2 ^ 32"
    and i: "i < length es" "length A = lp_pos es i"
  shows "lpBatchDelete_loop (A @ body (drop i es) @ Z) tot (lp_pos es i # ps) dst =
    (if ps \<noteq> [] \<and> lp_pos es (Suc i) = hd ps then lpBatchDelete_loop (A @ body (drop i es) @ Z) tot ps dst
     else
       let keep_end = (if ps \<noteq> [] then hd ps else tot) in
       rbind (lp_assert (lp_pos es (Suc i) < keep_end)) (\<lambda>_.
       rbind (wr_move (A @ body (drop i es) @ Z) dst (lp_pos es (Suc i)) (keep_end - lp_pos es (Suc i))) (\<lambda>lp.
         lpBatchDelete_loop lp tot ps (dst + (keep_end - lp_pos es (Suc i))))))"
proof -
  let ?e = "es ! i" and ?L = "A @ body (drop i es) @ Z"
  have e: "enc_ok ?e" using ok(1) i(1) by simp
  have L: "?L = A @ entry ?e @ (body (drop (Suc i) es) @ Z)" using i(1) by (simp add: body_drop)
  have b: "6 \<le> length A" "length A + entry_len ?e < 7 + length (body es)"
    using lp_pos_le [of es "Suc i"] i by (simp_all add: lp_pos_def [of es i] lp_pos_Suc)
  note ctx = entry_context [OF L e b ok(2)]
  have "hd ?e \<noteq> LP_EOF" using e by (simp add: enc_ok_def)
  moreover have "lpSkip ?L (lp_pos es i) = Inr (lp_pos es (Suc i))" using ctx(2) i by (simp add: lp_pos_Suc)
  moreover have "rd ?L (lp_pos es i) = Inr (hd ?e)" using ctx(5) i(2) by simp
  ultimately show ?thesis by (simp only: lpBatchDelete_loop.simps rbind_simps lp_assert_simps simp_thms)
qed

lemma lpBatchDelete_loop_rep:
  assumes ok: "\<forall>e \<in> set es. enc_ok e" "7 + length (body es) < 2 ^ 32"
    and "sorted_wrt (<) (i # js)" "\<forall>j \<in> set (i # js). j < length es"
    and "length K + length W = lp_pos es i"
  shows "\<exists>J'. lpBatchDelete_loop (K @ W @ body (drop i es) @ LP_EOF # J) (7 + length (body es))
      (map (lp_pos es) (i # js)) (length K) =
    Inr (K @ body (kept es i (i # js)) @ LP_EOF # J', length K + length (body (kept es i (i # js))) + 1)"
  using assms(3-)
proof (induction js arbitrary: i K W)
  case Nil
  have i: "i < length es" using Nil by simp
  let ?A = "K @ W"  and ?B = "body (drop (Suc i) es) @ [LP_EOF]"
  have A: "length ?A = lp_pos es i" using Nil by simp
  have end_eq: "7 + length (body es) - lp_pos es (Suc i) = length ?B" "lp_pos es (Suc i) < 7 + length (body es)"
    using body_split2 [of es "Suc i"] by (simp_all add: lp_pos_def)
  have "length K + length (W @ entry (es ! i)) = lp_pos es (Suc i)" using A i by (simp add: lp_pos_Suc)
  then obtain W' where "wr_move (K @ (W @ entry (es ! i)) @ ?B @ J) (length K) (lp_pos es (Suc i)) (length ?B) =
      Inr (K @ ?B @ W' @ J)"
    using wr_move_left by blast
  then show ?case
    using lpBatchDelete_step [OF ok i A, of "LP_EOF # J" "7 + length (body es)" "[]" "length K"] end_eq i
    by (auto simp: body_drop kept_Cons kept_Nil)
next
  case (Cons j js)
  have i: "i < length es" "i < j" "j < length es" "\<forall>k \<in> set (j # js). i < k" "\<forall>k \<in> set js. j < k" using Cons.prems by auto
  have A: "length (K @ W) = lp_pos es i" using Cons.prems by simp
  have step: "lpBatchDelete_loop ((K @ W) @ body (drop i es) @ LP_EOF # J) (7 + length (body es))
      (lp_pos es i # map (lp_pos es) (j # js)) (length K) = 
     (if lp_pos es (Suc i) = lp_pos es j then
       lpBatchDelete_loop ((K @ W) @ body (drop i es) @ LP_EOF # J) (7 + length (body es)) (map (lp_pos es) (j # js)) (length K)
      else rbind (lp_assert (lp_pos es (Suc i) < lp_pos es j)) (\<lambda>_.
        rbind (wr_move ((K @ W) @ body (drop i es) @ LP_EOF # J) (length K) (lp_pos es (Suc i)) (lp_pos es j - lp_pos es (Suc i))) (\<lambda>lp.
         lpBatchDelete_loop lp (7 + length (body es)) (map (lp_pos es) (j # js)) (length K + (lp_pos es j - lp_pos es (Suc i))))))"
    unfolding lpBatchDelete_step [OF ok i(1) A] by (simp add: Let_def)
  have Se: "length K + length (W @ entry (es ! i)) = lp_pos es (Suc i)" using A i by (simp add: lp_pos_Suc)
  have "kept es (Suc i) (j # js) = take (j - Suc i) (drop (Suc i) es) @ kept es j (j # js)"
    using i by (intro kept_gap) (auto simp: less_imp_le)
  then have kp: "kept es i (i # j # js) = take (j - Suc i) (drop (Suc i) es) @ kept es j (j # js)"
    using i(1,4) by (simp only: kept_Cons)
  show ?case
  proof (cases "j = Suc i")
    case True
    then show ?thesis
      using Cons.IH [of j K "W @ entry (es ! i)"] Cons.prems Se step kp i(1) by (simp add: body_drop)
  next
    case False
    define B where "B = body (take (j - Suc i) (drop (Suc i) es))"
    have B: "lp_pos es j - lp_pos es (Suc i) = length B" "lp_pos es j = lp_pos es (Suc i) + length B"
      using lp_pos_add [of es "Suc i" "j - Suc i"] i by (simp_all add: B_def)
    have lt: "lp_pos es (Suc i) < lp_pos es j" using ok(1) i False by (intro lp_pos_less) simp_all
    have "body (drop (Suc i) es) = B @ body (drop j es)"
      using body_split2 [of "drop (Suc i) es" "j - Suc i"] i by (simp add: B_def)
    then have L: "(K @ W) @ body (drop i es) @ LP_EOF # J = K @ (W @ entry (es ! i)) @ B @ body (drop j es) @ LP_EOF # J"
      using i(1) by (simp add: body_drop)
    obtain W' where mv: "wr_move (K @ (W @ entry (es ! i)) @ B @ body (drop j es) @ LP_EOF # J) (length K) (lp_pos es (Suc i)) (length B) =
      Inr (K @ B @ W' @ body (drop j es) @ LP_EOF # J)" "length W' = length (W @ entry (es ! i))"
      using wr_move_left [OF Se] by blast
    have "length (K @ B) + length W' = lp_pos es j" using Se mv(2) B(2) by simp
    then obtain J' where "lpBatchDelete_loop ((K @ B) @ W' @ body (drop j es) @ LP_EOF # J) (7 + length (body es))
        (map (lp_pos es) (j # js)) (length (K @ B)) =
      Inr ((K @ B) @ body (kept es j (j # js)) @ LP_EOF # J', length (K @ B) + length (body (kept es j (j # js))) + 1)"
      using Cons.IH [of j "K @ B" W'] Cons.prems by auto
    moreover have "lpBatchDelete_loop ((K @ W) @ body (drop i es) @ LP_EOF # J) (7 + length (body es))
        (lp_pos es i # map (lp_pos es) (j # js)) (length K) =
      lpBatchDelete_loop ((K @ B) @ W' @ body (drop j es) @ LP_EOF # J) (7 + length (body es))
        (map (lp_pos es) (j # js)) (length (K @ B))"
      using lt less_imp_neq [OF lt] unfolding step unfolding B(1) L
      by (simp only: lp_assert_simps rbind_simps length_append append_assoc simp_thms if_True if_False mv(1) [unfolded append_assoc])
    ultimately show ?thesis unfolding kp by (simp add: B_def)
  qed
qed

lemma length_kept:
  assumes "sorted_wrt (<) js" "\<forall>j \<in> set js. j < length es"
  shows "length (kept es 0 js) + length js = length es"
proof -
  have "set js \<subseteq> {0..<length es}" using assms(2) by auto
  moreover have "card (set js) = length js" using assms(1) by (simp add: distinct_card strict_sorted_iff)
  moreover have "length (kept es 0 js) = card ({0..<length es} - set js)"
    by (simp add: kept_def distinct_length_filter Int_def set_diff_eq Diff_eq conj_commute)
  ultimately show ?thesis using card_Diff_subset [of "set js" "{0..<length es}"] card_mono [of "{0..<length es}" "set js"] by simp
qed

lemma length_body_filter: "length (body (map f (filter P xs))) \<le> length (body (map f xs))"
  by (induction xs) auto

lemma length_body_kept: "length (body (kept es 0 js)) \<le> length (body es)"
  using length_body_filter [of "(!) es" "\<lambda>j. j \<notin> set js" "[0..<length es]"] by (simp add: kept_def map_nth)

lemma lpBatchDelete_rep:
  assumes rep: "lp_rep lp es" and al: "alloc_ok al" and js: "sorted_wrt (<) js" "\<forall>j \<in> set js. j < length es"
  shows "\<exists>lp'. lpBatchDelete al lp (map (lp_pos es) js) = Inr lp' \<and> lp_rep lp' (kept es 0 js)"
proof (cases js)
  case Nil
  then show ?thesis using rep by (simp add: lpBatchDelete_def kept_Nil)
next
  case (Cons i ks)
  obtain c J where lp: "lp = lp_hdr (7 + length (body es)) c @ body es @ LP_EOF # J" and c: "count_ok c es" "c < 2 ^ 16"
    and ok: "\<forall>e \<in> set es. enc_ok e" "7 + length (body es) \<le> UINT32_MAX"
    using rep by (rule lp_rep_countE)
  let ?K = "lp_hdr (7 + length (body es)) c @ body (take i es)"
  have K: "length ?K = lp_pos es i" by (simp add: lp_pos_def)
  have lp': "lp = ?K @ [] @ body (drop i es) @ LP_EOF # J" using body_split2 [of es i] by (simp add: lp)
  obtain J' where "lpBatchDelete_loop lp (7 + length (body es)) (map (lp_pos es) js) (lp_pos es i) =
      Inr (?K @ body (kept es i js) @ LP_EOF # J', lp_pos es i + length (body (kept es i js)) + 1)"
    using lpBatchDelete_loop_rep [of es i ks ?K "[]" J] ok js Cons K unfolding lp' by (auto simp: lp_pos_def)
  moreover have kp: "body (kept es 0 js) = body (take i es) @ body (kept es i js)"
    using kept_gap [of 0 i es js] js Cons by (simp add: less_imp_le)
  ultimately have loop: "lpBatchDelete_loop lp (7 + length (body es)) (map (lp_pos es) js) (lp_pos es i) =
      Inr (lp_hdr (7 + length (body es)) c @ body (kept es 0 js) @ LP_EOF # J', 7 + length (body (kept es 0 js)))"
    by (simp add: lp_pos_def)
  let ?c = "if c = UINT16_MAX then c else c - length js"
  have sub: "set (kept es 0 js) \<subseteq> set es" by (auto simp: kept_def)
  have "lp_rep (lp_hdr (7 + length (body (kept es 0 js))) ?c @ body (kept es 0 js) @ LP_EOF # J') (kept es 0 js)"
    using ok sub length_body_kept [of es js] length_kept [OF js] c(1)
    by (intro lp_repI) (auto simp: count_ok_def)
  then obtain lp' where "lpShrinkToFit al (lp_hdr (7 + length (body (kept es 0 js))) ?c @ body (kept es 0 js) @ LP_EOF # J') = Inr lp'"
    "lp_rep lp' (kept es 0 js)"
    using lpShrinkToFit_rep [OF _ al] by blast
  moreover have "lpBatchDelete al lp (map (lp_pos es) js) = 
    lpShrinkToFit al (lp_hdr (7 + length (body (kept es 0 js))) ?c @ body (kept es 0 js) @ LP_EOF # J')"
  proof -
    have num: "lpGetNumElements (lp_hdr n c @ xs) = Inr c"
      "(if c \<noteq> UINT16_MAX then lpSetNumElements (lp_hdr n c @ xs) (int c - int (length js)) else lp_hdr n c @ xs) = lp_hdr n ?c @ xs"
      for n xs
      using lpSetNumElements_hdr [of n c xs "c - length js"] length_kept [OF js] c
      by (auto simp: lpGetNumElements_hdr count_ok_def of_nat_diff)
    have eof: "rd (lp_hdr (7 + length (body es)) c @ body (kept es 0 js) @ LP_EOF # J') (7 + length (body (kept es 0 js)) - 1) = Inr LP_EOF"
      by (simp add: rd_def nth_append)
    have ps: "(map (lp_pos es) js = []) = False" "hd (map (lp_pos es) js) = lp_pos es i" "length (map (lp_pos es) js) = length js"
      "7 + length (body es) - 1 = 6 + length (body es)"
      using Cons by simp_all
    show ?thesis
      by (simp only: lpBatchDelete_def ps if_False lp_rep_total [OF rep] rbind_simps lp_rep_eof [OF rep] lp_assert_simps refl
        loop split eof Let_def lpSetTotalBytes_hdr num simp_thms)
  qed
  ultimately show ?thesis by auto
qed

section \<open>Merging and copying\<close>

lemma rd_range_at: "length A = p \<Longrightarrow> length B = n \<Longrightarrow> rd_range (A @ B @ C) p n = Inr B"
  by (auto simp: rd_range_def mem_read_def)

lemma lpDup_rep:
  assumes "lp_rep lp es" "alloc_ok al"
  shows "\<exists>lp'. lpDup al lp = Inr lp' \<and> lp_rep lp' es"
proof -
  obtain c J where lp: "lp = [] @ (lp_hdr (7 + length (body es)) c @ body es @ [LP_EOF]) @ J" and c: "count_ok c es"
    and ok: "\<forall>e \<in> set es. enc_ok e" "7 + length (body es) \<le> UINT32_MAX"
    using assms(1) by (rule lp_rep_countE) simp
  have "rd_range lp 0 (7 + length (body es)) = Inr (lp_hdr (7 + length (body es)) c @ body es @ [LP_EOF])"
    unfolding lp by (rule rd_range_at) simp_all
  moreover have "7 + length (body es) \<le> length (lp_malloc al (7 + length (body es)))"
    using assms(2) by (simp add: lp_malloc_def alloc_ok_le)
  ultimately have "lpDup al lp = Inr (lp_hdr (7 + length (body es)) c @ body es @ LP_EOF #
      drop (7 + length (body es)) (lp_malloc al (7 + length (body es))))"
    using assms(1) by (simp add: lpDup_def lpBytes_def lp_rep_total wr_def mem_write_def)
  then show ?thesis using lp_repI [OF ok c refl] by blast
qed

text \<open>The target is the longer of the two; its bytes stay where they are or move up.\<close>

lemma lpMerge_rep:
  assumes reps: "lp_rep a xs" "lp_rep b ys" and al: "alloc_ok al" and fits: "7 + length (body (xs @ ys)) < UINT32_MAX"
  shows "\<exists>lp'. lpMerge al a b = Inr (lp', length (body ys) \<le> length (body xs)) \<and> lp_rep lp' (xs @ ys)"
proof -
  obtain a' b' where len: "lpLength a = Inr (length xs, a')" "lp_rep a' xs" "lpLength b = Inr (length ys, b')" "lp_rep b' ys"
    using lpLength_rep reps by metis
  obtain ca Ja where a: "a' = (lp_hdr (7 + length (body xs)) ca @ body xs) @ LP_EOF # Ja" and oka: "\<forall>e \<in> set xs. enc_ok e"
    using len(2) by (rule lp_rep_countE) simp
  obtain cb Jb where b: "b' = lp_hdr (7 + length (body ys)) cb @ (body ys @ [LP_EOF]) @ Jb" and okb: "\<forall>e \<in> set ys. enc_ok e"
    using len(4) by (rule lp_rep_countE) simp
  let ?n = "7 + length (body (xs @ ys))" and ?c = "min (length (xs @ ys)) UINT16_MAX"
  have n: "7 + length (body xs) + (7 + length (body ys)) - 6 - 1 = ?n" by simp
  have m: "(length xs + length ys) mod 2 ^ 32 = length (xs @ ys)"
    using lp_rep_length_less(2) [OF reps(1)] lp_rep_length_less(2) [OF reps(2)] by simp
  have rep: "lp_rep (lp_hdr ?n ?c @ body (xs @ ys) @ LP_EOF # J) (xs @ ys)" for J
    using oka okb fits by (intro lp_repI) (auto simp: count_ok_def min_def)
  have set_hdr: "lpSetTotalBytes (lpSetNumElements (lp_hdr k c @ Y) (int (if length (xs @ ys) < UINT16_MAX then length (xs @ ys) else UINT16_MAX))) ?n =
      lp_hdr ?n ?c @ Y" for k c Y
    using hdr_simps(3,4) by (auto simp: min_def)
  have asrt: "lp_assert (?n < UINT32_MAX) = Inr ()" using fits by simp
  note start = lpMerge_def lpBytes_def lp_rep_total [OF reps(1)] lp_rep_total [OF reps(2)] len(1,3) rbind_simps split Let_def n m asrt
  show ?thesis
  proof (cases "length (body ys) \<le> length (body xs)")
    case True
    obtain J where J: "lp_realloc al a' ?n = (lp_hdr (7 + length (body xs)) ca @ body xs) @ J" "length (body ys) + 1 \<le> length J"
      using lp_realloc_prefix [OF al, of "lp_hdr (7 + length (body xs)) ca @ body xs" ?n "LP_EOF # Ja"] unfolding a by auto
    have r: "rd_range b' 6 (7 + length (body ys) - 6) = Inr (body ys @ [LP_EOF])" unfolding b by (rule rd_range_at) simp_all
    have w: "wr (lp_realloc al a' ?n) (7 + length (body xs) - 1) (body ys @ [LP_EOF]) =
        Inr (lp_hdr (7 + length (body xs)) ca @ body (xs @ ys) @ LP_EOF # drop (length (body ys) + 1) J)"
      using J by (simp add: wr_def mem_write_def)
    have "lpMerge al a b = Inr (lp_hdr ?n ?c @ body (xs @ ys) @ LP_EOF # drop (length (body ys) + 1) J, True)"
      unfolding start using True by (simp only: add_le_cancel_left if_True prod.case r w rbind_simps set_hdr)
    then show ?thesis using rep True by auto
  next
    case False
    let ?B = "body ys @ [LP_EOF]" and ?H = "lp_hdr (7 + length (body ys)) cb"
    obtain J where J: "lp_realloc al b' ?n = ?H @ ?B @ J" "?n \<le> length (?H @ ?B @ J)"
      using lp_realloc_prefix [OF al, of "?H @ ?B" ?n Jb] False unfolding b by auto
    have "length (body xs) + length ?B \<le> length ([] @ ?B @ J)" using J(2) by simp
    then obtain G J' where "wr_move (?H @ [] @ ?B @ J) (length ?H + length (body xs)) (length ?H + length ([] :: bytes)) (length ?B) =
        Inr (?H @ G @ ?B @ J')" and G: "length G = length (body xs)"
      by (rule wr_move_tail [where P = ?H])
    then have mv: "wr_move (lp_realloc al b' ?n) (7 + length (body xs) - 1) 6 (7 + length (body ys) - 6) = Inr (?H @ G @ ?B @ J')"
      unfolding J(1) by simp
    have r: "rd_range a' 0 (7 + length (body xs) - 1) = Inr (lp_hdr (7 + length (body xs)) ca @ body xs)"
      using rd_range_at [of "[]" 0 "lp_hdr (7 + length (body xs)) ca @ body xs" _ "LP_EOF # Ja"] by (simp add: a)
    have w: "wr (?H @ G @ ?B @ J') 0 (lp_hdr (7 + length (body xs)) ca @ body xs) =
        Inr (lp_hdr (7 + length (body xs)) ca @ body (xs @ ys) @ LP_EOF # J')"
      using wr_at [of "lp_hdr (7 + length (body xs)) ca @ body xs" "?H @ G" "[]" "?B @ J'"] G by simp
    have "lpMerge al a b = Inr (lp_hdr ?n ?c @ body (xs @ ys) @ LP_EOF # J', False)"
      unfolding start using False by (simp only: add_le_cancel_left if_False prod.case mv r w rbind_simps set_hdr)
    then show ?thesis using rep False by auto
  qed
qed

section \<open>Listpacks as sequences of strings\<close>

text \<open>An entry takes at most ten bytes more than its text.\<close>

definition get_small :: "(lp_elem \<times> nat option) lp_res \<Rightarrow> bool" where
  "get_small r \<longleftrightarrow> (\<forall>q n z. r = Inr (LP_STR q n, z) \<longrightarrow> q \<le> 5) \<and> (\<forall>v k. r = Inr (LP_INT v, Some k) \<longrightarrow> k \<le> 10)"

lemma get_small_intros:
  "get_small a \<Longrightarrow> get_small b \<Longrightarrow> get_small (if c then a else b)"
  "(\<And>x. get_small (f x)) \<Longrightarrow> get_small (rbind r f)"
  "q \<le> 5 \<Longrightarrow> get_small (Inr (LP_STR q n, z))"
  "k \<le> 10 \<Longrightarrow> get_small (Inr (LP_INT v, Some k))"
  "get_small (Inr (LP_INT v, None))"
  by (auto simp: get_small_def rbind_Inr)

lemma lpGetWithSize_small: "get_small (lpGetWithSize e 0)"
  unfolding lpGetWithSize_def Let_def by (intro get_small_intros) simp_all

lemma entry_len_text:
  assumes "enc_ok e"
  shows "entry_len e \<le> length (val_text (enc_val e)) + 10"
proof -
  obtain el where el: "lpGetWithSize e 0 = Inr (el, Some (entry_len e))" "\<forall>q n. el = LP_STR q n \<longrightarrow> q + n = length e"
    using enc_ok_get [OF assms] by blast
  have b: "lpEncodeBacklen_size (length e) \<le> 5" by (rule lpEncodeBacklen_size_bounds)
  show ?thesis
  proof (cases el)
    case (LP_STR q n)
    then have "q \<le> 5" "q + n = length e" using lpGetWithSize_small [of e] el by (auto simp: get_small_def)
    then show ?thesis using b el(1) LP_STR by (simp add: enc_val_def)
  next
    case (LP_INT v)
    then show ?thesis using lpGetWithSize_small [of e] el(1) by (auto simp: get_small_def)
  qed
qed

definition lp_weight :: "bytes list \<Rightarrow> nat" where
  "lp_weight ts = 7 + sum_list (map (\<lambda>t. length t + 10) ts)"

lemma lp_weight_insert: "lp_weight (take i ts @ t # drop i ts) = lp_weight ts + length t + 10"
proof -
  have "sum_list (map f ts) = sum_list (map f (take i ts)) + sum_list (map f (drop i ts))" for f :: "bytes \<Rightarrow> nat"
    by (metis append_take_drop_id map_append sum_list_append)
  then show ?thesis by (simp add: lp_weight_def)
qed

lemma lp_rep_weight:
  assumes "lp_rep lp es"
  shows "7 + length (body es) \<le> lp_weight (lp_text es)"
proof -
  have "\<forall>e \<in> set es. enc_ok e" using assms by (simp add: lp_rep_def)
  then have "length (body es) \<le> sum_list (map (\<lambda>t. length t + 10) (lp_text es))"
  proof (induction es)
    case (Cons e es)
    then show ?case using entry_len_text [of e] by (simp add: lp_text_def)
  qed (simp add: lp_text_def)
  then show ?thesis by (simp add: lp_weight_def)
qed

text \<open>The operations by index, as the callers compose them from \<open>lpSeek\<close> and the edits.\<close>

definition lp_exec :: "bytes seq_op \<Rightarrow> allocator \<times> bytes \<Rightarrow> (allocator \<times> bytes) lp_res" where
  "lp_exec op s = (case s of (al, lp) \<Rightarrow> rbind (case op of
       PushBack x \<Rightarrow> lpAppend al lp x
     | PushFront x \<Rightarrow> lpPrepend al lp x
     | InsertAt i x \<Rightarrow> rbind (lpSeek lp (int i)) (\<lambda>p. case p of
         None \<Rightarrow> Inr lp | Some p \<Rightarrow> rbind (lpInsertString al lp x p LP_BEFORE) (\<lambda>(lp, _). Inr lp))
     | DeleteAt i \<Rightarrow> rbind (lpSeek lp (int i)) (\<lambda>p. case p of
         None \<Rightarrow> Inr lp | Some p \<Rightarrow> rbind (lpDelete al lp p) (\<lambda>(lp, _). Inr lp)))
     (\<lambda>lp. Inr (al, lp)))"

definition lp_get :: "allocator \<times> bytes \<Rightarrow> nat \<Rightarrow> bytes option lp_res" where
  "lp_get s i = (case s of (al, lp) \<Rightarrow> rbind (lpSeek lp (int i)) (\<lambda>p. case p of
     None \<Rightarrow> Inr None | Some p \<Rightarrow> rbind (lpGet_intbuf lp p (replicate LP_INTBUF_SIZE 0)) (\<lambda>t. Inr (Some t))))"

definition lp_seq :: "allocator \<times> bytes \<Rightarrow> bytes list \<Rightarrow> bool" where
  "lp_seq s ts \<longleftrightarrow> (case s of (al, lp) \<Rightarrow> alloc_ok al \<and> (\<exists>es. lp_rep lp es \<and> lp_text es = ts))"

lemma lpSeek_nat: "lp_rep lp es \<Longrightarrow> lpSeek lp (int i) = Inr (lp_ptr es i)"
  by (simp add: lpSeek_rep lp_index_def)

lemma lp_exec_ok:
  assumes "lp_rep lp es" "alloc_ok al" "lp_weight (seq_spec op (lp_text es)) \<le> UINT32_MAX"
  shows "\<exists>lp' es'. lp_exec op (al, lp) = Inr (al, lp') \<and> lp_rep lp' es' \<and> lp_text es' = seq_spec op (lp_text es)"
proof (cases op)
  case (PushBack x)
  then show ?thesis using lpAppend_rep [OF assms(1,2), of _ x] lp_rep_weight [OF assms(1)] assms(3) lp_rep_total [OF assms(1)]
    by (auto simp: lp_exec_def lp_weight_def lpBytes_def)
next
  case (PushFront x)
  then show ?thesis using lpPrepend_rep [OF assms(1,2), of _ x] lp_rep_weight [OF assms(1)] assms(3) lp_rep_total [OF assms(1)]
    by (auto simp: lp_exec_def lp_weight_def lpBytes_def)
next
  case (InsertAt i x)
  show ?thesis
  proof (cases "i < length es")
    case True
    have "lp_weight (seq_spec op (lp_text es)) = lp_weight (lp_text es) + length x + 10"
      using True by (simp add: InsertAt lp_weight_insert)
    then have "7 + length (body es) + length x + 10 \<le> UINT32_MAX"
      using assms(3) lp_rep_weight [OF assms(1)] by linarith
    then show ?thesis
      using lpInsertString_rep [OF assms(1) True assms(2), of _ x LP_BEFORE] InsertAt lpSeek_nat [OF assms(1), of i] True
        lp_rep_total [OF assms(1)]
      by (auto simp: lp_exec_def lp_ptr_def lpBytes_def ins_text_def)
  next
    case False
    then show ?thesis using InsertAt assms(1) lpSeek_nat [OF assms(1), of i]
      by (auto simp: lp_exec_def lp_ptr_def)
  qed
next
  case (DeleteAt i)
  show ?thesis
  proof (cases "i < length es")
    case True
    have "lp_text (lsplice es i 1 []) = seq_spec op (lp_text es)"
      by (simp only: lp_text_splice DeleteAt) (simp add: lsplice_def lp_text_def)
    then show ?thesis using lpDelete_rep [OF assms(1) True assms(2)] DeleteAt lpSeek_nat [OF assms(1), of i] True
      by (auto simp: lp_exec_def lp_ptr_def)
  next
    case False
    then show ?thesis using DeleteAt assms(1) lpSeek_nat [OF assms(1), of i]
      by (auto simp: lp_exec_def lp_ptr_def)
  qed
qed


interpretation lps: seq_store lp_seq "\<lambda>ts. lp_weight ts \<le> UINT32_MAX" lp_exec lp_get
proof unfold_locales
  fix s ts op
  assume "lp_seq s ts" "lp_weight (seq_spec op ts) \<le> UINT32_MAX"
  then show "\<exists>s'. lp_exec op s = Inr s' \<and> lp_seq s' (seq_spec op ts)"
    using lp_exec_ok by (fastforce simp: lp_seq_def)
next
  fix s ts i
  assume "lp_seq s ts"
  then show "lp_get s i = Inr (if i < length ts then Some (ts ! i) else None)"
    using lpGet_intbuf_rep by (fastforce simp: lp_seq_def lp_get_def lpSeek_nat lp_ptr_def)
qed

section \<open>Properties\<close>

definition lp_list :: "bytes \<Rightarrow> bytes list \<Rightarrow> bool" where
  "lp_list lp ts \<longleftrightarrow> (\<exists>es. lp_rep lp es \<and> lp_text es = ts)"

lemma lp_seek_at: "lp_rep lp es \<Longrightarrow> lpSeek lp (int i) = Inr (Some p) \<Longrightarrow> i < length es \<and> p = lp_pos es i"
  by (auto simp: lpSeek_nat lp_ptr_def split: if_splits)

text \<open>A concrete allocator and a concrete listpack of the strings \<open>a\<close> and \<open>5\<close>.\<close>

definition al_exact :: allocator where
  "al_exact = \<lparr>al_usable = (\<lambda>n. n), al_junk = (\<lambda>_. 0)\<rparr>"

lemma al_exact_ok: "alloc_ok al_exact"
  by (simp add: alloc_ok_def al_exact_def)

definition lp_a5 :: bytes where
  "lp_a5 = [12, 0, 0, 0, 2, 0, 0x81, 97, 2, 5, 1, 255]"

lemma lp_a5_rep: "lp_rep lp_a5 [[0x81, 97], [5]]"
proof -
  have h: "lp_hdr 12 2 = [12, 0, 0, 0, 2, 0]" by code_simp
  have "lp_a5 = lp_hdr 12 2 @ body [[0x81, 97], [5]] @ LP_EOF # []"
    by (simp add: lp_a5_def h entry_def lpEncodeBacklen_def)
  moreover have "enc_ok [0x81, 97]" "enc_ok [5]"
    by (simp_all add: enc_ok_def lpCurrentEncodedSizeUnsafe_def rd_def lp_is_7bit_uint_def lp_is_6bit_str_def)
  moreover have "7 + length (body [[0x81, 97], [5]]) = 12" by (simp add: entry_def lpEncodeBacklen_def)
  ultimately show ?thesis unfolding lp_rep_count
    by (auto simp: count_ok_def intro!: exI [of _ 2])
qed

lemma lp_a5_text: "lp_text [[0x81, 97], [5]] = [[97], [53]]"
proof -
  have "sdec 5 = [53]" by code_simp
  then show ?thesis
    by (simp add: lp_text_def enc_val_def lpGetWithSize_def rd_def lp_is_7bit_uint_def lp_is_6bit_str_def lp_signed_def mem_read_def)
qed

lemma lp_a5_list: "lp_list lp_a5 [[97], [53]]"
  unfolding lp_list_def using lp_a5_rep lp_a5_text by blast

lemma lp_a5_bytes: "lpBytes lp_a5 = Inr 12"
  using lp_rep_total [OF lp_a5_rep] by (simp add: lpBytes_def lpEncodeBacklen_size_def)

lemma lp_a5_seek: "lpSeek lp_a5 0 = Inr (Some 6)" "lpSeek lp_a5 1 = Inr (Some 9)"
  using lpSeek_nat [OF lp_a5_rep, of 0] lpSeek_nat [OF lp_a5_rep, of 1]
  by (simp_all add: lp_ptr_def lp_pos_def lpEncodeBacklen_size_def)

lemma seq_run_alloc: "seq_run lp_exec ops s = Inr s' \<Longrightarrow> fst s' = fst s"
proof (induction ops arbitrary: s)
  case (Cons op ops)
  obtain s1 where s1: "lp_exec op s = Inr s1" "seq_run lp_exec ops s1 = Inr s'" using Cons.prems by (auto split: sum.splits)
  have "fst s1 = fst s" using s1(1) by (auto simp: lp_exec_def rbind_Inr split: prod.splits)
  then show ?case using Cons.IH [OF s1(2)] by simp
qed simp

lemma lp_find_less: "lp_find s skip c ts = Some j \<Longrightarrow> j < length ts"
  by (induction s skip c ts arbitrary: j rule: lp_find.induct) (auto split: if_splits)

text \<open>C9: A listpack is a sequence of strings: whatever sequence of appends, prepends, insertions
  and deletions by index is run on the listpack \<open>lpNew\<close> returns, with whatever allocator, every
  call returns without touching memory outside its block or failing an assertion, as long as the
  size stays within 32 bits, and reading the elements of the final listpack through \<open>lpSeek\<close> and
  \<open>lpGet\<close> gives exactly what the same operations on a list give.\<close>

theorem listpack_refines_list:
  assumes "alloc_ok al" "\<forall>k \<le> length ops. lp_weight (fold seq_spec (take k ops) []) \<le> UINT32_MAX"
  shows "\<exists>lp. seq_run lp_exec ops (al, lpNew al capacity) = Inr (al, lp) \<and> lp_list lp (fold seq_spec ops []) \<and>
    (\<forall>i. lp_get (al, lp) i = Inr (if i < length (fold seq_spec ops []) then Some (fold seq_spec ops [] ! i) else None))"
proof -
  have "lp_seq (al, lpNew al capacity) []" using lpNew_rep [OF assms(1)] assms(1) by (auto simp: lp_seq_def lp_text_def)
  then obtain s where s: "seq_run lp_exec ops (al, lpNew al capacity) = Inr s" "lp_seq s (fold seq_spec ops [])"
    "\<forall>i. lp_get s i = Inr (if i < length (fold seq_spec ops []) then Some (fold seq_spec ops [] ! i) else None)"
    using lps.run_get assms(2) by blast
  obtain lp where "s = (al, lp)" using seq_run_alloc [OF s(1)] by (cases s) simp
  then show ?thesis using s by (auto simp: lp_seq_def lp_list_def)
qed

theorem listpack_refines_list_witness:
  "\<exists>lp. seq_run lp_exec [PushBack [97], PushFront [49, 50], InsertAt 1 [], DeleteAt 0] (al_exact, lpNew al_exact 0) =
      Inr (al_exact, lp) \<and> lp_list lp [[], [97]]"
proof -
  let ?ops = "[PushBack [97], PushFront [49, 50], InsertAt 1 [], DeleteAt 0] :: bytes seq_op list"
  have "lp_weight (fold seq_spec (take k ?ops) []) \<le> UINT32_MAX" for k
    by (cases k; cases "k - 1"; cases "k - 2"; cases "k - 3") (simp_all add: lp_weight_def)
  then show ?thesis using listpack_refines_list [OF al_exact_ok, of ?ops 0] by (auto simp: numeral_2_eq_2)
qed

text \<open>C11: \<open>lpInsertString\<close> at a pointer obtained from \<open>lpSeek\<close> inserts before or after that element,
  or replaces it, and changes no other; the pointer it stores in \<open>newp\<close> is the one \<open>lpSeek\<close> gives for
  the new element.\<close>

theorem lpInsertString_correct:
  assumes "lp_list lp ts" "lpSeek lp (int i) = Inr (Some p)" "alloc_ok al"
    "lpBytes lp = Inr n" "n + length s + 10 \<le> UINT32_MAX"
  shows "\<exists>lp' q. lpInsertString al lp s p wh = Inr (lp', Some q) \<and> lp_list lp' (ins_text ts wh i s) \<and>
    lpSeek lp' (int (ins_index wh i)) = Inr (Some q)"
proof -
  obtain es where es: "lp_rep lp es" "lp_text es = ts" using assms(1) by (auto simp: lp_list_def)
  have i: "i < length es" "p = lp_pos es i" using lp_seek_at [OF es(1) assms(2)] by simp_all
  obtain lp' es' where r: "lpInsertString al lp s p wh = Inr (lp', lp_ptr es' (ins_index wh i))" "lp_rep lp' es'"
    "lp_text es' = ins_text ts wh i s"
    using lpInsertString_rep [OF es(1) i(1) assms(3-5), of wh] es(2) i(2) by blast
  have "length es' = length (ins_text ts wh i s)" using r(3) length_lp_text [of es'] by simp
  then have "ins_index wh i < length es'"
    using i(1) es(2) by (cases wh) (auto simp: ins_text_def ins_index_def)
  then show ?thesis using r lpSeek_nat [OF r(2), of "ins_index wh i"] by (auto simp: lp_ptr_def lp_list_def)
qed

theorem lpInsertString_correct_witness:
  "\<exists>lp' q. lpInsertString al_exact lp_a5 [120] 9 LP_REPLACE = Inr (lp', Some q) \<and> lp_list lp' [[97], [120]] \<and>
    lpSeek lp' 1 = Inr (Some q)"
  using lpInsertString_correct [OF lp_a5_list _ al_exact_ok lp_a5_bytes, of 1 9 "[120]" LP_REPLACE] lp_a5_seek
  by (simp add: ins_text_def ins_index_def)

text \<open>C16: Navigation: from the pointer \<open>lpSeek\<close> gives for an index, \<open>lpNext\<close> and \<open>lpPrev\<close> lead to the
  neighbours and to NULL at the ends, negative indexes count from the end, and \<open>lpLength\<close> is the
  number of elements, cached or not, without changing the elements.\<close>

theorem lp_navigation:
  assumes "lp_list lp ts" "lpSeek lp (int i) = Inr (Some p)"
  shows "lpNext lp p = lpSeek lp (int i + 1) \<and>
    lpPrev lp p = (if i = 0 then Inr None else lpSeek lp (int i - 1)) \<and>
    lpSeek lp (int i - int (length ts)) = Inr (Some p) \<and>
    (\<exists>lp'. lpLength lp = Inr (length ts, lp') \<and> lp_list lp' ts)"
proof -
  obtain es where es: "lp_rep lp es" "lp_text es = ts" using assms(1) by (auto simp: lp_list_def)
  have i: "i < length es" "p = lp_pos es i" using lp_seek_at [OF es(1) assms(2)] by simp_all
  have "lpSeek lp (int i + 1) = Inr (lp_ptr es (Suc i))" using lpSeek_nat [OF es(1), of "Suc i"] by (simp add: add.commute)
  moreover have "lpSeek lp (int i - 1) = Inr (Some (lp_pos es (i - 1)))" if "i \<noteq> 0"
    using lpSeek_nat [OF es(1), of "i - 1"] that i(1) by (auto simp: lp_ptr_def of_nat_diff)
  moreover have "length ts = length es" using es(2) by auto
  then have "lpSeek lp (int i - int (length ts)) = Inr (Some p)"
    using i by (simp add: lpSeek_rep [OF es(1)] lp_index_def lp_ptr_def)
  moreover have "\<exists>lp'. lpLength lp = Inr (length ts, lp') \<and> lp_list lp' ts"
    using lpLength_rep [OF es(1)] es(2) \<open>length ts = length es\<close> by (auto simp: lp_list_def)
  ultimately show ?thesis
    using lpNext_rep [OF es(1) i(1)] lpPrev_rep [OF es(1), of i] i by auto
qed

theorem lp_navigation_witness:
  "lpNext lp_a5 6 = Inr (Some 9) \<and> lpPrev lp_a5 6 = Inr None \<and> lpSeek lp_a5 (-2) = Inr (Some 6) \<and>
   (\<exists>lp'. lpLength lp_a5 = Inr (2, lp') \<and> lp_list lp' [[97], [53]])"
  using lp_navigation [OF lp_a5_list, of 0 6] lp_a5_seek by (simp add: numeral_2_eq_2)

text \<open>C15: \<open>lpFind\<close> from an element on returns the pointer of the first element, among those \<open>skip\<close>
  apart, whose text is the given string, however the element and the string are encoded (a string
  that spells a 64-bit integer matches the integer), and NULL when there is none.\<close>

theorem lpFind_correct:
  assumes "lp_list lp ts" "lpSeek lp (int i) = Inr (Some p)"
  shows "lpFind lp p s skip = (case lp_find s skip 0 (drop i ts) of
    None \<Rightarrow> Inr None | Some j \<Rightarrow> lpSeek lp (int (i + j)))"
proof -
  obtain es where es: "lp_rep lp es" "lp_text es = ts" using assms(1) by (auto simp: lp_list_def)
  have i: "i < length es" "p = lp_pos es i" using lp_seek_at [OF es(1) assms(2)] by simp_all
  have "j < length (drop i ts)" if "lp_find s skip 0 (drop i ts) = Some j" for j
    using lp_find_less [OF that] .
  then show ?thesis using lpFind_rep [OF es(1) i(1), of s skip] i(2) es(2) length_lp_text [of es]
    by (auto simp: lpSeek_nat [OF es(1)] lp_ptr_def simp del: of_nat_add split: option.splits)
qed

theorem lpFind_correct_witness: "lpFind lp_a5 6 [53] 0 = Inr (Some 9) \<and> lpFind lp_a5 6 [54] 0 = Inr None"
  using lpFind_correct [OF lp_a5_list, of 0 6 "[53]" 0] lpFind_correct [OF lp_a5_list, of 0 6 "[54]" 0] lp_a5_seek by simp

text \<open>C14: \<open>lpDeleteRange\<close> deletes \<open>num\<close> elements from the index on, or those there are; a negative
  index counts from the end, and an index outside the list deletes nothing.\<close>

theorem lpDeleteRange_correct:
  assumes "lp_list lp ts" "alloc_ok al"
  shows "\<exists>lp'. lpDeleteRange al lp index num = Inr lp' \<and>
    lp_list lp' (let j = (if index < 0 then int (length ts) + index else index) in
      if 0 \<le> j then take (nat j) ts @ drop (nat j + num) ts else ts)"
proof -
  obtain es where es: "lp_rep lp es" "lp_text es = ts" using assms(1) by (auto simp: lp_list_def)
  have len: "length ts = length es" using es(2) by auto
  have t: "lp_text (lsplice es k num []) = take k ts @ drop (k + num) ts" for k
    by (simp add: lsplice_def lp_text_def take_map drop_map flip: es(2))
  have "lp_text (if 0 \<le> lp_index es index then lsplice es (nat (lp_index es index)) num [] else es) =
      (let j = (if index < 0 then int (length ts) + index else index) in
       if 0 \<le> j then take (nat j) ts @ drop (nat j + num) ts else ts)"
    by (simp add: lp_index_def len Let_def t es(2))
  then show ?thesis using lpDeleteRange_rep [OF es(1) assms(2) refl, of index num] unfolding lp_list_def by blast
qed

theorem lpDeleteRange_correct_witness:
  "\<exists>lp'. lpDeleteRange al_exact lp_a5 (-1) 7 = Inr lp' \<and> lp_list lp' [[97]]"
  using lpDeleteRange_correct [OF lp_a5_list al_exact_ok, of "-1" 7] by simp

text \<open>C12: \<open>lpBatchDelete\<close> on the pointers of a strictly increasing list of indexes deletes exactly
  these elements, compacting the block in place.\<close>

theorem lpBatchDelete_correct:
  assumes "lp_list lp ts" "alloc_ok al" "sorted_wrt (<) js"
    "list_all2 (\<lambda>j p. lpSeek lp (int j) = Inr (Some p)) js ps"
  shows "\<exists>lp'. lpBatchDelete al lp ps = Inr lp' \<and> lp_list lp' (kept ts 0 js)"
proof -
  obtain es where es: "lp_rep lp es" "lp_text es = ts" using assms(1) by (auto simp: lp_list_def)
  have ps: "ps = map (lp_pos es) js" and js: "\<forall>j \<in> set js. j < length es"
    using assms(4) lp_seek_at [OF es(1)] by (induction js ps rule: list_all2_induct) auto
  have "lp_text (kept es 0 js) = kept ts 0 js"
    using es(2) by (auto simp: kept_def lp_text_def)
  then show ?thesis using lpBatchDelete_rep [OF es(1) assms(2,3) js] ps by (auto simp: lp_list_def)
qed

theorem lpBatchDelete_correct_witness:
  "\<exists>lp'. lpBatchDelete al_exact lp_a5 [6] = Inr lp' \<and> lp_list lp' [[53]]"
  using lpBatchDelete_correct [OF lp_a5_list al_exact_ok, of "[0]" "[6]"] lp_a5_seek
  by (simp add: kept_def upt_rec)

text \<open>C13: \<open>lpMerge\<close> of two listpacks whose sizes together stay below \<open>UINT32_MAX\<close> concatenates them,
  first before second, whichever of the two blocks it reuses.\<close>

theorem lpMerge_correct:
  assumes "lp_list a ts" "lp_list b us" "alloc_ok al" "lpBytes a = Inr m" "lpBytes b = Inr n" "m + n < UINT32_MAX"
  shows "\<exists>lp. lpMerge al a b = Inr (lp, n \<le> m) \<and> lp_list lp (ts @ us)"
proof -
  obtain xs ys where r: "lp_rep a xs" "lp_rep b ys" "lp_text xs = ts" "lp_text ys = us"
    using assms(1,2) by (auto simp: lp_list_def)
  have "m = 7 + length (body xs)" "n = 7 + length (body ys)"
    using assms(4,5) lp_rep_total r(1,2) by (simp_all add: lpBytes_def)
  moreover have "lp_text (xs @ ys) = ts @ us" using r(3,4) by (simp add: lp_text_def)
  ultimately show ?thesis using lpMerge_rep [OF r(1,2) assms(3)] assms(6)
    by (auto simp: lp_list_def intro!: exI [of _ "xs @ ys"])
qed

theorem lpMerge_correct_witness:
  "\<exists>lp. lpMerge al_exact lp_a5 lp_a5 = Inr (lp, True) \<and> lp_list lp [[97], [53], [97], [53]]"
  using lpMerge_correct [OF lp_a5_list lp_a5_list al_exact_ok lp_a5_bytes lp_a5_bytes] by simp

end
