(* ===== verification/Listpack_Validate.thy ===== *)
theory Listpack_Validate
  imports Listpack_Edit
begin

text \<open>
  Validation of untrusted blocks (\<open>lpValidateNext\<close>, \<open>lpValidateIntegrity\<close> of
  \<^verbatim>\<open>src/src/src/listpack.c\<close>): every listpack is accepted; on arbitrary bytes the scan reads only
  inside the block and ends, although its pointer arithmetic wraps at 32 bits, because the reversed
  length in front of an entry determines where the previous entry starts.  The last section shows
  what the wrap-around lets through.
\<close>

section \<open>Validation accepts every listpack\<close>

lemma lpValidate_loop_rep:
  assumes "lp_rep lp es" "i \<le> length es" "length es - i < n" "count + (length es - i) < 2 ^ 32"
  shows "lpValidate_loop n lp (7 + length (body es)) c None u (Some (lp_pos es i)) count =
    Inr (True, Some (6 + length (body es)), count + (length es - i), u)"
  using assms(2-4)
proof (induction n arbitrary: i count)
  case (Suc n)
  show ?case
  proof (cases "i < length es")
    case True
    then show ?thesis
      using Suc.IH [of "Suc i" "count + 1"] Suc.prems lp_rep_entry [OF assms(1) True]
      by (simp add: lp_call_cb_def)
  next
    case False
    then show ?thesis using Suc.prems lp_rep_eof [OF assms(1)] by (simp add: lp_pos_length)
  qed
qed simp

lemma lpValidateIntegrity_rep:
  assumes "lp_rep lp es"
  shows "lpValidateIntegrity lp (7 + length (body es)) deep None u = Inr (True, u)"
proof -
  obtain c junk where lp: "lp = lp_hdr (7 + length (body es)) c @ body es @ LP_EOF # junk"
    and c: "c = UINT16_MAX \<or> c = length es \<and> c < UINT16_MAX" "c < 2 ^ 16"
    using assms by (rule lp_repE)
  have n: "lpGetNumElements lp = Inr c" using c by (simp add: lp hdr_simps)
  have "2 * length es \<le> length (body es)" using assms by (intro length_body) (simp add: lp_rep_def)
  then have "lpValidate_loop (Suc (7 + length (body es))) lp (7 + length (body es)) c None u (Some 6) 0 =
      Inr (True, Some (6 + length (body es)), length es, u)"
    using lpValidate_loop_rep [OF assms, of 0 "Suc (7 + length (body es))" 0] lp_rep_length_less [OF assms] by simp
  with c show ?thesis
    using lp_rep_total [OF assms] lp_rep_eof [OF assms] n
    by (auto simp: lpValidateIntegrity_def simp del: lpValidate_loop.simps)
qed

section \<open>Validation of arbitrary bytes\<close>

lemma lpDecodeBacklen_loop_total:
  assumes "p < length lp" "28 \<le> 7 * p + shift"
  shows "\<exists>y. lpDecodeBacklen_loop lp p val shift = Inr y"
  using assms
proof (induction lp p val shift rule: lpDecodeBacklen_loop.induct)
  case (1 lp p val shift)
  obtain b where b: "rd lp p = Inr b" using "1.prems"(1) by (simp add: rd_def)
  show ?case
  proof (cases "b AND 128 = 0 \<or> 28 < shift + 7")
    case True
    then show ?thesis by (subst lpDecodeBacklen_loop.simps) (auto simp: b Let_def)
  next
    case False
    then have p: "0 < p" using "1.prems"(2) by simp
    have "\<exists>y. lpDecodeBacklen_loop lp (p - 1) (val OR push_bit shift (unat (b AND 127))) (shift + 7) = Inr y"
      by (rule "1.IH") (use False p "1.prems" b in auto)
    with False p show ?thesis by (subst lpDecodeBacklen_loop.simps) (simp add: b Let_def)
  qed
qed

lemma decode_total: "5 \<le> p \<Longrightarrow> p < length lp \<Longrightarrow> \<exists>y. lpDecodeBacklen lp p = Inr y"
  unfolding lpDecodeBacklen_def by (rule lpDecodeBacklen_loop_total) simp_all

text \<open>Once the bytes of the length can be read, the size can.\<close>

definition size_reads :: "bytes \<Rightarrow> nat \<Rightarrow> nat lp_res \<Rightarrow> nat lp_res \<Rightarrow> bool" where
  "size_reads lp p r r' \<longleftrightarrow> (\<forall>k. r = Inr k \<longrightarrow> p + k \<le> length lp \<longrightarrow> (\<exists>n. r' = Inr n))"

lemma size_reads_if:
  "size_reads lp p a a' \<Longrightarrow> size_reads lp p b b' \<Longrightarrow> size_reads lp p (if c then a else b) (if c then a' else b')"
  by (simp add: size_reads_def)

lemma size_total:
  assumes "lpCurrentEncodedSizeBytes lp p = Inr k" "p + k \<le> length lp"
  shows "\<exists>n. lpCurrentEncodedSizeUnsafe lp p = Inr n"
proof -
  obtain b where b: "rd lp p = Inr b"
    using assms(1) by (cases "rd lp p") (auto simp: lpCurrentEncodedSizeBytes_def)
  have "size_reads lp p (lpCurrentEncodedSizeBytes lp p) (lpCurrentEncodedSizeUnsafe lp p)"
    unfolding lpCurrentEncodedSizeUnsafe_def lpCurrentEncodedSizeBytes_def b rbind_simps
    by (intro size_reads_if) (auto simp: size_reads_def rd_le_ok rd_def)
  with assms show ?thesis by (simp add: size_reads_def)
qed

lemma size_bytes_total: "p < length lp \<Longrightarrow> \<exists>k. lpCurrentEncodedSizeBytes lp p = Inr k"
  by (simp add: lpCurrentEncodedSizeBytes_def rd_def)

lemma size_bytes_le5: "lpCurrentEncodedSizeBytes lp p = Inr k \<Longrightarrow> k \<le> 5"
  by (cases "rd lp p") (auto simp: lpCurrentEncodedSizeBytes_def split: if_splits)

lemma lpValidateNext_total:
  assumes "n \<le> length lp" "n < 2 ^ 32"
  shows "returns (lpValidateNext lp pp n)"
proof (cases pp)
  case (Some p)
  have dec: "returns (lpDecodeBacklen lp (q - 1))" if "\<not> out_of_range n q" for q
    using that assms(1) unfolding returns_def by (intro decode_total) (auto simp: out_of_range_def)
  have size: "returns (lpCurrentEncodedSizeUnsafe lp p)"
    if p: "\<not> out_of_range n p" and k: "lpCurrentEncodedSizeBytes lp p = Inr k"
      and q: "\<not> out_of_range n ((p + k) mod 2 ^ 32)" for k
  proof -
    have "p + k < 2 ^ 32"
    proof (rule ccontr)
      assume "\<not> p + k < 2 ^ 32"
      then have "(p + k) mod 2 ^ 32 < 6"
        using p assms size_bytes_le5 [OF k] by (subst le_mod_geq) (auto simp: out_of_range_def)
      with q show False by (simp add: out_of_range_def)
    qed
    then have "p + k \<le> length lp" using q assms(1) by (simp add: out_of_range_def)
    then show ?thesis using size_total [OF k] by (simp add: returns_def)
  qed
  have rds: "returns (rd lp p)" "returns (lpCurrentEncodedSizeBytes lp p)" if "\<not> out_of_range n p"
    using that assms(1) by (auto simp: out_of_range_def returns_def rd_def intro!: size_bytes_total)
  show ?thesis
    unfolding lpValidateNext_def Some option.case Let_def
    by (intro returns_intros rds size dec; assumption)
qed (simp add: lpValidateNext_def returns_intros)

text \<open>One step of the scan, from \<open>p\<close> to \<open>q\<close>.\<close>

definition vnext :: "bytes \<Rightarrow> nat \<Rightarrow> nat \<Rightarrow> nat \<Rightarrow> bool" where
  "vnext lp n p q \<longleftrightarrow> lpValidateNext lp (Some p) n = Inr (True, Some q)"

lemma lpDecodeBacklen_loop_bound:
  assumes "lpDecodeBacklen_loop lp p val shift = Inr y" "val < 2 ^ shift" "shift \<le> 28"
  shows "y < 2 ^ 35 \<or> y = ULLONG_MAX"
  using assms
proof (induction lp p val shift rule: lpDecodeBacklen_loop.induct)
  case (1 lp p val shift)
  obtain b where b: "rd lp p = Inr b"
    using "1.prems"(1) by (subst (asm) lpDecodeBacklen_loop.simps) (auto simp: rbind_Inr)
  let ?v = "val OR push_bit shift (unat (b AND 127))"
  have d: "unat (b AND 127) < 128" by (simp add: unat_and_masks)
  have v: "?v = val + unat (b AND 127) * 2 ^ shift" using "1.prems"(2) by (rule or_push_bit)
  have "unat (b AND 127) * 2 ^ shift \<le> 127 * 2 ^ shift" using d by (intro mult_le_mono1) simp
  then have "?v < 2 ^ shift + 127 * 2 ^ shift" unfolding v using "1.prems"(2) by (intro add_less_le_mono)
  then have lt: "?v < 2 ^ (shift + 7)" by (simp add: power_add)
  have "(2::nat) ^ (shift + 7) \<le> 2 ^ 35" using "1.prems"(3) by (intro power_increasing) auto
  then have lt35: "?v < 2 ^ 35" using lt by linarith
  consider "b AND 128 = 0" | "b AND 128 \<noteq> 0" "28 < shift + 7" | "b AND 128 \<noteq> 0" "\<not> 28 < shift + 7" by blast
  then show ?case
  proof cases
    case 1
    with "1.prems"(1) lt35 show ?thesis by (subst (asm) lpDecodeBacklen_loop.simps) (simp add: b Let_def)
  next
    case 2
    with "1.prems"(1) show ?thesis by (subst (asm) lpDecodeBacklen_loop.simps) (simp add: b Let_def)
  next
    case 3
    then have "p \<noteq> 0" "lpDecodeBacklen_loop lp (p - 1) ?v (shift + 7) = Inr y"
      using "1.prems"(1) by (subst (asm) lpDecodeBacklen_loop.simps, simp add: b Let_def split: if_splits)+
    then show ?thesis using "1.IH" [OF b refl _ refl] 3 lt by simp
  qed
qed

lemma backlen_size_mono: "lpEncodeBacklen_size s \<le> 5" "2 ^ 28 \<le> s \<Longrightarrow> lpEncodeBacklen_size s = 5"
  by (simp_all add: lpEncodeBacklen_size_def)

text \<open>The reversed length before \<open>q\<close> determines where the step started.\<close>

definition vsize :: "nat \<Rightarrow> nat" where
  "vsize pl = (if pl = ULLONG_MAX then 2 ^ 32 - 1 else pl)"

definition below :: "nat \<Rightarrow> nat lp_res \<Rightarrow> bool" where
  "below m r \<longleftrightarrow> (\<forall>s. r = Inr s \<longrightarrow> s < m)"

lemma below_intros:
  "below m a \<Longrightarrow> below m b \<Longrightarrow> below m (if c then a else b)"
  "(\<And>y. below m (f y)) \<Longrightarrow> below m (rbind r f)"
  "s < m \<Longrightarrow> below m (Inr s)"
  by (auto simp: below_def rbind_Inr)

lemma size_less: "lpCurrentEncodedSizeUnsafe lp p = Inr s \<Longrightarrow> s < 2 ^ 32"
proof -
  have str12: "2 + (unat (b AND 0xF) * 256 + unat c) < 2 ^ 32" for b c :: byte
  proof -
    have "unat (b AND 0xF) < 16" by (simp add: unat_and_masks)
    moreover have "unat c < 256" using unsigned_less [of c, where ?'a = nat] by simp
    ultimately show ?thesis by simp
  qed
  have str6: "1 + unat (b AND 0x3F) < 2 ^ 32" for b :: byte
  proof -
    have "unat (b AND 0x3F) < 64" by (simp add: unat_and_masks)
    then show ?thesis by simp
  qed
  have "below (2 ^ 32) (lpCurrentEncodedSizeUnsafe lp p)"
    unfolding lpCurrentEncodedSizeUnsafe_def by (intro below_intros str12 str6) simp_all
  then show "lpCurrentEncodedSizeUnsafe lp p = Inr s \<Longrightarrow> s < 2 ^ 32" by (simp add: below_def)
qed

lemma vsize_eq:
  assumes "s < 2 ^ 32" "pl < 2 ^ 35 \<or> pl = ULLONG_MAX" "bl = lpEncodeBacklen_size s"
    "(pl + bl) mod 2 ^ 64 = (s + bl) mod 2 ^ 32"
  shows "s = vsize pl"
proof -
  have bl: "1 \<le> bl" "bl \<le> 5" using lpEncodeBacklen_size_bounds [of s] assms(3) by simp_all
  have l1: "(pl + bl) mod 2 ^ 64 = pl + bl" if "pl < 2 ^ 35" using that bl by simp
  have "(ULLONG_MAX + bl) mod 2 ^ 64 = ULLONG_MAX + bl - 2 ^ 64"
    using bl by (subst le_mod_geq) simp_all
  then have l2: "(ULLONG_MAX + bl) mod 2 ^ 64 = bl - 1" by simp
  show ?thesis
  proof (cases "s + bl < 2 ^ 32")
    case True
    then have "(s + bl) mod 2 ^ 32 = s + bl" by (rule mod_less)
    with assms l1 l2 bl show ?thesis by (auto simp: vsize_def)
  next
    case False
    then have "bl = 5" using assms(3) bl by (intro trans [OF assms(3) backlen_size_mono(2)]) simp
    moreover have "(s + bl) mod 2 ^ 32 = s + bl - 2 ^ 32"
      using False assms(1) bl by (subst le_mod_geq) simp_all
    ultimately show ?thesis using assms l1 l2 False by (auto simp: vsize_def)
  qed
qed

lemma vnextD:
  assumes "vnext lp n p q"
  obtains pl where "lpDecodeBacklen lp (q - 1) = Inr pl" "6 \<le> p" "p < n" "6 \<le> q" "q < n"
    "q = (p + (vsize pl + lpEncodeBacklen_size (vsize pl))) mod 2 ^ 32"
proof -
  have p: "\<not> out_of_range n p" using assms(1) by (auto simp: vnext_def lpValidateNext_def split: if_splits)
  obtain s pl where s: "lpCurrentEncodedSizeUnsafe lp p = Inr s" "lpDecodeBacklen lp (q - 1) = Inr pl"
    "q = (p + (s + lpEncodeBacklen_size s) mod 2 ^ 32) mod 2 ^ 32" "\<not> out_of_range n q"
    "(pl + lpEncodeBacklen_size s) mod 2 ^ 64 = (s + lpEncodeBacklen_size s) mod 2 ^ 32"
    using assms(1) p unfolding vnext_def lpValidateNext_def Let_def
    by (auto simp: rbind_Inr split: if_splits)
  have "pl < 2 ^ 35 \<or> pl = ULLONG_MAX"
    using lpDecodeBacklen_loop_bound s(2) unfolding lpDecodeBacklen_def by fastforce
  then have "s = vsize pl" using s(1,5) by (intro vsize_eq size_less) simp_all
  then show thesis using that [OF s(2)] p s by (simp add: out_of_range_def mod_add_right_eq)
qed

lemma add_mod_cancel: "(a + e) mod m = (b + e) mod m \<Longrightarrow> a < m \<Longrightarrow> b < m \<Longrightarrow> a = (b::nat)"
proof -
  assume m: "(a + e) mod m = (b + e) mod m" "a < m" "b < m"
  have "(int a + int e) mod int m = (int b + int e) mod int m"
    using m(1) by (metis of_nat_add of_nat_mod)
  then have d: "int m dvd int a - int b" by (simp add: mod_eq_dvd_iff)
  have "\<bar>int a - int b\<bar> < \<bar>int m\<bar>" using m(2,3) by linarith
  then have "int a - int b = 0" using dvd_imp_le_int [OF _ d] by linarith
  then show "a = b" by simp
qed

lemma vnext_inj: "vnext lp n p q \<Longrightarrow> vnext lp n p' q \<Longrightarrow> n \<le> 2 ^ 32 \<Longrightarrow> p = p'"
  by (elim vnextD) (auto intro!: add_mod_cancel [of p _ "2 ^ 32"])
text \<open>The header of a listpack of less than 2 GiB holds no reversed length that leads back to the
  first entry.\<close>

lemma decode_stop:
  assumes "lpDecodeBacklen_loop lp p val shift = Inr y" "rd lp p = Inr b" "b AND 128 = 0" "val < 2 ^ shift"
  shows "y < 2 ^ (shift + 7)"
proof -
  have "unat (b AND 127) < 128" by (simp add: unat_and_masks)
  then have "val + unat (b AND 127) * 2 ^ shift < 2 ^ shift + 127 * 2 ^ shift"
    using assms(4) by (intro add_less_le_mono mult_le_mono1) simp_all
  then have "val + unat (b AND 127) * 2 ^ shift < 2 ^ (shift + 7)" by (simp add: power_add)
  moreover have "y = val + unat (b AND 127) * 2 ^ shift"
    using assms by (subst (asm) lpDecodeBacklen_loop.simps) (simp add: or_push_bit)
  ultimately show ?thesis by simp
qed

lemma decode_go:
  assumes "lpDecodeBacklen_loop lp p val shift = Inr y" "val < 2 ^ shift" "shift \<le> 21"
    and "\<And>val'. lpDecodeBacklen_loop lp (p - 1) val' (shift + 7) = Inr y \<Longrightarrow> val' < 2 ^ (shift + 7) \<Longrightarrow> y < 2 ^ m"
    and "shift + 7 \<le> m"
  shows "y < 2 ^ m"
proof -
  obtain b where b: "rd lp p = Inr b"
    using assms(1) by (subst (asm) lpDecodeBacklen_loop.simps) (auto simp: rbind_Inr)
  show ?thesis
  proof (cases "b AND 128 = 0")
    case True
    then have "y < 2 ^ (shift + 7)" using decode_stop assms(1,2) b by blast
    also have "\<dots> \<le> 2 ^ m" using assms(5) by (intro power_increasing) auto
    finally show ?thesis .
  next
    case False
    let ?v = "val + unat (b AND 127) * 2 ^ shift"
    have "unat (b AND 127) < 128" by (simp add: unat_and_masks)
    then have "?v < 2 ^ shift + 127 * 2 ^ shift"
      using assms(2) by (intro add_less_le_mono mult_le_mono1) simp_all
    then have "?v < 2 ^ (shift + 7)" by (simp add: power_add)
    moreover have "lpDecodeBacklen_loop lp (p - 1) ?v (shift + 7) = Inr y"
      using assms(1-3) False
      by (subst (asm) lpDecodeBacklen_loop.simps) (simp add: b or_push_bit Let_def split: if_splits)
    ultimately show ?thesis by (intro assms(4))
  qed
qed

lemma decode_header:
  assumes "lpGetTotalBytes lp = Inr n" "n < 2 ^ 31" "lpDecodeBacklen lp 5 = Inr y"
  shows "y < 2 ^ 21"
proof -
  have len: "4 \<le> length lp" and n: "n = nat (le_uint (mem_read lp 0 4))"
    using assms(1) by (simp_all add: lpGetTotalBytes_def rd_le_Inr)
  obtain a b c d r where lp: "lp = a # b # c # d # r"
    using len by (metis One_nat_def Suc_le_length_iff numeral_eq_Suc pred_numeral_simps(2,3) numeral_2_eq_2 eval_nat_numeral(2) semiring_norm(26) semiring_norm(27) semiring_norm(28))
  have "uint d * 16777216 \<le> le_uint (mem_read lp 0 4)" by (simp add: lp mem_read_def)
  moreover have "le_uint (mem_read lp 0 4) < 2 ^ 31" using n assms(2) by (simp add: nat_less_iff)
  ultimately have "uint d * 16777216 < 128 * 16777216" by (simp del: mult_less_cancel_right)
  then have "uint d < 128" by linarith
  then have "unat d < 128" unfolding unat_eq_nat_uint by linarith
  then have d: "d AND 128 = 0" using byte_tests(1) [of d] by (simp add: lp_is_7bit_uint_def)
  have r: "rd lp 3 = Inr d" by (simp add: lp rd_def)
  show ?thesis
  proof (rule decode_go [OF assms(3) [unfolded lpDecodeBacklen_def]])
    fix v
    assume v: "lpDecodeBacklen_loop lp (5 - 1) v (0 + 7) = Inr y" "v < 2 ^ (0 + 7)"
    show "y < 2 ^ 21"
    proof (rule decode_go [OF v])
      fix w
      assume "lpDecodeBacklen_loop lp (5 - 1 - 1) w (0 + 7 + 7) = Inr y" "w < 2 ^ (0 + 7 + 7)"
      then show "y < 2 ^ 21" using decode_stop [of lp 3 w 14 y d] r d by simp
    qed simp_all
  qed simp_all
qed

lemma vnext_not_first:
  assumes "lpGetTotalBytes lp = Inr n" "n < 2 ^ 31"
  shows "\<not> vnext lp n p 6"
proof
  assume "vnext lp n p 6"
  then obtain pl where pl: "lpDecodeBacklen lp 5 = Inr pl" "6 \<le> p" "p < n"
    "6 = (p + (vsize pl + lpEncodeBacklen_size (vsize pl))) mod 2 ^ 32"
    by (elim vnextD) simp
  have "pl < 2 ^ 21" using decode_header assms pl(1) by blast
  then have "vsize pl = pl" by (simp add: vsize_def)
  then have "6 = p + (pl + lpEncodeBacklen_size pl)"
    using pl(3,4) assms(2) \<open>pl < 2 ^ 21\<close> lpEncodeBacklen_size_bounds [of pl] by simp
  then show False using pl(2) lpEncodeBacklen_size_bounds(1) [of pl] by linarith
qed

text \<open>So the scan never meets an offset twice: it ends.\<close>

lemma lpValidate_loop_total:
  assumes n: "lpGetTotalBytes lp = Inr n" "n < 2 ^ 31" "n \<le> length lp"
    and "finite V" "V \<subseteq> {6..<n}" "p \<in> {6..<n}" "p \<notin> V"
    and "\<forall>v \<in> insert p V. v = 6 \<or> (\<exists>w \<in> V. vnext lp n w v)" "n - card V \<le> fuel"
  shows "returns (lpValidate_loop fuel lp n numele cb u (Some p) count)"
  using assms(4-)
proof (induction fuel arbitrary: V p u count)
  case 0
  have "card V < card {6..<n}" using "0.prems" by (intro psubset_card_mono) auto
  then show ?case using "0.prems"(6) by simp
next
  case (Suc fuel)
  obtain b where b: "rd lp p = Inr b" using Suc.prems(3) n(3) by (simp add: rd_def)
  have nx: "returns (lpValidateNext lp (Some p) n)" using n by (intro lpValidateNext_total) simp_all
  have go: "returns (lpValidate_loop fuel lp n numele cb u' q k)"
    if v: "lpValidateNext lp (Some p) n = Inr (True, q)" for q u' k
  proof (cases q)
    case None
    then show ?thesis by (simp add: returns_intros)
  next
    case (Some q')
    then have q': "vnext lp n p q'" using v by (simp add: vnext_def)
    have "q' \<notin> insert p V"
    proof
      assume "q' \<in> insert p V"
      moreover have "q' \<noteq> 6" using q' vnext_not_first [OF n(1,2)] by blast
      ultimately obtain w where "w \<in> V" "vnext lp n w q'" using Suc.prems(5) by blast
      then show False using vnext_inj [OF q'] n(2) Suc.prems(4) by simp
    qed
    moreover have "q' \<in> {6..<n}" using q' by (auto elim: vnextD)
    ultimately show ?thesis
      unfolding Some using Suc.prems q' by (intro Suc.IH [of "insert p V"]) auto
  qed
  show ?case
    unfolding lpValidate_loop.simps b rbind_simps
    by (intro returns_intros nx) (auto split: prod.splits intro!: returns_intros go)
qed

lemma lpValidateIntegrity_total:
  assumes "length lp < 2 ^ 31"
  shows "returns (lpValidateIntegrity lp (length lp) deep cb u)"
proof (cases "length lp < 7")
  case False
  have hdr: "lpGetTotalBytes lp = Inr (nat (le_uint (mem_read lp 0 4)))"
    "lpGetNumElements lp = Inr (nat (le_uint (mem_read lp 4 2)))" "returns (rd lp (length lp - 1))"
    using False by (simp_all add: lpGetTotalBytes_def lpGetNumElements_def rd_le_ok rd_def returns_intros)
  have "returns (lpValidate_loop (length lp + 1) lp (length lp) m cb u (Some 6) 0)"
    if "lpGetTotalBytes lp = Inr (length lp)" for m
    using that assms False by (intro lpValidate_loop_total [where V = "{}"]) auto
  then show ?thesis
    unfolding lpValidateIntegrity_def hdr(1,2) rbind_simps
    by (intro returns_intros hdr(3)) (auto simp: hdr intro!: returns_intros)
qed (simp add: lpValidateIntegrity_def returns_intros)

section \<open>What the wrap-around lets through\<close>

text \<open>A block of 21 bytes with three entries: the second, at offset 14, announces a string of
  \<open>0xFFFFFFF4\<close> bytes, and adding its length to the pointer wraps around to offset 12, inside the
  first entry, where a third entry ends at the terminator.\<close>

definition lp_wrap_blob :: bytes where
  "lp_wrap_blob = [21,0,0,0, 3,0, 0x86,0x0F,0xFF,0xFF,0xFF,0xF9,0x86, 7, 0xF0,0xF4,0xFF,0xFF,0xFF, 7, 0xFF]"

lemmas lp_eval = rd_def rd_le_def rd_range_def mem_read_def
  lpCurrentEncodedSizeBytes_def lpCurrentEncodedSizeUnsafe_def lp_is_7bit_uint_def lp_is_6bit_str_def
  lp_is_13bit_int_def lp_is_12bit_str_def lp_is_16bit_int_def lp_is_24bit_int_def lp_is_32bit_int_def
  lp_is_64bit_int_def lp_is_32bit_str_def lpEncodeBacklen_size_def lpDecodeBacklen_def lpDecodeBacklen_loop.simps

lemma wrap_blob_next:
  "lpValidateNext lp_wrap_blob (Some 6) 21 = Inr (True, Some 14)"
  "lpValidateNext lp_wrap_blob (Some 14) 21 = Inr (True, Some 12)"
  "lpValidateNext lp_wrap_blob (Some 12) 21 = Inr (True, Some 20)"
  by (simp_all add: lpValidateNext_def lp_wrap_blob_def out_of_range_def lp_eval)

lemma wrap_blob_rd:
  "rd lp_wrap_blob 6 = Inr 0x86" "rd lp_wrap_blob 14 = Inr 0xF0" "rd lp_wrap_blob 12 = Inr 0x86" "rd lp_wrap_blob 20 = Inr LP_EOF"
  by (simp_all add: lp_wrap_blob_def rd_def)

lemma wrap_blob_loop:
  "lpValidate_loop 22 lp_wrap_blob 21 3 None () (Some 6) 0 = Inr (True, Some 20, 3, ())"
proof -
  have "lpValidate_loop (Suc (Suc (Suc (Suc n)))) lp_wrap_blob 21 3 None () (Some 6) 0 = Inr (True, Some 20, 3, ())" for n
    by (simp add: wrap_blob_next wrap_blob_rd lp_call_cb_def)
  from this [of 18] show ?thesis by simp
qed

lemma wrap_blob_header:
  "length lp_wrap_blob = 21" "lpGetTotalBytes lp_wrap_blob = Inr 21" "lpGetNumElements lp_wrap_blob = Inr 3"
  by (simp_all add: lp_wrap_blob_def lpGetTotalBytes_def lpGetNumElements_def lp_eval)

lemma wrap_blob_accepted:
  "lpValidateIntegrity lp_wrap_blob (length lp_wrap_blob) True None () = Inr (True, ())"
  by (simp add: lpValidateIntegrity_def wrap_blob_header wrap_blob_rd wrap_blob_loop)

lemma wrap_blob_get:
  "lpGet lp_wrap_blob 14 = Inr (LP_STR 19 4294967284)" "rd_range lp_wrap_blob 19 4294967284 = Inl LP_OOB"
  by (simp add: lp_wrap_blob_def lpGet_def lpGetWithSize_def lp_eval) (simp add: wrap_blob_header rd_range_def)

section \<open>Properties\<close>

text \<open>C10: Deep validation of an arbitrary block of less than 2 GiB always returns: it reads no byte
  outside the block and its scan ends, whatever the bytes are and whatever the callback answers,
  although entries may announce any length and pointers wrap at 32 bits.\<close>

theorem lpValidateIntegrity_terminates:
  assumes "length lp < 2 ^ 31"
  shows "\<exists>ok u'. lpValidateIntegrity lp (length lp) deep cb u = Inr (ok, u')"
  using lpValidateIntegrity_total [OF assms, of deep cb u] by (auto simp: returns_def)

theorem lpValidateIntegrity_terminates_witness:
  "\<exists>ok u'. lpValidateIntegrity [9, 0, 0, 0, 1, 0, 0xF0, 0xFF, 0xFF] 9 True None () = Inr (ok, u')"
proof -
  let ?lp = "[9, 0, 0, 0, 1, 0, 0xF0, 0xFF, 0xFF] :: bytes"
  have "length ?lp = 9" by simp
  then show ?thesis using lpValidateIntegrity_terminates [of ?lp True None "()"] by (simp only:) simp
qed

text \<open>C17: Every listpack passes validation, header-only and deep.\<close>

theorem lpValidateIntegrity_accepts:
  assumes "lp_list lp ts" "lpBytes lp = Inr n"
  shows "lpValidateIntegrity lp n deep None u = Inr (True, u)"
proof -
  obtain es where "lp_rep lp es" using assms(1) by (auto simp: lp_list_def)
  then show ?thesis using lpValidateIntegrity_rep [of lp es deep u] assms(2) lp_rep_total [of lp es] by (simp add: lpBytes_def)
qed

theorem lpValidateIntegrity_accepts_witness: "lpValidateIntegrity lp_a5 12 True None () = Inr (True, ())"
  by (rule lpValidateIntegrity_accepts [OF lp_a5_list lp_a5_bytes])


end
