(* ===== verification/Host.thy ===== *)
theory Host
  imports Prelude
begin

text \<open>
  The host side of the program: the state of \<open>ValkeyServer\<close> in \<^verbatim>\<open>src/bridge/valkey-server.ts\<close>, the
  functions it exports to the wasm module (\<^verbatim>\<open>src/src/wasi/host.h\<close>) and the handlers it installs on
  its listeners and sockets.  A socket of \<open>node:net\<close> is seen through its events, which are
  operations of the model, and through the bytes written to it (\<open>sr_sent\<close>); whether \<open>socket.write\<close>
  reports backpressure is an argument.  Buffers in the linear memory are lists: \<open>host_read\<close> returns
  the bytes it copies, \<open>host_write\<close> takes them, \<open>host_poll\<close> maps the interest pairs to the fired
  pairs.
\<close>

section \<open>The state\<close>

type_synonym mask = "32 word"

abbreviation (input) AE_NONE :: mask where "AE_NONE \<equiv> 0"
abbreviation (input) AE_READABLE :: mask where "AE_READABLE \<equiv> 1"
abbreviation (input) AE_WRITABLE :: mask where "AE_WRITABLE \<equiv> 2"
abbreviation (input) AE_BARRIER :: mask where "AE_BARRIER \<equiv> 4"
abbreviation (input) HOST_FD_BASE :: int where "HOST_FD_BASE \<equiv> 4096"

record sock_rec =
  sr_chunks :: "bytes list"
  sr_off :: nat
  sr_eof :: bool
  sr_backpressured :: bool
  sr_sent :: bytes

record listener_rec =
  lr_port :: int
  lr_pending :: "int list"

record host =
  nextFd :: int
  socks :: "int \<rightharpoonup> sock_rec"
  listeners :: "int \<rightharpoonup> listener_rec"
  stepScheduled :: bool
  hclosed :: bool

definition host_init :: host where
  "host_init = \<lparr>nextFd = HOST_FD_BASE, socks = Map.empty, listeners = Map.empty, stepScheduled = False, hclosed = False\<rparr>"

definition allocFd :: "host \<Rightarrow> int \<times> host" where
  "allocFd h = (nextFd h, h\<lparr>nextFd := nextFd h + 1\<rparr>)"

text \<open>A microtask that runs one pass of the reactor is queued exactly when \<open>stepScheduled\<close>.\<close>

definition scheduleStep :: "host \<Rightarrow> host" where
  "scheduleStep h = (if stepScheduled h \<or> hclosed h then h else h\<lparr>stepScheduled := True\<rparr>)"

section \<open>Handlers of the sockets and listeners\<close>

definition new_sock :: sock_rec where
  "new_sock = \<lparr>sr_chunks = [], sr_off = 0, sr_eof = False, sr_backpressured = False, sr_sent = []\<rparr>"

text \<open>The handler of \<open>createServer\<close>, for the listener \<open>lfd\<close>.\<close>

definition on_connection :: "int \<Rightarrow> host \<Rightarrow> host" where
  "on_connection lfd h =
     (let (cfd, h) = allocFd h;
          h = h\<lparr>socks := (socks h)(cfd \<mapsto> new_sock)\<rparr>;
          h = h\<lparr>listeners := (case listeners h lfd of
                None \<Rightarrow> listeners h
              | Some r \<Rightarrow> (listeners h)(lfd \<mapsto> r\<lparr>lr_pending := lr_pending r @ [cfd]\<rparr>))\<rparr>
      in scheduleStep h)"

text \<open>The handlers of a socket change its record; after \<open>close\<close> the record is out of reach.\<close>

definition upd_sock :: "int \<Rightarrow> (sock_rec \<Rightarrow> sock_rec) \<Rightarrow> host \<Rightarrow> host" where
  "upd_sock fd f h = h\<lparr>socks := (case socks h fd of None \<Rightarrow> socks h | Some s \<Rightarrow> (socks h)(fd \<mapsto> f s))\<rparr>"

definition on_data :: "int \<Rightarrow> bytes \<Rightarrow> host \<Rightarrow> host" where
  "on_data fd buf h = scheduleStep (upd_sock fd (\<lambda>s. s\<lparr>sr_chunks := sr_chunks s @ [buf]\<rparr>) h)"

definition on_end :: "int \<Rightarrow> host \<Rightarrow> host" where
  "on_end fd h = scheduleStep (upd_sock fd (\<lambda>s. s\<lparr>sr_eof := True\<rparr>) h)"

definition on_close :: "int \<Rightarrow> host \<Rightarrow> host" where
  "on_close fd h = scheduleStep (upd_sock fd (\<lambda>s. s\<lparr>sr_eof := True\<rparr>) h)"

definition on_error :: "int \<Rightarrow> host \<Rightarrow> host" where
  "on_error fd h = upd_sock fd (\<lambda>s. s\<lparr>sr_eof := True\<rparr>) h"

definition on_drain :: "int \<Rightarrow> host \<Rightarrow> host" where
  "on_drain fd h = scheduleStep (upd_sock fd (\<lambda>s. s\<lparr>sr_backpressured := False\<rparr>) h)"

section \<open>The imported functions\<close>

definition host_socket :: "host \<Rightarrow> int \<times> host" where
  "host_socket h = allocFd h"

text \<open>\<open>own_port\<close> is \<open>this.port\<close>, used when the port is 0.\<close>

definition host_listen :: "int \<Rightarrow> int \<Rightarrow> int \<Rightarrow> host \<Rightarrow> int \<times> host" where
  "host_listen own_port fd port h =
     (0, h\<lparr>listeners := (listeners h)(fd \<mapsto>
            \<lparr>lr_port = (if port \<noteq> 0 then port else own_port), lr_pending = []\<rparr>)\<rparr>)"

definition host_accept :: "int \<Rightarrow> host \<Rightarrow> int \<times> host" where
  "host_accept lfd h = (case listeners h lfd of
     None \<Rightarrow> (-1, h)
   | Some r \<Rightarrow> (case lr_pending r of
       [] \<Rightarrow> (-1, h)
     | cfd # ps \<Rightarrow> (cfd, h\<lparr>listeners := (listeners h)(lfd \<mapsto> r\<lparr>lr_pending := ps\<rparr>)\<rparr>)))"

text \<open>The loop of \<open>read\<close>: the bytes copied, the chunks and the offset left; \<open>k\<close> is \<open>len - written\<close>.\<close>

function read_loop :: "bytes list \<Rightarrow> nat \<Rightarrow> nat \<Rightarrow> bytes \<times> bytes list \<times> nat" where
  "read_loop chunks off k =
     (if k = 0 then ([], chunks, off)
      else case chunks of
        [] \<Rightarrow> ([], chunks, off)
      | c # cs \<Rightarrow>
          let avail = length c - off;
              n = min avail k;
              (bs, rest) = (if length c \<le> off + n then read_loop cs 0 (k - n) else read_loop chunks (off + n) (k - n))
          in (mem_read c off n @ bs, rest))"
  by pat_completeness auto
termination
  by (relation "measure (\<lambda>(chunks, off, k). length chunks + k)") auto

declare read_loop.simps [simp del]

definition host_read :: "int \<Rightarrow> nat \<Rightarrow> host \<Rightarrow> int \<times> bytes \<times> host" where
  "host_read fd len h = (case socks h fd of
     None \<Rightarrow> (-1, [], h)
   | Some s \<Rightarrow>
       if sr_chunks s = [] then (if sr_eof s then 0 else -1, [], h)
       else let (bs, chunks, off) = read_loop (sr_chunks s) (sr_off s) len
            in (int (length bs), bs, h\<lparr>socks := (socks h)(fd \<mapsto> s\<lparr>sr_chunks := chunks, sr_off := off\<rparr>)\<rparr>))"

definition host_write :: "int \<Rightarrow> bytes \<Rightarrow> bool \<Rightarrow> host \<Rightarrow> int \<times> host" where
  "host_write fd bs ok h = (case socks h fd of
     None \<Rightarrow> (-1, h)
   | Some s \<Rightarrow>
       if sr_eof s then (-1, h)
       else (int (length bs),
             h\<lparr>socks := (socks h)(fd \<mapsto> s\<lparr>sr_sent := sr_sent s @ bs,
                 sr_backpressured := (if ok then sr_backpressured s else True)\<rparr>)\<rparr>))"

definition host_close :: "int \<Rightarrow> host \<Rightarrow> host" where
  "host_close fd h = h\<lparr>socks := (socks h)(fd := None), listeners := (listeners h)(fd := None)\<rparr>"

definition poll_ready :: "host \<Rightarrow> int \<Rightarrow> mask \<Rightarrow> mask" where
  "poll_ready h fd m = (case listeners h fd of
     Some r \<Rightarrow> if m AND AE_READABLE \<noteq> 0 \<and> lr_pending r \<noteq> [] then AE_READABLE else 0
   | None \<Rightarrow> (case socks h fd of
       None \<Rightarrow> 0
     | Some s \<Rightarrow>
         (if m AND AE_READABLE \<noteq> 0 \<and> (sr_chunks s \<noteq> [] \<or> sr_eof s) then AE_READABLE else 0) OR
         (if m AND AE_WRITABLE \<noteq> 0 \<and> \<not> sr_backpressured s then AE_WRITABLE else 0)))"

fun host_poll :: "host \<Rightarrow> (int \<times> mask) list \<Rightarrow> nat \<Rightarrow> (int \<times> mask) list" where
  "host_poll h [] cap = []"
| "host_poll h ((fd, m) # interest) cap =
     (if cap = 0 then []
      else let ready = poll_ready h fd m in
        if ready \<noteq> 0 then (fd, ready) # host_poll h interest (cap - 1)
        else host_poll h interest cap)"

section \<open>Stopping\<close>

definition host_stop :: "host \<Rightarrow> host" where
  "host_stop h = h\<lparr>hclosed := True, listeners := Map.empty, socks := Map.empty\<rparr>"

section \<open>The inbound buffer\<close>

definition buf_ok :: "bytes list \<Rightarrow> nat \<Rightarrow> bool" where
  "buf_ok chunks off \<longleftrightarrow> [] \<notin> set chunks \<and> (case chunks of [] \<Rightarrow> off = 0 | c # _ \<Rightarrow> off < length c)"

definition buf_content :: "bytes list \<Rightarrow> nat \<Rightarrow> bytes" where
  "buf_content chunks off = drop off (concat chunks)"

lemma buf_ok_simps [simp]:
  "buf_ok [] off \<longleftrightarrow> off = 0" "buf_ok (c # cs) off \<longleftrightarrow> c \<noteq> [] \<and> [] \<notin> set cs \<and> off < length c"
  by (auto simp: buf_ok_def)

lemma buf_content_Nil [simp]: "buf_content [] off = []"
  by (simp add: buf_content_def)

lemma buf_content_Cons: "off \<le> length c \<Longrightarrow> buf_content (c # cs) off = drop off c @ concat cs"
  by (simp add: buf_content_def)

lemma read_loop_0: "read_loop chunks off 0 = ([], chunks, off)" "read_loop [] off k = ([], [], off)"
  by (simp_all add: read_loop.simps)

lemma read_loop_chunk:
  "0 < k \<Longrightarrow> length c - off \<le> k \<Longrightarrow>
   read_loop (c # cs) off k = (let (bs, rest) = read_loop cs 0 (k - (length c - off)) in (drop off c @ bs, rest))"
  "0 < k \<Longrightarrow> k < length c - off \<Longrightarrow> read_loop (c # cs) off k = (take k (drop off c), c # cs, off + k)"
proof -
  assume k: "0 < k" "length c - off \<le> k"
  have n: "min (length c - off) k = length c - off" "(length c \<le> off + (length c - off)) = True" "(k = 0) = False"
    using k by auto
  show "read_loop (c # cs) off k = (let (bs, rest) = read_loop cs 0 (k - (length c - off)) in (drop off c @ bs, rest))"
    unfolding read_loop.simps [of "c # cs" off k] Let_def list.case n if_True if_False by (simp add: mem_read_def)
next
  assume k: "0 < k" "k < length c - off"
  have n: "min (length c - off) k = k" "(length c \<le> off + k) = False" "(k = 0) = False" using k by auto
  show "read_loop (c # cs) off k = (take k (drop off c), c # cs, off + k)"
    unfolding read_loop.simps [of "c # cs" off k] Let_def list.case n if_True if_False
    by (simp add: mem_read_def read_loop_0)
qed

lemma read_loop_spec:
  assumes "buf_ok chunks off" "read_loop chunks off k = (bs, chunks', off')"
  shows "bs = take k (buf_content chunks off) \<and> buf_content chunks' off' = drop k (buf_content chunks off) \<and> buf_ok chunks' off'"
  using assms
proof (induction chunks arbitrary: off k bs)
  case Nil
  then show ?case by (simp add: read_loop_0)
next
  case (Cons c cs)
  consider "k = 0" | "0 < k" "length c - off \<le> k" | "0 < k" "k < length c - off" by linarith
  then show ?case
  proof cases
    case 1
    then show ?thesis using Cons.prems by (auto simp: read_loop_0)
  next
    case 2
    obtain bs2 where r: "read_loop cs 0 (k - (length c - off)) = (bs2, chunks', off')" "bs = drop off c @ bs2"
      using Cons.prems(2) 2 by (auto simp: read_loop_chunk split: prod.splits)
    have "buf_ok cs 0" using Cons.prems(1) by (cases cs) auto
    then show ?thesis using Cons.IH [OF _ r(1)] r(2) 2 Cons.prems(1) by (simp add: buf_content_Cons buf_content_def)
  next
    case 3
    then show ?thesis using Cons.prems by (auto simp: read_loop_chunk buf_content_Cons add.commute)
  qed
qed

section \<open>Runs of the bridge\<close>

datatype hevent = Connect int | Data int bytes | End int | Closed int | Failed int | Drain int
  | HSocket | HListen int int | HAccept int | HRead int nat | HWrite int bytes bool | HClose int

datatype hout = OUnit | OFd int | ORead int bytes

definition hstep :: "int \<Rightarrow> hevent \<Rightarrow> host \<Rightarrow> hout \<times> host" where
  "hstep own_port ev h = (case ev of
     Connect lfd \<Rightarrow> (OUnit, on_connection lfd h)
   | Data fd buf \<Rightarrow> (OUnit, on_data fd buf h)
   | End fd \<Rightarrow> (OUnit, on_end fd h)
   | Closed fd \<Rightarrow> (OUnit, on_close fd h)
   | Failed fd \<Rightarrow> (OUnit, on_error fd h)
   | Drain fd \<Rightarrow> (OUnit, on_drain fd h)
   | HSocket \<Rightarrow> (case host_socket h of (fd, h) \<Rightarrow> (OFd fd, h))
   | HListen fd port \<Rightarrow> (OUnit, snd (host_listen own_port fd port h))
   | HAccept lfd \<Rightarrow> (case host_accept lfd h of (fd, h) \<Rightarrow> (OFd fd, h))
   | HRead fd len \<Rightarrow> (case host_read fd len h of (r, bs, h) \<Rightarrow> (ORead fd bs, h))
   | HWrite fd bs ok \<Rightarrow> (OUnit, snd (host_write fd bs ok h))
   | HClose fd \<Rightarrow> (OUnit, host_close fd h))"

fun hrun :: "int \<Rightarrow> hevent list \<Rightarrow> host \<Rightarrow> hout list \<times> host" where
  "hrun own_port [] h = ([], h)"
| "hrun own_port (ev # evs) h =
     (let (out, h) = hstep own_port ev h; (outs, h) = hrun own_port evs h in (out # outs, h))"

text \<open>What the events bring and the reads take, per descriptor.\<close>

fun arrived :: "int \<Rightarrow> hevent list \<Rightarrow> bytes" where
  "arrived fd [] = []"
| "arrived fd (ev # evs) = (case ev of Data fd' buf \<Rightarrow> if fd' = fd then buf else [] | _ \<Rightarrow> []) @ arrived fd evs"

fun taken :: "int \<Rightarrow> hout list \<Rightarrow> bytes" where
  "taken fd [] = []"
| "taken fd (out # outs) = (case out of ORead fd' bs \<Rightarrow> if fd' = fd then bs else [] | _ \<Rightarrow> []) @ taken fd outs"

fun handed_out :: "hout list \<Rightarrow> int list" where
  "handed_out [] = []"
| "handed_out (out # outs) = (case out of OFd fd \<Rightarrow> if 0 \<le> fd then [fd] else [] | _ \<Rightarrow> []) @ handed_out outs"

text \<open>Events that \<open>node:net\<close> and the shim can produce: chunks are not empty, and only a descriptor
  that is not a connection becomes a listener.\<close>

definition ev_ok :: "host \<Rightarrow> hevent \<Rightarrow> bool" where
  "ev_ok h ev = (case ev of
     Data fd buf \<Rightarrow> buf \<noteq> [] | HListen fd port \<Rightarrow> fd < nextFd h \<and> fd \<notin> dom (socks h) | _ \<Rightarrow> True)"

fun evs_ok :: "int \<Rightarrow> hevent list \<Rightarrow> host \<Rightarrow> bool" where
  "evs_ok own_port [] h = True"
| "evs_ok own_port (ev # evs) h = (ev_ok h ev \<and> evs_ok own_port evs (snd (hstep own_port ev h)))"

definition pending_fds :: "host \<Rightarrow> int set" where
  "pending_fds h = (\<Union>r \<in> ran (listeners h). set (lr_pending r))"

text \<open>The invariant: descriptors are below the counter, the queues of the listeners hold every
  descriptor once, the buffers are well-formed.\<close>

definition host_wf :: "host \<Rightarrow> bool" where
  "host_wf h \<longleftrightarrow> HOST_FD_BASE \<le> nextFd h
     \<and> (\<forall>fd \<in> dom (socks h). HOST_FD_BASE \<le> fd \<and> fd < nextFd h)
     \<and> (\<forall>fd s. socks h fd = Some s \<longrightarrow> buf_ok (sr_chunks s) (sr_off s))
     \<and> (\<forall>l r. listeners h l = Some r \<longrightarrow> l < nextFd h \<and> distinct (lr_pending r) \<and> (\<forall>fd \<in> set (lr_pending r). HOST_FD_BASE \<le> fd \<and> fd < nextFd h))
     \<and> (\<forall>l l' r r'. listeners h l = Some r \<longrightarrow> listeners h l' = Some r' \<longrightarrow> l \<noteq> l' \<longrightarrow> set (lr_pending r) \<inter> set (lr_pending r') = {})"

lemma host_wfD:
  assumes "host_wf h"
  shows "HOST_FD_BASE \<le> nextFd h"
    and "socks h fd = Some s \<Longrightarrow> HOST_FD_BASE \<le> fd \<and> fd < nextFd h \<and> buf_ok (sr_chunks s) (sr_off s)"
    and "listeners h l = Some r \<Longrightarrow> l < nextFd h \<and> distinct (lr_pending r) \<and> (\<forall>fd \<in> set (lr_pending r). HOST_FD_BASE \<le> fd \<and> fd < nextFd h)"
    and "listeners h l = Some r \<Longrightarrow> listeners h l' = Some r' \<Longrightarrow> l \<noteq> l' \<Longrightarrow> set (lr_pending r) \<inter> set (lr_pending r') = {}"
  using assms unfolding host_wf_def by blast+

lemma host_wf_init: "host_wf host_init"
  by (simp add: host_wf_def host_init_def)

lemma scheduleStep_simps [simp]:
  "nextFd (scheduleStep h) = nextFd h" "socks (scheduleStep h) = socks h" "listeners (scheduleStep h) = listeners h"
  "hclosed (scheduleStep h) = hclosed h"
  by (simp_all add: scheduleStep_def)

lemma host_wf_cong: "nextFd h' = nextFd h \<Longrightarrow> socks h' = socks h \<Longrightarrow> listeners h' = listeners h \<Longrightarrow> host_wf h' = host_wf h"
  by (simp add: host_wf_def)

lemma host_wf_schedule [simp]: "host_wf (scheduleStep h) = host_wf h"
  by (rule host_wf_cong) simp_all

lemma buf_ok_snoc: "buf_ok chunks off \<Longrightarrow> buf \<noteq> [] \<Longrightarrow> buf_ok (chunks @ [buf]) off"
  by (cases chunks) auto

lemma host_wf_upd_sock:
  assumes "host_wf h" "\<And>s. buf_ok (sr_chunks s) (sr_off s) \<Longrightarrow> buf_ok (sr_chunks (f s)) (sr_off (f s))"
  shows "host_wf (upd_sock fd f h)"
  using assms by (auto simp: host_wf_def upd_sock_def split: option.splits)

lemma host_wf_bump:
  assumes "host_wf h"
  shows "host_wf (h\<lparr>nextFd := nextFd h + 1\<rparr>)"
  using assms unfolding host_wf_def by (auto simp: less_imp_le)

lemma host_wf_sock:
  "host_wf h \<Longrightarrow> HOST_FD_BASE \<le> fd \<Longrightarrow> fd < nextFd h \<Longrightarrow> buf_ok (sr_chunks s) (sr_off s) \<Longrightarrow>
   host_wf (h\<lparr>socks := (socks h)(fd \<mapsto> s)\<rparr>)"
  by (simp add: host_wf_def)

lemma host_wf_listener:
  assumes "host_wf h" "l < nextFd h" "distinct (lr_pending r)" "\<forall>fd \<in> set (lr_pending r). HOST_FD_BASE \<le> fd \<and> fd < nextFd h"
    and "\<And>l' r'. listeners h l' = Some r' \<Longrightarrow> l' \<noteq> l \<Longrightarrow> set (lr_pending r) \<inter> set (lr_pending r') = {}"
  shows "host_wf (h\<lparr>listeners := (listeners h)(l \<mapsto> r)\<rparr>)"
proof -
  note wf = host_wfD [OF assms(1)]
  have "set (lr_pending r1) \<inter> set (lr_pending r2) = {}"
    if "((listeners h)(l \<mapsto> r)) l1 = Some r1" "((listeners h)(l \<mapsto> r)) l2 = Some r2" "l1 \<noteq> l2" for l1 l2 r1 r2
    using that assms(5) [of l1 r1] assms(5) [of l2 r2] wf(4) [of l1 r1 l2 r2] by (auto split: if_splits)
  then show ?thesis using assms(1-4) unfolding host_wf_def by simp
qed

lemma host_wf_connection:
  assumes "host_wf h"
  shows "host_wf (on_connection lfd h)"
proof -
  define h1 where "h1 = h\<lparr>nextFd := nextFd h + 1, socks := (socks h)(nextFd h \<mapsto> new_sock)\<rparr>"
  have h1: "host_wf h1"
    using host_wf_sock [OF host_wf_bump [OF assms], of "nextFd h" new_sock] host_wfD(1) [OF assms]
    by (simp add: h1_def new_sock_def)
  show ?thesis
  proof (cases "listeners h lfd")
    case None
    then have "on_connection lfd h = scheduleStep h1" by (simp add: on_connection_def allocFd_def h1_def)
    then show ?thesis using h1 by simp
  next
    case (Some r)
    have eq: "on_connection lfd h =
        scheduleStep (h1\<lparr>listeners := (listeners h1)(lfd \<mapsto> r\<lparr>lr_pending := lr_pending r @ [nextFd h]\<rparr>)\<rparr>)"
      using Some by (simp add: on_connection_def allocFd_def h1_def)
    have old: "nextFd h \<notin> set (lr_pending r')" if "listeners h l = Some r'" for l r'
      using host_wfD(3) [OF assms that] by auto
    show ?thesis unfolding eq host_wf_schedule
    proof (rule host_wf_listener [OF h1])
      fix l' r'
      assume "listeners h1 l' = Some r'" "l' \<noteq> lfd"
      then show "set (lr_pending (r\<lparr>lr_pending := lr_pending r @ [nextFd h]\<rparr>)) \<inter> set (lr_pending r') = {}"
        using host_wfD(4) [OF assms Some, of l' r'] old [of l' r'] by (auto simp: h1_def)
    qed (use host_wfD(1,3) [OF assms] Some old in \<open>fastforce simp: h1_def\<close>)+
  qed
qed

lemma host_wf_accept:
  assumes "host_wf h"
  shows "host_wf (snd (host_accept lfd h))"
proof (cases "listeners h lfd")
  case (Some r)
  show ?thesis
  proof (cases "lr_pending r")
    case (Cons cfd ps)
    have "host_wf (h\<lparr>listeners := (listeners h)(lfd \<mapsto> r\<lparr>lr_pending := ps\<rparr>)\<rparr>)"
    proof (rule host_wf_listener [OF assms])
      fix l' r'
      assume "listeners h l' = Some r'" "l' \<noteq> lfd"
      then show "set (lr_pending (r\<lparr>lr_pending := ps\<rparr>)) \<inter> set (lr_pending r') = {}"
        using host_wfD(4) [OF assms Some, of l' r'] Cons by auto
    qed (use host_wfD(3) [OF assms Some] Cons in auto)
    then show ?thesis using Some Cons by (simp add: host_accept_def)
  qed (use Some assms in \<open>simp add: host_accept_def\<close>)
qed (use assms in \<open>simp add: host_accept_def\<close>)

lemma host_wf_read: "host_wf h \<Longrightarrow> host_wf (snd (snd (host_read fd len h)))"
  using read_loop_spec host_wfD(2) [of h fd]
  by (auto simp: host_read_def intro!: host_wf_sock split: option.splits prod.splits)

lemma host_wf_write: "host_wf h \<Longrightarrow> host_wf (snd (host_write fd bs ok h))"
  using host_wfD(2) [of h fd] by (auto simp: host_write_def intro!: host_wf_sock split: option.splits)

lemma host_wf_close:
  assumes "host_wf h"
  shows "host_wf (host_close fd h)"
  using assms unfolding host_wf_def host_close_def by auto

lemma host_wf_listen:
  assumes "host_wf h" "fd < nextFd h"
  shows "host_wf (snd (host_listen own_port fd port h))"
  unfolding host_listen_def snd_conv using assms by (intro host_wf_listener) simp_all

lemma host_wf_step:
  assumes "host_wf h" "ev_ok h ev"
  shows "host_wf (snd (hstep own_port ev h))"
proof (cases ev)
  case (HAccept lfd)
  then show ?thesis using host_wf_accept [OF assms(1), of lfd] by (auto simp: hstep_def split: prod.splits)
next
  case (HRead fd len)
  then show ?thesis using host_wf_read [OF assms(1), of fd len] by (auto simp: hstep_def split: prod.splits)
qed (use assms in \<open>auto simp: hstep_def ev_ok_def on_data_def on_end_def on_close_def on_error_def on_drain_def
    host_socket_def allocFd_def host_wf_bump host_wf_connection host_wf_listen host_wf_write host_wf_close
    intro!: host_wf_upd_sock buf_ok_snoc\<close>)

section \<open>No byte is lost or duplicated\<close>

definition inbound :: "int \<Rightarrow> host \<Rightarrow> bytes" where
  "inbound fd h = (case socks h fd of None \<Rightarrow> [] | Some s \<Rightarrow> buf_content (sr_chunks s) (sr_off s))"

lemma inbound_schedule [simp]: "inbound fd (scheduleStep h) = inbound fd h"
  by (simp add: inbound_def)

lemma buf_content_snoc: "buf_ok chunks off \<Longrightarrow> buf_content (chunks @ [buf]) off = buf_content chunks off @ buf"
  by (cases chunks) (simp_all add: buf_content_def)

lemma inbound_step:
  assumes "host_wf h" "ev_ok h ev" "ev \<noteq> HClose fd" "fd \<in> dom (socks h)" "hstep own_port ev h = (out, h')"
  shows "taken fd [out] @ inbound fd h' = inbound fd h @ arrived fd [ev] \<and> fd \<in> dom (socks h')"
proof -
  obtain s where s: "socks h fd = Some s" using assms(4) by auto
  have wf: "fd < nextFd h" "buf_ok (sr_chunks s) (sr_off s)" using host_wfD(2) [OF assms(1) s] by simp_all
  show ?thesis
  proof (cases ev)
    case (HRead fd' len)
    show ?thesis
    proof (cases "fd' = fd")
      case True
      obtain bs chunks off where rl: "read_loop (sr_chunks s) (sr_off s) len = (bs, chunks, off)" by (metis prod_cases3)
      then have "bs @ buf_content chunks off = buf_content (sr_chunks s) (sr_off s)"
        using read_loop_spec [OF wf(2) rl] by simp
      then show ?thesis using True assms(5) s rl HRead
        by (auto simp: hstep_def host_read_def inbound_def split: if_splits)
    next
      case False
      then show ?thesis
        using assms(5) s HRead
        by (auto simp: hstep_def host_read_def inbound_def Let_def split: prod.splits if_splits option.splits)
    qed
  next
    case (HAccept lfd)
    then show ?thesis using assms(5) s
      by (auto simp: hstep_def host_accept_def inbound_def split: prod.splits option.splits list.splits)
  qed (use assms s wf in \<open>auto simp: hstep_def ev_ok_def on_data_def on_end_def on_close_def on_error_def on_drain_def
      host_socket_def allocFd_def on_connection_def host_listen_def host_write_def host_close_def upd_sock_def
      inbound_def buf_content_snoc Let_def split: option.splits if_splits\<close>)
qed

lemma inbound_run:
  assumes "host_wf h" "evs_ok own_port evs h" "HClose fd \<notin> set evs" "fd \<in> dom (socks h)" "hrun own_port evs h = (outs, h')"
  shows "taken fd outs @ inbound fd h' = inbound fd h @ arrived fd evs"
  using assms
proof (induction evs arbitrary: h outs)
  case (Cons ev evs)
  obtain out h1 where st: "hstep own_port ev h = (out, h1)" by force
  obtain outs1 where r: "hrun own_port evs h1 = (outs1, h')" "outs = out # outs1"
    using Cons.prems(5) st by (auto simp: Let_def split: prod.splits)
  have ok: "ev_ok h ev" "evs_ok own_port evs h1" "ev \<noteq> HClose fd" "HClose fd \<notin> set evs" using Cons.prems(2,3) st by auto
  have s1: "taken fd [out] @ inbound fd h1 = inbound fd h @ arrived fd [ev]" "fd \<in> dom (socks h1)"
    using inbound_step [OF Cons.prems(1) ok(1,3) Cons.prems(4) st] by simp_all
  have "host_wf h1" using host_wf_step [OF Cons.prems(1) ok(1), of own_port] st by simp
  then have "taken fd outs1 @ inbound fd h' = inbound fd h1 @ arrived fd evs"
    using Cons.IH ok(2,4) s1(2) r(1) by blast
  then show ?case using s1(1) r(2) by simp
qed simp

section \<open>Descriptors are handed out once\<close>

definition issued_ok :: "int set \<Rightarrow> host \<Rightarrow> bool" where
  "issued_ok I h \<longleftrightarrow> (\<forall>fd \<in> I. fd < nextFd h \<and> (\<forall>l r. listeners h l = Some r \<longrightarrow> fd \<notin> set (lr_pending r)))"

lemma issued_mono:
  assumes "issued_ok I h" "nextFd h \<le> nextFd h'"
    and "\<And>l r' fd. listeners h' l = Some r' \<Longrightarrow> fd \<in> set (lr_pending r') \<Longrightarrow>
      nextFd h \<le> fd \<or> (\<exists>r. listeners h l = Some r \<and> fd \<in> set (lr_pending r))"
  shows "issued_ok I h'"
  using assms unfolding issued_ok_def by fastforce

lemma issued_connection: "issued_ok I h \<Longrightarrow> issued_ok I (on_connection lfd h)"
  by (rule issued_mono) (auto simp: on_connection_def allocFd_def Let_def split: option.splits if_splits)

lemma issued_accept:
  assumes "host_wf h" "issued_ok I h" "host_accept lfd h = (fd, h')" "0 \<le> fd"
  shows "issued_ok (insert fd I) h'" "fd \<notin> I"
proof -
  obtain r ps where r: "listeners h lfd = Some r" "lr_pending r = fd # ps"
    and h': "h' = h\<lparr>listeners := (listeners h)(lfd \<mapsto> r\<lparr>lr_pending := ps\<rparr>)\<rparr>"
    using assms(3,4) by (auto simp: host_accept_def split: option.splits list.splits)
  show "fd \<notin> I" using assms(2) r by (fastforce simp: issued_ok_def)
  have "issued_ok I h'" using assms(2) by (rule issued_mono) (use r h' in \<open>auto split: if_splits\<close>)
  moreover have "fd < nextFd h" "fd \<notin> set ps" using host_wfD(3) [OF assms(1) r(1)] r(2) by auto
  moreover have "fd \<notin> set (lr_pending r')" if "listeners h l = Some r'" "l \<noteq> lfd" for l r'
    using host_wfD(4) [OF assms(1) r(1) that(1)] that(2) r(2) by auto
  ultimately show "issued_ok (insert fd I) h'" unfolding issued_ok_def h' by auto
qed

lemma issued_step:
  assumes "host_wf h" "issued_ok I h" "hstep own_port ev h = (out, h')"
  shows "issued_ok (I \<union> set (handed_out [out])) h' \<and> set (handed_out [out]) \<inter> I = {}"
proof (cases ev)
  case (HAccept lfd)
  obtain fd where fd: "host_accept lfd h = (fd, h')" "out = OFd fd"
    using assms(3) HAccept by (auto simp: hstep_def split: prod.splits)
  show ?thesis
  proof (cases "0 \<le> fd")
    case True
    then show ?thesis using issued_accept [OF assms(1,2) fd(1)] fd(2) by simp
  next
    case False
    then have "h' = h" using fd(1) assms(1) host_wfD(3) [OF assms(1)]
      by (fastforce simp: host_accept_def split: option.splits list.splits)
    then show ?thesis using False fd(2) assms(2) by simp
  qed
next
  case HSocket
  then have o: "out = OFd (nextFd h)" "h' = h\<lparr>nextFd := nextFd h + 1\<rparr>"
    using assms(3) by (auto simp: hstep_def host_socket_def allocFd_def)
  have "nextFd h \<notin> set (lr_pending r)" if "listeners h l = Some r" for l r using host_wfD(3) [OF assms(1) that] by auto
  then show ?thesis using assms(2) o host_wfD(1) [OF assms(1)] by (auto simp: issued_ok_def)
next
  case (HRead fd len)
  then have "nextFd h' = nextFd h" "listeners h' = listeners h" "handed_out [out] = []"
    using assms(3) by (auto simp: hstep_def host_read_def Let_def split: prod.splits option.splits if_splits)
  then show ?thesis using assms(2) by (simp add: issued_ok_def)
next
  case (Connect lfd)
  then show ?thesis using assms(2,3) issued_connection [OF assms(2), of lfd] by (auto simp: hstep_def)
qed (use assms(2,3) in \<open>auto simp: hstep_def on_data_def on_end_def on_close_def on_error_def on_drain_def upd_sock_def
    host_listen_def host_write_def host_close_def issued_ok_def split: option.splits if_splits\<close>)

lemma handed_out_run:
  assumes "host_wf h" "evs_ok own_port evs h" "hrun own_port evs h = (outs, h')" "issued_ok I h"
  shows "distinct (handed_out outs) \<and> set (handed_out outs) \<inter> I = {}"
  using assms
proof (induction evs arbitrary: h outs I)
  case (Cons ev evs)
  obtain out h1 where st: "hstep own_port ev h = (out, h1)" by force
  obtain outs1 where r: "hrun own_port evs h1 = (outs1, h')" "outs = out # outs1"
    using Cons.prems(3) st by (auto simp: Let_def split: prod.splits)
  have "host_wf h1" "evs_ok own_port evs h1" using Cons.prems(2) st host_wf_step [OF Cons.prems(1), of ev own_port] by auto
  then have "distinct (handed_out outs1) \<and> set (handed_out outs1) \<inter> (I \<union> set (handed_out [out])) = {}"
    using Cons.IH r(1) conjunct1 [OF issued_step [OF Cons.prems(1,4) st]] by blast
  moreover have "distinct (handed_out [out])" by (auto split: hout.splits)
  moreover have "handed_out outs = handed_out [out] @ handed_out outs1" using r(2) by simp
  ultimately show ?case using conjunct2 [OF issued_step [OF Cons.prems(1,4) st]] by auto
qed simp

lemma host_wf_run:
  "host_wf h \<Longrightarrow> evs_ok own_port evs h \<Longrightarrow> host_wf (snd (hrun own_port evs h))"
proof (induction evs arbitrary: h)
  case (Cons ev evs)
  then have "host_wf (snd (hstep own_port ev h))" using host_wf_step by simp
  then show ?case using Cons by (simp add: Let_def split: prod.splits) (metis snd_conv)
qed simp

section \<open>Polling\<close>

lemma host_poll_filter:
  "host_poll h interest cap =
     take cap (filter (\<lambda>(fd, m). m \<noteq> 0) (map (\<lambda>(fd, m). (fd, poll_ready h fd m)) interest))"
  by (induction h interest cap rule: host_poll.induct) (auto simp: Let_def take_Cons')

lemma mask_bits:
  "m AND AE_READABLE = 0 \<longleftrightarrow> \<not> bit m 0" "m AND AE_WRITABLE = 0 \<longleftrightarrow> \<not> bit m 1" "m AND AE_BARRIER = 0 \<longleftrightarrow> \<not> bit m 2"
  for m :: mask
  using and_exp_eq_0_iff_not_bit [of m 0] and_exp_eq_0_iff_not_bit [of m 1] and_exp_eq_0_iff_not_bit [of m 2]
  by simp_all

lemma bit_masks:
  "bit AE_READABLE n \<longleftrightarrow> n = 0" "bit AE_WRITABLE n \<longleftrightarrow> n = 1" "bit AE_BARRIER n \<longleftrightarrow> n = 2"
  using bit_exp_iff [of 0 n, where ?'a = mask] bit_exp_iff [of 1 n, where ?'a = mask] bit_exp_iff [of 2 n, where ?'a = mask]
  by auto

lemma bit_poll_ready:
  "bit (poll_ready h fd m) n \<longleftrightarrow> bit m n \<and>
     (case listeners h fd of Some r \<Rightarrow> n = 0 \<and> lr_pending r \<noteq> []
      | None \<Rightarrow> (case socks h fd of None \<Rightarrow> False
          | Some s \<Rightarrow> n = 0 \<and> (sr_chunks s \<noteq> [] \<or> sr_eof s) \<or> n = 1 \<and> \<not> sr_backpressured s))"
  by (cases "n = 0"; cases "n = 1")
    (simp_all add: poll_ready_def mask_bits bit_masks bit_or_iff del: bit_numeral_word_iff split: option.splits)

lemma poll_ready_sub: "poll_ready h fd m AND m = poll_ready h fd m"
  by (rule bit_word_eqI) (auto simp: bit_and_iff bit_poll_ready)

section \<open>Properties\<close>

text \<open>C31: The bridge neither loses, duplicates nor reorders bytes: along every run of socket events
  and imported calls, what \<open>host_read\<close> returned for a connection that is not closed meanwhile,
  followed by what is still buffered, is what was buffered at the start followed by the data that
  arrived.  The splitting into chunks and the lengths asked for do not matter.\<close>

theorem host_stream_exact:
  assumes "host_wf h" "evs_ok own_port evs h" "fd \<in> dom (socks h)" "HClose fd \<notin> set evs"
    and "hrun own_port evs h = (outs, h')"
  shows "taken fd outs @ inbound fd h' = inbound fd h @ arrived fd evs"
  using assms by (intro inbound_run)

definition host_demo :: host where
  "host_demo = snd (hrun 6379 [HSocket, HListen 4096 0, Connect 4096] host_init)"

lemma host_demo_wf: "host_wf host_demo"
  unfolding host_demo_def
  by (intro host_wf_run host_wf_init) (simp add: hstep_def ev_ok_def host_init_def host_socket_def allocFd_def host_listen_def)

lemma host_demo_sock: "socks host_demo 4097 = Some new_sock"
  by (simp add: host_demo_def hstep_def host_init_def host_socket_def allocFd_def host_listen_def on_connection_def)

theorem host_stream_exact_witness:
  "taken 4097 (fst (hrun 6379 [Data 4097 [1, 2], HRead 4097 1, Data 4097 [3], HRead 4097 9] host_demo)) @
     inbound 4097 (snd (hrun 6379 [Data 4097 [1, 2], HRead 4097 1, Data 4097 [3], HRead 4097 9] host_demo)) = [1, 2, 3]"
proof -
  let ?evs = "[Data 4097 [1, 2], HRead 4097 1, Data 4097 [3], HRead 4097 9] :: hevent list"
  have "evs_ok 6379 ?evs host_demo" by (simp add: ev_ok_def)
  then show ?thesis
    using host_stream_exact [OF host_demo_wf, of 6379 ?evs 4097] host_demo_sock
    by (simp add: inbound_def new_sock_def dom_def)
qed

text \<open>C32: Descriptors are never shared: along every run from the start, the descriptors handed out
  by \<open>socket\<close> and \<open>accept\<close> are pairwise different, and every state satisfies the invariant
  \<open>host_wf\<close> (all descriptors lie between \<open>HOST_FD_BASE\<close> and the counter, no connection waits in two
  queues, the buffers are well-formed).\<close>

theorem host_fds_unique:
  assumes "evs_ok own_port evs host_init" "hrun own_port evs host_init = (outs, h')"
  shows "distinct (handed_out outs) \<and> host_wf h'"
  using handed_out_run [OF host_wf_init assms, of "{}"] host_wf_run [OF host_wf_init assms(1)] assms(2)
  by (simp add: issued_ok_def)

theorem host_fds_unique_witness:
  "handed_out (fst (hrun 6379 [HSocket, HListen 4096 0, Connect 4096, Connect 4096, HAccept 4096, HClose 4097, HAccept 4096] host_init))
     = [4096, 4097, 4098] \<and> distinct [4096, 4097, 4098 :: int]"
proof -
  let ?evs = "[HSocket, HListen 4096 0, Connect 4096, Connect 4096, HAccept 4096, HClose 4097, HAccept 4096] :: hevent list"
  have ok: "evs_ok 6379 ?evs host_init"
    by (simp add: hstep_def ev_ok_def host_init_def host_socket_def allocFd_def host_listen_def)
  have "handed_out (fst (hrun 6379 ?evs host_init)) = [4096, 4097, 4098]"
    by (simp add: hstep_def host_init_def host_socket_def allocFd_def host_listen_def on_connection_def host_accept_def host_close_def scheduleStep_def)
  then show ?thesis using host_fds_unique [OF ok] by (metis prod.collapse)
qed

end
