(* ===== verification/Sock_Shim.thy ===== *)
theory Sock_Shim
  imports Host
begin

text \<open>
  The socket layer of \<^verbatim>\<open>src/src/wasi/sock_shim.c\<close>: the POSIX calls of the server over the functions
  of the bridge (\<open>Host\<close>).  Descriptors at or above \<open>HOST_FD_BASE\<close> go to the bridge, a small range
  below them is the always-empty pipes, and everything else goes to wasi-libc, which is an
  argument of the model (\<open>'w libc\<close>).  Whether \<open>socket.write\<close> reports backpressure is an argument
  too.  A call that makes the bridge throw (a length that is negative as an \<open>int\<close>) is \<open>None\<close>.
\<close>

section \<open>State and external calls\<close>

datatype errno = EMFILE | EADDRINUSE | EAGAIN | ECONNREFUSED | EPIPE

record 'w libc =
  real_read :: "int \<Rightarrow> nat \<Rightarrow> 'w \<Rightarrow> (int \<times> bytes) \<times> 'w"
  real_write :: "int \<Rightarrow> bytes \<Rightarrow> 'w \<Rightarrow> int \<times> 'w"
  real_writev :: "int \<Rightarrow> bytes list \<Rightarrow> 'w \<Rightarrow> int \<times> 'w"
  real_close :: "int \<Rightarrow> 'w \<Rightarrow> int \<times> 'w"
  real_fcntl :: "int \<Rightarrow> int \<Rightarrow> int \<Rightarrow> 'w \<Rightarrow> int \<times> 'w"

record 'w shim =
  sh_host :: host
  pipe_next :: int
  portmap :: "(int \<times> int) list"
  sh_errno :: "errno option"
  sh_real :: 'w

abbreviation (input) PIPE_FD_BASE :: int where "PIPE_FD_BASE \<equiv> 3072"
abbreviation (input) PIPE_FD_MAX :: int where "PIPE_FD_MAX \<equiv> 32"
abbreviation (input) PORTMAP_MAX :: nat where "PORTMAP_MAX \<equiv> 16"

definition shim_init :: "'w \<Rightarrow> 'w shim" where
  "shim_init w = \<lparr>sh_host = host_init, pipe_next = PIPE_FD_BASE, portmap = replicate PORTMAP_MAX (0, 0),
     sh_errno = None, sh_real = w\<rparr>"

definition is_host_fd :: "int \<Rightarrow> bool" where
  "is_host_fd fd \<longleftrightarrow> HOST_FD_BASE \<le> fd"

definition is_pipe_fd :: "int \<Rightarrow> bool" where
  "is_pipe_fd fd \<longleftrightarrow> PIPE_FD_BASE \<le> fd \<and> fd < PIPE_FD_BASE + PIPE_FD_MAX"

section \<open>Pipes and sockets\<close>

definition sh_pipe :: "'w shim \<Rightarrow> (int \<times> int) option \<times> 'w shim" where
  "sh_pipe s =
     (if PIPE_FD_BASE + PIPE_FD_MAX \<le> pipe_next s + 1 then (None, s\<lparr>sh_errno := Some EMFILE\<rparr>)
      else (Some (pipe_next s, pipe_next s + 1), s\<lparr>pipe_next := pipe_next s + 2\<rparr>))"

definition sh_socket :: "'w shim \<Rightarrow> int \<times> 'w shim" where
  "sh_socket s = (case host_socket (sh_host s) of (fd, h) \<Rightarrow>
     let s = s\<lparr>sh_host := h\<rparr> in
     if fd < 0 then (-1, s\<lparr>sh_errno := Some EMFILE\<rparr>) else (fd, s))"

text \<open>The table of ports: the first slot that is free or belongs to the descriptor is taken; when
  there is none the port is dropped.\<close>

fun port_set :: "int \<Rightarrow> int \<Rightarrow> (int \<times> int) list \<Rightarrow> (int \<times> int) list" where
  "port_set fd port [] = []"
| "port_set fd port ((f, p) # m) = (if f = 0 \<or> f = fd then (fd, port) # m else (f, p) # port_set fd port m)"

fun port_get :: "int \<Rightarrow> (int \<times> int) list \<Rightarrow> int" where
  "port_get fd [] = 0"
| "port_get fd ((f, p) # m) = (if f = fd then p else port_get fd m)"

text \<open>\<open>__builtin_bswap16\<close>.\<close>

definition bswap16 :: "16 word \<Rightarrow> 16 word" where
  "bswap16 w = push_bit 8 w OR drop_bit 8 w"

text \<open>An address: its family is \<open>AF_INET\<close> and it has a port in network order, or another family.\<close>

datatype sockaddr = SA_INET "16 word" | SA_OTHER

definition sh_bind :: "int \<Rightarrow> sockaddr option \<Rightarrow> 'w shim \<Rightarrow> int \<times> 'w shim" where
  "sh_bind fd addr s = (case addr of
     Some (SA_INET sin_port) \<Rightarrow> (0, s\<lparr>portmap := port_set fd (uint (bswap16 sin_port)) (portmap s)\<rparr>)
   | _ \<Rightarrow> (0, s))"

definition sh_listen :: "int \<Rightarrow> int \<Rightarrow> 'w shim \<Rightarrow> int \<times> 'w shim" where
  "sh_listen own_port fd s = (case host_listen own_port fd (port_get fd (portmap s)) (sh_host s) of (r, h) \<Rightarrow>
     let s = s\<lparr>sh_host := h\<rparr> in
     if r < 0 then (-1, s\<lparr>sh_errno := Some EADDRINUSE\<rparr>) else (0, s))"

definition sh_accept :: "int \<Rightarrow> 'w shim \<Rightarrow> int \<times> 'w shim" where
  "sh_accept sfd s = (case host_accept sfd (sh_host s) of (c, h) \<Rightarrow>
     let s = s\<lparr>sh_host := h\<rparr> in
     if c < 0 then (-1, s\<lparr>sh_errno := Some EAGAIN\<rparr>) else (c, s))"

definition sh_accept4 :: "int \<Rightarrow> int \<Rightarrow> 'w shim \<Rightarrow> int \<times> 'w shim" where
  "sh_accept4 sfd flags s = sh_accept sfd s"

definition sh_connect :: "int \<Rightarrow> 'w shim \<Rightarrow> int \<times> 'w shim" where
  "sh_connect fd s = (-1, s\<lparr>sh_errno := Some ECONNREFUSED\<rparr>)"

text \<open>\<open>setsockopt\<close> accepts everything; \<open>getsockopt\<close> stores a zero \<open>int\<close> when the buffer holds one.\<close>

definition sh_setsockopt :: "int \<Rightarrow> 'w shim \<Rightarrow> int \<times> 'w shim" where
  "sh_setsockopt fd s = (0, s)"

definition sh_getsockopt :: "bytes option \<Rightarrow> nat option \<Rightarrow> int \<times> bytes option \<times> nat option" where
  "sh_getsockopt val len = (case (val, len) of
     (Some v, Some n) \<Rightarrow> if 4 \<le> n then (0, Some (mem_write v 0 (le_bytes 4 0)), Some 4) else (0, val, len)
   | _ \<Rightarrow> (0, val, len))"

text \<open>\<open>getsockname\<close> and \<open>getpeername\<close> report an address of length 0.\<close>

definition sh_getsockname :: "nat option \<Rightarrow> int \<times> nat option" where
  "sh_getsockname len = (0, map_option (\<lambda>_. 0) len)"

definition sh_getpeername :: "nat option \<Rightarrow> int \<times> nat option" where
  "sh_getpeername len = (0, map_option (\<lambda>_. 0) len)"

section \<open>Name resolution\<close>

text \<open>\<open>atoi\<close> on a C string without its terminator: white space, a sign, digits.\<close>

fun atoi_digits :: "bytes \<Rightarrow> int \<Rightarrow> int" where
  "atoi_digits [] v = v"
| "atoi_digits (c # cs) v = (if 48 \<le> c \<and> c \<le> 57 then atoi_digits cs (v * 10 + (uint c - 48)) else v)"

definition c_isspace :: "byte \<Rightarrow> bool" where
  "c_isspace c \<longleftrightarrow> c = 32 \<or> (9 \<le> c \<and> c \<le> 13)"

definition atoi :: "bytes \<Rightarrow> int" where
  "atoi s = (case dropWhile c_isspace s of
     [] \<Rightarrow> 0
   | c # cs \<Rightarrow> if c = 45 then - atoi_digits cs 0 else if c = 43 then atoi_digits cs 0 else atoi_digits (c # cs) 0)"

datatype address_family = AF_UNSPEC | AF_INET | AF_INET6

datatype gai_result = EAI_FAMILY | GAI_OK sockaddr int

text \<open>\<open>getaddrinfo\<close>: one address, 127.0.0.1 with the port of the service, and the socket type of the
  hints or \<open>SOCK_STREAM\<close>.  (Its \<open>calloc\<close> is taken to succeed.)\<close>

definition sh_getaddrinfo :: "int \<Rightarrow> bytes option \<Rightarrow> (address_family \<times> int) option \<Rightarrow> gai_result" where
  "sh_getaddrinfo sock_stream service hints =
     (case hints of
        Some (AF_INET6, ty) \<Rightarrow> EAI_FAMILY
      | _ \<Rightarrow>
          let port = (case service of Some s \<Rightarrow> word_of_int (atoi s) | None \<Rightarrow> 0);
              ty = (case hints of Some (_, ty) \<Rightarrow> if ty \<noteq> 0 then ty else sock_stream | None \<Rightarrow> sock_stream)
          in GAI_OK (SA_INET (bswap16 port)) ty)"

section \<open>The multiplexed calls\<close>

text \<open>The conversion of a \<open>size_t\<close> to \<open>int\<close>.\<close>

definition c_int :: "nat \<Rightarrow> int" where
  "c_int n = (if n < 2 ^ 31 then int n else int n - 2 ^ 32)"

definition wrap_read :: "'w libc \<Rightarrow> int \<Rightarrow> nat \<Rightarrow> 'w shim \<Rightarrow> (int \<times> bytes) \<times> 'w shim" where
  "wrap_read lc fd n s =
     (if is_host_fd fd then
        (case host_read fd (nat (c_int n)) (sh_host s) of (r, bs, h) \<Rightarrow>
           let s = s\<lparr>sh_host := h\<rparr> in
           if r < 0 then ((-1, []), s\<lparr>sh_errno := Some EAGAIN\<rparr>) else ((r, bs), s))
      else if is_pipe_fd fd then ((-1, []), s\<lparr>sh_errno := Some EAGAIN\<rparr>)
      else case real_read lc fd n (sh_real s) of (r, w) \<Rightarrow> (r, s\<lparr>sh_real := w\<rparr>))"

definition wrap_write :: "'w libc \<Rightarrow> bool \<Rightarrow> int \<Rightarrow> bytes \<Rightarrow> 'w shim \<Rightarrow> (int \<times> 'w shim) option" where
  "wrap_write lc ok fd bs s =
     (if is_host_fd fd then
        (case host_write fd bs ok (sh_host s) of (r, h) \<Rightarrow>
           if r < 0 then Some (-1, s\<lparr>sh_host := h, sh_errno := Some EPIPE\<rparr>)
           else if c_int (length bs) < 0 then None
           else Some (r, s\<lparr>sh_host := h\<rparr>))
      else if is_pipe_fd fd then Some (int (length bs), s)
      else case real_write lc fd bs (sh_real s) of (r, w) \<Rightarrow> Some (r, s\<lparr>sh_real := w\<rparr>))"

text \<open>The loop of \<open>writev\<close> over the remaining buffers; \<open>oks\<close> says for each call whether the socket takes
  more.\<close>

fun writev_loop :: "int \<Rightarrow> bytes list \<Rightarrow> bool list \<Rightarrow> int \<Rightarrow> 'w shim \<Rightarrow> (int \<times> 'w shim) option" where
  "writev_loop fd [] oks written s = Some (written, s)"
| "writev_loop fd (b # iov) oks written s =
     (if b = [] then writev_loop fd iov oks written s
      else case host_write fd b (oks = [] \<or> hd oks) (sh_host s) of (r, h) \<Rightarrow>
        if r < 0 then
          Some (if written \<noteq> 0 then (written, s\<lparr>sh_host := h\<rparr>) else (-1, s\<lparr>sh_host := h, sh_errno := Some EPIPE\<rparr>))
        else if c_int (length b) < 0 then None
        else if r < int (length b) then Some (written + r, s\<lparr>sh_host := h\<rparr>)
        else writev_loop fd iov (tl oks) (written + r) (s\<lparr>sh_host := h\<rparr>))"

definition wrap_writev :: "'w libc \<Rightarrow> bool list \<Rightarrow> int \<Rightarrow> bytes list \<Rightarrow> 'w shim \<Rightarrow> (int \<times> 'w shim) option" where
  "wrap_writev lc oks fd iov s =
     (if is_host_fd fd then writev_loop fd iov oks 0 s
      else if is_pipe_fd fd then Some (int (sum_list (map length iov)), s)
      else case real_writev lc fd iov (sh_real s) of (r, w) \<Rightarrow> Some (r, s\<lparr>sh_real := w\<rparr>))"

definition wrap_close :: "'w libc \<Rightarrow> int \<Rightarrow> 'w shim \<Rightarrow> int \<times> 'w shim" where
  "wrap_close lc fd s =
     (if is_host_fd fd then (0, s\<lparr>sh_host := host_close fd (sh_host s)\<rparr>)
      else if is_pipe_fd fd then (0, s)
      else case real_close lc fd (sh_real s) of (r, w) \<Rightarrow> (r, s\<lparr>sh_real := w\<rparr>))"

definition wrap_fcntl :: "'w libc \<Rightarrow> int \<Rightarrow> int \<Rightarrow> int \<Rightarrow> 'w shim \<Rightarrow> int \<times> 'w shim" where
  "wrap_fcntl lc fd cmd arg s =
     (if is_host_fd fd \<or> is_pipe_fd fd then (0, s)
      else case real_fcntl lc fd cmd arg (sh_real s) of (r, w) \<Rightarrow> (r, s\<lparr>sh_real := w\<rparr>))"

section \<open>The port table\<close>

definition bind_all :: "(int \<times> int) list \<Rightarrow> (int \<times> int) list \<Rightarrow> (int \<times> int) list" where
  "bind_all bs m = fold (\<lambda>(f, p). port_set f p) bs m"

lemma port_get_set:
  "fd \<noteq> 0 \<Longrightarrow> \<exists>p. (fd, p) \<in> set m \<or> (0, p) \<in> set m \<Longrightarrow> port_get fd (port_set fd port m) = port"
  by (induction fd port m rule: port_set.induct) auto

lemma port_set_fresh: "fd \<notin> fst ` set m \<Longrightarrow> port_set fd port (m @ replicate k (0, 0)) = m @ (case k of 0 \<Rightarrow> [] | Suc k \<Rightarrow> (fd, port) # replicate k (0, 0))"
  if "0 \<notin> fst ` set m"
  using that by (induction m) (auto split: nat.splits)

lemma bind_all_fresh:
  assumes "distinct (map fst (m @ bs))" "0 \<notin> fst ` set (m @ bs)"
  shows "bind_all bs (m @ replicate k (0, 0)) = m @ take k bs @ replicate (k - length bs) (0, 0)"
  using assms
proof (induction bs arbitrary: m k)
  case (Cons b bs)
  obtain f p where b: "b = (f, p)" by force
  have s: "port_set f p (m @ replicate k (0, 0)) = m @ (case k of 0 \<Rightarrow> [] | Suc k \<Rightarrow> (f, p) # replicate k (0, 0))"
    using Cons.prems b by (intro port_set_fresh) auto
  show ?case
  proof (cases k)
    case 0
    then show ?thesis using s Cons.IH [of m 0] Cons.prems b by (simp add: bind_all_def)
  next
    case (Suc j)
    then show ?thesis using s Cons.IH [of "m @ [(f, p)]" j] Cons.prems b by (simp add: bind_all_def)
  qed
qed (simp add: bind_all_def)

lemma port_get_at: "distinct (map fst m) \<Longrightarrow> i < length m \<Longrightarrow> port_get (fst (m ! i)) m = snd (m ! i)"
proof (induction m arbitrary: i)
  case (Cons a m)
  then show ?case by (cases a; cases i) (auto intro: rev_image_eqI [OF nth_mem])
qed simp

lemma port_get_app: "port_get fd (xs @ ys) = (if fd \<in> fst ` set xs then port_get fd xs else port_get fd ys)"
  by (induction xs) (force simp: image_iff)+

lemma port_get_absent: "fd \<notin> fst ` set m \<Longrightarrow> port_get fd m = 0"
  by (induction m) auto

section \<open>Byte order\<close>

lemma bswap16_bswap16: "bswap16 (bswap16 w) = w"
proof (rule bit_word_eqI)
  fix n assume "n < LENGTH(16)"
  then show "bit (bswap16 (bswap16 w)) n = bit w n"
    by (auto simp: bswap16_def bit_or_iff bit_push_bit_iff bit_drop_bit_eq)
qed

section \<open>Writing\<close>

definition sent :: "int \<Rightarrow> 'w shim \<Rightarrow> bytes" where
  "sent fd s = (case socks (sh_host s) fd of None \<Rightarrow> [] | Some r \<Rightarrow> sr_sent r)"

definition alive :: "int \<Rightarrow> 'w shim \<Rightarrow> bool" where
  "alive fd s \<longleftrightarrow> (\<exists>r. socks (sh_host s) fd = Some r \<and> \<not> sr_eof r)"

lemma host_write_alive:
  assumes "alive fd s"
  shows "\<exists>h. host_write fd bs ok (sh_host s) = (int (length bs), h) \<and> alive fd (s\<lparr>sh_host := h\<rparr>) \<and>
    sent fd (s\<lparr>sh_host := h\<rparr>) = sent fd s @ bs \<and> (\<forall>fd'. fd' \<noteq> fd \<longrightarrow> socks h fd' = socks (sh_host s) fd')"
  using assms by (auto simp: alive_def host_write_def sent_def)

lemma writev_loop_alive:
  assumes "alive fd s" "\<forall>b \<in> set iov. length b < 2 ^ 31"
  shows "\<exists>s'. writev_loop fd iov oks written s = Some (written + int (length (concat iov)), s') \<and>
    sent fd s' = sent fd s @ concat iov \<and> (\<forall>fd'. fd' \<noteq> fd \<longrightarrow> socks (sh_host s') fd' = socks (sh_host s) fd')"
  using assms
proof (induction iov arbitrary: s oks written)
  case (Cons b iov)
  show ?case
  proof (cases "b = []")
    case True
    then show ?thesis using Cons by simp
  next
    case False
    obtain h where h: "host_write fd b (oks = [] \<or> hd oks) (sh_host s) = (int (length b), h)" "alive fd (s\<lparr>sh_host := h\<rparr>)"
      "sent fd (s\<lparr>sh_host := h\<rparr>) = sent fd s @ b" "\<forall>fd'. fd' \<noteq> fd \<longrightarrow> socks h fd' = socks (sh_host s) fd'"
      using host_write_alive [OF Cons.prems(1)] by blast
    have "\<not> c_int (length b) < 0" using Cons.prems(2) by (simp add: c_int_def)
    then have "writev_loop fd (b # iov) oks written s = writev_loop fd iov (tl oks) (written + int (length b)) (s\<lparr>sh_host := h\<rparr>)"
      using False h(1) by simp
    then show ?thesis
      using Cons.IH [OF h(2), of "tl oks" "written + int (length b)"] Cons.prems(2) h(3,4) by auto
  qed
qed simp

lemma writev_loop_dead:
  assumes "\<not> alive fd s" "concat iov \<noteq> []"
  shows "writev_loop fd iov oks 0 s = Some (-1, s\<lparr>sh_errno := Some EPIPE\<rparr>)"
proof -
  have "host_write fd b ok (sh_host s) = (-1, sh_host s)" for b ok
    using assms(1) by (auto simp: alive_def host_write_def split: option.splits)
  then show ?thesis using assms(2) by (induction iov) auto
qed

section \<open>Pipes\<close>

fun pipes :: "nat \<Rightarrow> 'w shim \<Rightarrow> (int \<times> int) option list \<times> 'w shim" where
  "pipes 0 s = ([], s)"
| "pipes (Suc n) s = (let (r, s) = sh_pipe s; (rs, s) = pipes n s in (r # rs, s))"

lemma pipes_run:
  "pipe_next s = 3072 + 2 * int (min j 16) \<Longrightarrow>
   fst (pipes n s) = map (\<lambda>k. if k < 16 then Some (3072 + 2 * int k, 3073 + 2 * int k) else None) [j..<j + n]"
proof (induction n arbitrary: s j)
  case (Suc n)
  obtain r s' where p: "sh_pipe s = (r, s')" by force
  have r: "r = (if j < 16 then Some (3072 + 2 * int j, 3073 + 2 * int j) else None)" "pipe_next s' = 3072 + 2 * int (min (Suc j) 16)"
    using p Suc.prems by (auto simp: sh_pipe_def min_def split: if_splits)
  moreover have "[j..<j + Suc n] = j # [Suc j..<Suc j + n]" by (simp add: upt_conv_Cons)
  ultimately show ?case using p Suc.IH [OF r(2)] by (auto simp: Let_def simp del: upt_Suc split: prod.splits)
qed simp

lemma pipes_errno:
  "pipe_next s = 3072 + 2 * int (min j 16) \<Longrightarrow> 16 < n + j \<Longrightarrow> 0 < n \<Longrightarrow> sh_errno (snd (pipes n s)) = Some EMFILE"
proof (induction n arbitrary: s j)
  case (Suc n)
  obtain r s' where p: "sh_pipe s = (r, s')" by force
  have s': "pipe_next s' = 3072 + 2 * int (min (Suc j) 16)" "16 \<le> j \<Longrightarrow> sh_errno s' = Some EMFILE"
    using p Suc.prems(1) by (auto simp: sh_pipe_def min_def split: if_splits)
  then show ?case using p Suc.IH [OF s'(1)] Suc.prems(2) by (cases "n = 0") (auto simp: Let_def split: prod.splits)
qed simp

section \<open>Properties\<close>

text \<open>C35: The table that carries a port from \<open>bind\<close> to \<open>listen\<close> has 16 slots and never frees one: of
  any number of descriptors bound one after the other, the first 16 get back their port and every
  later one gets 0.\<close>

theorem portmap_capacity:
  assumes "distinct (map fst bs)" "0 \<notin> fst ` set bs" "i < length bs"
  shows "port_get (fst (bs ! i)) (bind_all bs (portmap (shim_init w))) = (if i < 16 then snd (bs ! i) else 0)"
proof -
  let ?m = "take 16 bs" and ?z = "replicate (16 - length bs) (0, 0)"
  have m: "bind_all bs (portmap (shim_init w)) = ?m @ ?z"
    using bind_all_fresh [of "[]" bs 16] assms(1,2) by (simp add: shim_init_def)
  show ?thesis
  proof (cases "i < 16")
    case True
    then have i: "i < length ?m" "?m ! i = bs ! i" using assms(3) by simp_all
    have "fst (bs ! i) \<in> fst ` set ?m" using i nth_mem [of i ?m] by (metis imageI)
    then show ?thesis using True i port_get_at [of ?m i] assms(1)
      by (simp add: m port_get_app distinct_take flip: take_map)
  next
    case False
    have "fst (bs ! i) \<notin> fst ` set ?m"
    proof
      assume "fst (bs ! i) \<in> fst ` set ?m"
      then obtain k where "k < 16" "k < length bs" "fst (bs ! k) = fst (bs ! i)"
        by (fastforce simp: in_set_conv_nth)
      then show False using assms(1,3) False nth_eq_iff_index_eq [of "map fst bs" k i] by simp
    qed
    moreover have "fst (bs ! i) \<noteq> 0" using assms(2,3) nth_mem [of i bs] by (metis imageI)
    ultimately have "fst (bs ! i) \<notin> fst ` set (?m @ ?z)" by auto
    then have "port_get (fst (bs ! i)) (?m @ ?z) = 0" by (rule port_get_absent)
    then show ?thesis using False unfolding m by simp
  qed
qed

theorem portmap_capacity_witness:
  "port_get 4112 (bind_all (map (\<lambda>k. (4096 + int k, 6379 + int k)) [0..<17]) (portmap (shim_init ()))) = 0"
proof -
  let ?bs = "map (\<lambda>k. (4096 + int k, 6379 + int k)) [0..<17]"
  have "distinct (map fst ?bs)" by (simp add: comp_def distinct_map inj_on_def)
  moreover have "0 \<notin> fst ` set ?bs" by (auto simp: image_iff)
  ultimately show ?thesis using portmap_capacity [of ?bs 16 "()"] by (simp del: upt_Suc)
qed

text \<open>C34: The port a server asks for is the port the bridge listens on: \<open>getaddrinfo\<close> for a service,
  \<open>bind\<close> of the address it returns and \<open>listen\<close> make the bridge open a listener on the number the
  service spells (modulo 65536), or on its own port when that is 0, provided the table has a slot.\<close>

theorem listen_on_service_port:
  assumes "fd \<noteq> 0" "\<exists>p. (fd, p) \<in> set (portmap s) \<or> (0, p) \<in> set (portmap s)"
    "sh_getaddrinfo st (Some service) hints = GAI_OK addr ty"
  shows "\<exists>s'. sh_listen own_port fd (snd (sh_bind fd (Some addr) s)) = (0, s') \<and>
    listeners (sh_host s') fd = Some \<lparr>lr_port = (if atoi service mod 65536 \<noteq> 0 then atoi service mod 65536 else own_port), lr_pending = []\<rparr>"
proof -
  have "addr = SA_INET (bswap16 (word_of_int (atoi service)))"
    using assms(3) by (auto simp: sh_getaddrinfo_def Let_def split: option.splits prod.splits address_family.splits)
  moreover have "uint (word_of_int (atoi service) :: 16 word) = atoi service mod 65536" by (simp add: uint_word_of_int)
  ultimately have "port_get fd (portmap (snd (sh_bind fd (Some addr) s))) = atoi service mod 65536"
    using port_get_set [OF assms(1,2)] by (simp add: sh_bind_def bswap16_bswap16)
  then show ?thesis
    by (simp add: sh_listen_def host_listen_def sh_bind_def split: option.splits sockaddr.splits)
qed

theorem listen_on_service_port_witness:
  "\<exists>s'. sh_listen 6379 4096 (snd (sh_bind 4096 (Some (SA_INET (bswap16 (word_of_int (atoi [55, 48, 48, 48]))))) (shim_init ()))) = (0, s') \<and>
    listeners (sh_host s') 4096 = Some \<lparr>lr_port = 7000, lr_pending = []\<rparr>"
  using listen_on_service_port [of 4096 "shim_init ()" 1 "[55, 48, 48, 48]" None _ 1 6379]
  by (simp add: shim_init_def sh_getaddrinfo_def atoi_def c_isspace_def)


definition libc_closed :: "unit libc" where
  "libc_closed = \<lparr>real_read = (\<lambda>fd n w. ((-1, []), w)), real_write = (\<lambda>fd bs w. (-1, w)), real_writev = (\<lambda>fd iov w. (-1, w)),
     real_close = (\<lambda>fd w. (-1, w)), real_fcntl = (\<lambda>fd cmd arg w. (-1, w))\<rparr>"


text \<open>\<open>pipe\<close> succeeds 16 times, with fresh descriptors of the pipe range, none of which is a
  descriptor of the bridge; every later call fails with \<open>EMFILE\<close>.\<close>

theorem pipes_capacity:
  "fst (pipes n (shim_init w)) =
     map (\<lambda>k. if k < 16 then Some (3072 + 2 * int k, 3073 + 2 * int k) else None) [0..<n] \<and>
   (\<forall>k < 16. is_pipe_fd (3072 + 2 * int k) \<and> is_pipe_fd (3073 + 2 * int k)) \<and>
   (\<forall>fd. \<not> (is_pipe_fd fd \<and> is_host_fd fd)) \<and>
   (16 < n \<longrightarrow> sh_errno (snd (pipes n (shim_init w))) = Some EMFILE)"
  using pipes_run [of "shim_init w" 0 n] pipes_errno [of "shim_init w" 0 n]
  by (auto simp: shim_init_def is_pipe_fd_def is_host_fd_def)

theorem pipes_capacity_witness:
  "sh_errno (snd (pipes 17 (shim_init ()))) = Some EMFILE \<and> fst (pipes 17 (shim_init ())) ! 15 = Some (3102, 3103)"
  using pipes_capacity [of 17 "()"] by (simp del: upt_Suc pipes.simps)

end
