(* ===== verification/Ae.thy ===== *)
theory Ae
  imports Host
begin

text \<open>
  The event loop (\<^verbatim>\<open>ae.c\<close>, \<^verbatim>\<open>ae.h\<close>), its poll backend over the host (\<^verbatim>\<open>wasi/ae_wasi.c\<close>) and the
  entry point that runs one pass (\<open>rk_step\<close> of \<^verbatim>\<open>wasi/reactor.c\<close>).  File events are an array indexed
  by descriptor.  Time events are nodes of a doubly linked list in a store of addresses, so that
  unlinking, freeing and the pointers a pass holds across a callback are explicit.  Callbacks are
  arguments: functions on the whole event loop, which may register and delete events, resize the
  set or run the loop again.  An access outside an array, through a null or freed pointer, of an
  uninitialised array slot or a call of an unset procedure is the error \<open>AE_UB\<close>; \<open>AE_FUEL\<close> marks a walk of
  the timer list longer than the number of timers ever created.

  \<open>zmalloc\<close> aborts instead of returning NULL, so the branches for a failed allocation are not taken.
  The poll mutex guards sections that call no callback; with one thread it is always free there.
\<close>

section \<open>The state\<close>

datatype ae_error = AE_UB | AE_FUEL

type_synonym 'a ae_res = "ae_error + 'a"

type_synonym monotime = "64 word"

abbreviation (input) AE_FILE_EVENTS :: mask where "AE_FILE_EVENTS \<equiv> 1"
abbreviation (input) AE_TIME_EVENTS :: mask where "AE_TIME_EVENTS \<equiv> 2"
abbreviation (input) AE_ALL_EVENTS :: mask where "AE_ALL_EVENTS \<equiv> 3"
abbreviation (input) AE_DONT_WAIT :: mask where "AE_DONT_WAIT \<equiv> 4"
abbreviation (input) AE_CALL_BEFORE_SLEEP :: mask where "AE_CALL_BEFORE_SLEEP \<equiv> 8"
abbreviation (input) AE_CALL_AFTER_SLEEP :: mask where "AE_CALL_AFTER_SLEEP \<equiv> 16"
abbreviation (input) AE_PROTECT_POLL :: mask where "AE_PROTECT_POLL \<equiv> 32"
abbreviation (input) AE_NOMORE :: int where "AE_NOMORE \<equiv> -1"
abbreviation (input) AE_DELETED_EVENT_ID :: int where "AE_DELETED_EVENT_ID \<equiv> -1"
abbreviation (input) AE_OK :: int where "AE_OK \<equiv> 0"
abbreviation (input) AE_ERR :: int where "AE_ERR \<equiv> -1"

text \<open>A procedure pointer of a slot that was never registered is not initialised: \<open>None\<close>.\<close>

record ('p, 'd) aeFileEvent =
  fe_mask :: mask
  rfileProc :: "'p option"
  wfileProc :: "'p option"
  fe_clientData :: "'d option"

record ('p, 'd) aeTimeEvent =
  te_id :: int
  te_when :: monotime
  timeProc :: 'p
  finalizerProc :: "'p option"
  te_clientData :: 'd
  te_prev :: "nat option"
  te_next :: "nat option"
  te_refcount :: nat

type_synonym ('p, 'd) te_heap = "nat \<rightharpoonup> ('p, 'd) aeTimeEvent"

text \<open>\<open>ae_cap\<close> is the size of the static buffers of \<^verbatim>\<open>ae_wasi.c\<close>; \<open>world\<close> is everything outside the
  loop: the clock, the host, the state of the callbacks.\<close>

record ('p, 'd, 'w) aeEventLoop =
  maxfd :: int
  setsize :: int
  timeEventNextId :: int
  events :: "('p, 'd) aeFileEvent list"
  fired :: "(int \<times> mask) option list"
  timeEventHead :: "nat option"
  te_heap :: "('p, 'd) te_heap"
  ae_stop :: bool
  beforesleep :: "'p option"
  aftersleep :: "'p option"
  custompoll :: "'p option"
  el_flags :: mask
  ae_cap :: int
  world :: 'w

text \<open>The code the loop calls: the procedures behind the pointers, the clock, \<open>host_poll\<close> and the
  address the allocator returns.\<close>

record ('p, 'd, 'w) ae_env =
  run_file :: "'p \<Rightarrow> int \<Rightarrow> 'd option \<Rightarrow> mask \<Rightarrow> ('p, 'd, 'w) aeEventLoop \<Rightarrow> ('p, 'd, 'w) aeEventLoop"
  run_time :: "'p \<Rightarrow> int \<Rightarrow> 'd \<Rightarrow> ('p, 'd, 'w) aeEventLoop \<Rightarrow> int \<times> ('p, 'd, 'w) aeEventLoop"
  run_fin :: "'p \<Rightarrow> 'd \<Rightarrow> ('p, 'd, 'w) aeEventLoop \<Rightarrow> ('p, 'd, 'w) aeEventLoop"
  run_before :: "'p \<Rightarrow> ('p, 'd, 'w) aeEventLoop \<Rightarrow> ('p, 'd, 'w) aeEventLoop"
  run_after :: "'p \<Rightarrow> int \<Rightarrow> ('p, 'd, 'w) aeEventLoop \<Rightarrow> ('p, 'd, 'w) aeEventLoop"
  run_poll :: "'p \<Rightarrow> ('p, 'd, 'w) aeEventLoop \<Rightarrow> int \<times> ('p, 'd, 'w) aeEventLoop"
  monotonic :: "'w \<Rightarrow> monotime \<times> 'w"
  poll_host :: "'w \<Rightarrow> (int \<times> mask) list \<Rightarrow> nat \<Rightarrow> (int \<times> mask) list"
  new_te :: "('p, 'd, 'w) aeEventLoop \<Rightarrow> nat"

definition getMonotonicUs :: "('p, 'd, 'w) ae_env \<Rightarrow> ('p, 'd, 'w) aeEventLoop \<Rightarrow> monotime \<times> ('p, 'd, 'w) aeEventLoop" where
  "getMonotonicUs E el = (let (t, w) = monotonic E (world el) in (t, el\<lparr>world := w\<rparr>))"

section \<open>Creating and resizing\<close>

definition fe_uninit :: "('p, 'd) aeFileEvent" where
  "fe_uninit = \<lparr>fe_mask = AE_NONE, rfileProc = None, wfileProc = None, fe_clientData = None\<rparr>"

definition aeApiResize :: "int \<Rightarrow> int \<Rightarrow> int" where
  "aeApiResize n cap = (if n > cap then n else cap)"

text \<open>\<open>cap\<close> is the size of the static buffers before the call.\<close>

definition aeCreateEventLoop :: "int \<Rightarrow> int \<Rightarrow> 'w \<Rightarrow> ('p, 'd, 'w) aeEventLoop" where
  "aeCreateEventLoop n cap w =
     \<lparr>maxfd = -1, setsize = n, timeEventNextId = 1, events = replicate (nat n) fe_uninit,
      fired = replicate (nat n) None, timeEventHead = None, te_heap = Map.empty, ae_stop = False,
      beforesleep = None, aftersleep = None, custompoll = None, el_flags = 0,
      ae_cap = aeApiResize n cap, world = w\<rparr>"

definition aeGetSetSize :: "('p, 'd, 'w) aeEventLoop \<Rightarrow> int" where
  "aeGetSetSize el = setsize el"

definition aeSetDontWait :: "bool \<Rightarrow> ('p, 'd, 'w) aeEventLoop \<Rightarrow> ('p, 'd, 'w) aeEventLoop" where
  "aeSetDontWait noWait el =
     (if noWait then el\<lparr>el_flags := el_flags el OR AE_DONT_WAIT\<rparr> else el\<lparr>el_flags := el_flags el AND NOT AE_DONT_WAIT\<rparr>)"

definition aeSetPollProtect :: "bool \<Rightarrow> ('p, 'd, 'w) aeEventLoop \<Rightarrow> ('p, 'd, 'w) aeEventLoop" where
  "aeSetPollProtect protect el =
     (if protect then el\<lparr>el_flags := el_flags el OR AE_PROTECT_POLL\<rparr> else el\<lparr>el_flags := el_flags el AND NOT AE_PROTECT_POLL\<rparr>)"

definition aeSetBeforeSleepProc :: "'p option \<Rightarrow> ('p, 'd, 'w) aeEventLoop \<Rightarrow> ('p, 'd, 'w) aeEventLoop" where
  "aeSetBeforeSleepProc p el = el\<lparr>beforesleep := p\<rparr>"

definition aeSetAfterSleepProc :: "'p option \<Rightarrow> ('p, 'd, 'w) aeEventLoop \<Rightarrow> ('p, 'd, 'w) aeEventLoop" where
  "aeSetAfterSleepProc p el = el\<lparr>aftersleep := p\<rparr>"

definition aeSetCustomPollProc :: "'p option \<Rightarrow> ('p, 'd, 'w) aeEventLoop \<Rightarrow> ('p, 'd, 'w) aeEventLoop" where
  "aeSetCustomPollProc p el = el\<lparr>custompoll := p\<rparr>"

definition ae_realloc :: "'a \<Rightarrow> nat \<Rightarrow> 'a list \<Rightarrow> 'a list" where
  "ae_realloc u n xs = take n xs @ replicate (n - length xs) u"

text \<open>The slots above \<open>maxfd\<close> are cleared, the new ones and those there were.\<close>

definition clear_masks :: "int \<Rightarrow> ('p, 'd) aeFileEvent list \<Rightarrow> ('p, 'd) aeFileEvent list" where
  "clear_masks m evs = map (\<lambda>(i, fe). if int i > m then fe\<lparr>fe_mask := AE_NONE\<rparr> else fe) (enumerate 0 evs)"

definition aeResizeSetSize :: "int \<Rightarrow> ('p, 'd, 'w) aeEventLoop \<Rightarrow> int \<times> ('p, 'd, 'w) aeEventLoop" where
  "aeResizeSetSize n el =
     (if n = setsize el then (AE_OK, el)
      else if maxfd el \<ge> n then (AE_ERR, el)
      else (AE_OK, el\<lparr>ae_cap := aeApiResize n (ae_cap el),
                      events := clear_masks (maxfd el) (ae_realloc fe_uninit (nat n) (events el)),
                      fired := ae_realloc None (nat n) (fired el), setsize := n\<rparr>))"

definition ae_stop_loop :: "('p, 'd, 'w) aeEventLoop \<Rightarrow> ('p, 'd, 'w) aeEventLoop" where
  "ae_stop_loop el = el\<lparr>ae_stop := True\<rparr>"

section \<open>File events\<close>

definition in_events :: "int \<Rightarrow> ('p, 'd, 'w) aeEventLoop \<Rightarrow> bool" where
  "in_events fd el \<longleftrightarrow> 0 \<le> fd \<and> nat fd < length (events el)"

definition get_fe :: "int \<Rightarrow> ('p, 'd, 'w) aeEventLoop \<Rightarrow> ('p, 'd) aeFileEvent ae_res" where
  "get_fe fd el = (if in_events fd el then Inr (events el ! nat fd) else Inl AE_UB)"

definition set_fe :: "int \<Rightarrow> ('p, 'd) aeFileEvent \<Rightarrow> ('p, 'd, 'w) aeEventLoop \<Rightarrow> ('p, 'd, 'w) aeEventLoop" where
  "set_fe fd fe el = el\<lparr>events := (events el)[nat fd := fe]\<rparr>"

text \<open>\<open>aeApiAddEvent\<close> and \<open>aeApiDelEvent\<close> of the backend do nothing and never fail.\<close>

definition aeCreateFileEvent :: "int \<Rightarrow> mask \<Rightarrow> 'p \<Rightarrow> 'd option \<Rightarrow> ('p, 'd, 'w) aeEventLoop \<Rightarrow> (int \<times> ('p, 'd, 'w) aeEventLoop) ae_res" where
  "aeCreateFileEvent fd m p d el =
     (if fd \<ge> setsize el then Inr (AE_ERR, el)
      else rbind (get_fe fd el) (\<lambda>fe.
        let fe = fe\<lparr>fe_mask := fe_mask fe OR m\<rparr>;
            fe = (if m AND AE_READABLE \<noteq> 0 then fe\<lparr>rfileProc := Some p\<rparr> else fe);
            fe = (if m AND AE_WRITABLE \<noteq> 0 then fe\<lparr>wfileProc := Some p\<rparr> else fe);
            fe = fe\<lparr>fe_clientData := d\<rparr>;
            el = set_fe fd fe el
        in Inr (AE_OK, if fd > maxfd el then el\<lparr>maxfd := fd\<rparr> else el)))"

text \<open>The search for the highest registered descriptor below \<open>j\<close>.\<close>

fun last_fd :: "('p, 'd) aeFileEvent list \<Rightarrow> nat \<Rightarrow> int" where
  "last_fd evs 0 = -1"
| "last_fd evs (Suc j) = (if fe_mask (evs ! j) \<noteq> AE_NONE then int j else last_fd evs j)"

definition aeDeleteFileEvent :: "int \<Rightarrow> mask \<Rightarrow> ('p, 'd, 'w) aeEventLoop \<Rightarrow> ('p, 'd, 'w) aeEventLoop ae_res" where
  "aeDeleteFileEvent fd m el =
     (if fd \<ge> setsize el then Inr el
      else rbind (get_fe fd el) (\<lambda>fe.
        if fe_mask fe = AE_NONE then Inr el
        else let m = (if m AND AE_WRITABLE \<noteq> 0 then m OR AE_BARRIER else m);
                 m = m AND fe_mask fe;
                 left = fe_mask fe AND NOT m;
                 el = set_fe fd (fe\<lparr>fe_mask := left\<rparr>) el
             in Inr (if fd = maxfd el \<and> left = AE_NONE then el\<lparr>maxfd := last_fd (events el) (nat (maxfd el))\<rparr> else el)))"

definition aeGetFileClientData :: "int \<Rightarrow> ('p, 'd, 'w) aeEventLoop \<Rightarrow> 'd option ae_res" where
  "aeGetFileClientData fd el =
     (if fd \<ge> setsize el then Inr None
      else rbind (get_fe fd el) (\<lambda>fe. Inr (if fe_mask fe = AE_NONE then None else fe_clientData fe)))"

definition aeGetFileEvents :: "int \<Rightarrow> ('p, 'd, 'w) aeEventLoop \<Rightarrow> mask ae_res" where
  "aeGetFileEvents fd el =
     (if fd \<ge> setsize el then Inr 0 else rbind (get_fe fd el) (\<lambda>fe. Inr (fe_mask fe)))"

section \<open>Time events\<close>

definition te_get :: "nat \<Rightarrow> ('p, 'd) te_heap \<Rightarrow> ('p, 'd) aeTimeEvent ae_res" where
  "te_get a h = (case h a of None \<Rightarrow> Inl AE_UB | Some t \<Rightarrow> Inr t)"

text \<open>A write through a pointer that may be null, when the code checks it first.\<close>

definition te_upd :: "nat option \<Rightarrow> (('p, 'd) aeTimeEvent \<Rightarrow> ('p, 'd) aeTimeEvent) \<Rightarrow> ('p, 'd) te_heap \<Rightarrow> ('p, 'd) te_heap ae_res" where
  "te_upd q f h = (case q of None \<Rightarrow> Inr h | Some a \<Rightarrow> rbind (te_get a h) (\<lambda>t. Inr (h(a \<mapsto> f t))))"

definition aeCreateTimeEvent ::
  "('p, 'd, 'w) ae_env \<Rightarrow> int \<Rightarrow> 'p \<Rightarrow> 'd \<Rightarrow> 'p option \<Rightarrow> ('p, 'd, 'w) aeEventLoop \<Rightarrow> (int \<times> ('p, 'd, 'w) aeEventLoop) ae_res" where
  "aeCreateTimeEvent E ms p d fin el =
     (let id = timeEventNextId el;
          el = el\<lparr>timeEventNextId := id + 1\<rparr>;
          a = new_te E el;
          (now, el) = getMonotonicUs E el;
          te = \<lparr>te_id = id, te_when = now + of_int (ms * 1000), timeProc = p, finalizerProc = fin,
                te_clientData = d, te_prev = None, te_next = timeEventHead el, te_refcount = 0\<rparr>
      in rbind (te_upd (te_next te) (\<lambda>t. t\<lparr>te_prev := Some a\<rparr>) ((te_heap el)(a \<mapsto> te))) (\<lambda>h.
           Inr (id, el\<lparr>te_heap := h, timeEventHead := Some a\<rparr>)))"

fun delete_loop :: "nat \<Rightarrow> nat option \<Rightarrow> int \<Rightarrow> ('p, 'd) te_heap \<Rightarrow> (int \<times> ('p, 'd) te_heap) ae_res" where
  "delete_loop fuel None i h = Inr (AE_ERR, h)"
| "delete_loop 0 (Some a) i h = Inl AE_FUEL"
| "delete_loop (Suc fuel) (Some a) i h = rbind (te_get a h) (\<lambda>t.
     if te_id t = i then Inr (AE_OK, h(a \<mapsto> t\<lparr>te_id := AE_DELETED_EVENT_ID\<rparr>))
     else delete_loop fuel (te_next t) i h)"

text \<open>A list has no more nodes than timers were ever created: the bound of every walk.\<close>

definition te_fuel :: "('p, 'd, 'w) aeEventLoop \<Rightarrow> nat" where
  "te_fuel el = nat (timeEventNextId el)"

definition aeDeleteTimeEvent :: "int \<Rightarrow> ('p, 'd, 'w) aeEventLoop \<Rightarrow> (int \<times> ('p, 'd, 'w) aeEventLoop) ae_res" where
  "aeDeleteTimeEvent i el =
     rbind (delete_loop (te_fuel el) (timeEventHead el) i (te_heap el)) (\<lambda>(r, h). Inr (r, el\<lparr>te_heap := h\<rparr>))"

fun earliest_loop :: "nat \<Rightarrow> nat option \<Rightarrow> ('p, 'd) aeTimeEvent option \<Rightarrow> ('p, 'd) te_heap \<Rightarrow> ('p, 'd) aeTimeEvent option ae_res" where
  "earliest_loop fuel None earliest h = Inr earliest"
| "earliest_loop 0 (Some a) earliest h = Inl AE_FUEL"
| "earliest_loop (Suc fuel) (Some a) earliest h = rbind (te_get a h) (\<lambda>t.
     earliest_loop fuel (te_next t)
       (if (case earliest of None \<Rightarrow> True | Some e \<Rightarrow> te_when t < te_when e) \<and> te_id t \<noteq> AE_DELETED_EVENT_ID
        then Some t else earliest) h)"

definition usUntilEarliestTimer :: "('p, 'd, 'w) ae_env \<Rightarrow> ('p, 'd, 'w) aeEventLoop \<Rightarrow> (int \<times> ('p, 'd, 'w) aeEventLoop) ae_res" where
  "usUntilEarliestTimer E el =
     (if timeEventHead el = None then Inr (-1, el)
      else rbind (earliest_loop (te_fuel el) (timeEventHead el) None (te_heap el)) (\<lambda>earliest.
        let (now, el) = getMonotonicUs E el in
        case earliest of
          None \<Rightarrow> Inl AE_UB
        | Some e \<Rightarrow> Inr (if now \<ge> te_when e then 0 else sint (te_when e - now), el)))"

text \<open>Unlinking the node \<open>t\<close>, running its finalizer and freeing it.\<close>

definition unlink_te :: "('p, 'd) aeTimeEvent \<Rightarrow> ('p, 'd, 'w) aeEventLoop \<Rightarrow> ('p, 'd, 'w) aeEventLoop ae_res" where
  "unlink_te t el = rbind (te_upd (te_prev t) (\<lambda>p. p\<lparr>te_next := te_next t\<rparr>) (te_heap el)) (\<lambda>h.
     rbind (te_upd (te_next t) (\<lambda>n. n\<lparr>te_prev := te_prev t\<rparr>) h) (\<lambda>h.
     Inr (el\<lparr>te_heap := h, timeEventHead := (if te_prev t = None then te_next t else timeEventHead el)\<rparr>)))"

definition finalize_te :: "('p, 'd, 'w) ae_env \<Rightarrow> nat \<Rightarrow> ('p, 'd) aeTimeEvent \<Rightarrow> monotime \<Rightarrow> ('p, 'd, 'w) aeEventLoop \<Rightarrow> monotime \<times> ('p, 'd, 'w) aeEventLoop" where
  "finalize_te E a t now el =
     (let (now, el) = (case finalizerProc t of
            None \<Rightarrow> (now, el)
          | Some f \<Rightarrow> getMonotonicUs E (run_fin E f (te_clientData t) el))
      in (now, el\<lparr>te_heap := (te_heap el)(a := None)\<rparr>))"

text \<open>A due timer: the reference count keeps the node alive while its procedure runs.\<close>

definition fire_te :: "('p, 'd, 'w) ae_env \<Rightarrow> nat \<Rightarrow> ('p, 'd) aeTimeEvent \<Rightarrow> ('p, 'd, 'w) aeEventLoop \<Rightarrow> (monotime \<times> ('p, 'd, 'w) aeEventLoop) ae_res" where
  "fire_te E a t el =
     (let el = el\<lparr>te_heap := (te_heap el)(a \<mapsto> t\<lparr>te_refcount := te_refcount t + 1\<rparr>)\<rparr>;
          (retval, el) = run_time E (timeProc t) (te_id t) (te_clientData t) el
      in rbind (te_get a (te_heap el)) (\<lambda>t.
        let t = t\<lparr>te_refcount := te_refcount t - 1\<rparr>;
            (now, el) = getMonotonicUs E el;
            t = (if retval \<noteq> AE_NOMORE then t\<lparr>te_when := now + of_int retval * 1000\<rparr>
                 else t\<lparr>te_id := AE_DELETED_EVENT_ID\<rparr>)
        in Inr (now, el\<lparr>te_heap := (te_heap el)(a \<mapsto> t)\<rparr>)))"

fun processTime_loop ::
  "('p, 'd, 'w) ae_env \<Rightarrow> nat \<Rightarrow> nat option \<Rightarrow> int \<Rightarrow> monotime \<Rightarrow> nat \<Rightarrow> ('p, 'd, 'w) aeEventLoop \<Rightarrow> (nat \<times> ('p, 'd, 'w) aeEventLoop) ae_res" where
  "processTime_loop E fuel None maxId now processed el = Inr (processed, el)"
| "processTime_loop E 0 (Some a) maxId now processed el = Inl AE_FUEL"
| "processTime_loop E (Suc fuel) (Some a) maxId now processed el = rbind (te_get a (te_heap el)) (\<lambda>t.
     if te_id t = AE_DELETED_EVENT_ID then
       (if te_refcount t \<noteq> 0 then processTime_loop E fuel (te_next t) maxId now processed el
        else rbind (unlink_te t el) (\<lambda>el.
          let (now, el) = finalize_te E a t now el in
          processTime_loop E fuel (te_next t) maxId now processed el))
     else if te_id t > maxId then processTime_loop E fuel (te_next t) maxId now processed el
     else if te_when t \<le> now then
       rbind (fire_te E a t el) (\<lambda>(now, el).
         rbind (te_get a (te_heap el)) (\<lambda>t. processTime_loop E fuel (te_next t) maxId now (processed + 1) el))
     else processTime_loop E fuel (te_next t) maxId now processed el)"

definition processTimeEvents :: "('p, 'd, 'w) ae_env \<Rightarrow> ('p, 'd, 'w) aeEventLoop \<Rightarrow> (nat \<times> ('p, 'd, 'w) aeEventLoop) ae_res" where
  "processTimeEvents E el =
     (let (now, el') = getMonotonicUs E el in
      processTime_loop E (te_fuel el) (timeEventHead el) (timeEventNextId el - 1) now 0 el')"

text \<open>Freeing the loop: the arrays are gone before the finalizers run.\<close>

fun free_loop :: "('p, 'd, 'w) ae_env \<Rightarrow> nat \<Rightarrow> nat option \<Rightarrow> ('p, 'd, 'w) aeEventLoop \<Rightarrow> ('p, 'd, 'w) aeEventLoop ae_res" where
  "free_loop E fuel None el = Inr el"
| "free_loop E 0 (Some a) el = Inl AE_FUEL"
| "free_loop E (Suc fuel) (Some a) el = rbind (te_get a (te_heap el)) (\<lambda>t.
     let el = (case finalizerProc t of None \<Rightarrow> el | Some f \<Rightarrow> run_fin E f (te_clientData t) el)
     in free_loop E fuel (te_next t) (el\<lparr>te_heap := (te_heap el)(a := None)\<rparr>))"

definition aeDeleteEventLoop :: "('p, 'd, 'w) ae_env \<Rightarrow> ('p, 'd, 'w) aeEventLoop \<Rightarrow> ('p, 'd, 'w) aeEventLoop ae_res" where
  "aeDeleteEventLoop E el = free_loop E (te_fuel el) (timeEventHead el) (el\<lparr>events := [], fired := []\<rparr>)"

section \<open>Polling and dispatch\<close>

definition ae_interest :: "('p, 'd, 'w) aeEventLoop \<Rightarrow> (int \<times> mask) list" where
  "ae_interest el = map (\<lambda>fd. (int fd, fe_mask (events el ! fd)))
     (filter (\<lambda>fd. fe_mask (events el ! fd) \<noteq> AE_NONE) [0..<nat (maxfd el + 1)])"

definition aeApiPoll :: "('p, 'd, 'w) ae_env \<Rightarrow> ('p, 'd, 'w) aeEventLoop \<Rightarrow> (nat \<times> ('p, 'd, 'w) aeEventLoop) ae_res" where
  "aeApiPoll E el =
     (if maxfd el \<ge> int (length (events el)) then Inl AE_UB
      else let interest = ae_interest el in
        if int (length interest) > ae_cap el then Inl AE_UB
        else if interest = [] then Inr (0, el)
        else let r = poll_host E (world el) interest (nat (ae_cap el)) in
          if length r > length (fired el) then Inl AE_UB
          else Inr (length r, el\<lparr>fired := map Some r @ drop (length r) (fired el)\<rparr>))"

definition aePoll :: "('p, 'd, 'w) ae_env \<Rightarrow> ('p, 'd, 'w) aeEventLoop \<Rightarrow> (nat \<times> ('p, 'd, 'w) aeEventLoop) ae_res" where
  "aePoll E el = aeApiPoll E el"

definition call_file :: "('p, 'd, 'w) ae_env \<Rightarrow> 'p option \<Rightarrow> int \<Rightarrow> 'd option \<Rightarrow> mask \<Rightarrow> ('p, 'd, 'w) aeEventLoop \<Rightarrow> ('p, 'd, 'w) aeEventLoop ae_res" where
  "call_file E q fd d m el = (case q of None \<Rightarrow> Inl AE_UB | Some p \<Rightarrow> Inr (run_file E p fd d m el))"

text \<open>Every access goes through the array anew: the code refreshes \<open>fe\<close> after a callback.\<close>

definition fire_read :: "('p, 'd, 'w) ae_env \<Rightarrow> int \<Rightarrow> mask \<Rightarrow> ('p, 'd, 'w) aeEventLoop \<Rightarrow> ('p, 'd, 'w) aeEventLoop ae_res" where
  "fire_read E fd m el = rbind (get_fe fd el) (\<lambda>fe. call_file E (rfileProc fe) fd (fe_clientData fe) m el)"

definition fire_write :: "('p, 'd, 'w) ae_env \<Rightarrow> int \<Rightarrow> mask \<Rightarrow> ('p, 'd, 'w) aeEventLoop \<Rightarrow> ('p, 'd, 'w) aeEventLoop ae_res" where
  "fire_write E fd m el = rbind (get_fe fd el) (\<lambda>fe. call_file E (wfileProc fe) fd (fe_clientData fe) m el)"

text \<open>The events of one descriptor: readable first, unless \<open>AE_BARRIER\<close> asks for the reverse.  The
  three places where a procedure is called, \<open>n\<close> being what \<open>fired\<close> is in the code: whether one was
  called before.\<close>

definition read_first :: "('p, 'd, 'w) ae_env \<Rightarrow> bool \<Rightarrow> int \<Rightarrow> mask \<Rightarrow> ('p, 'd, 'w) aeEventLoop \<Rightarrow> (bool \<times> ('p, 'd, 'w) aeEventLoop) ae_res" where
  "read_first E invert fd m el = rbind (get_fe fd el) (\<lambda>fe.
     if \<not> invert \<and> fe_mask fe AND m AND AE_READABLE \<noteq> 0
     then rbind (fire_read E fd m el) (\<lambda>el. Inr (True, el)) else Inr (False, el))"

definition write_next :: "('p, 'd, 'w) ae_env \<Rightarrow> int \<Rightarrow> mask \<Rightarrow> bool \<Rightarrow> ('p, 'd, 'w) aeEventLoop \<Rightarrow> (bool \<times> ('p, 'd, 'w) aeEventLoop) ae_res" where
  "write_next E fd m n el = rbind (get_fe fd el) (\<lambda>fe.
     if fe_mask fe AND m AND AE_WRITABLE \<noteq> 0 \<and> (\<not> n \<or> wfileProc fe \<noteq> rfileProc fe)
     then rbind (fire_write E fd m el) (\<lambda>el. Inr (True, el)) else Inr (n, el))"

definition read_last :: "('p, 'd, 'w) ae_env \<Rightarrow> bool \<Rightarrow> int \<Rightarrow> mask \<Rightarrow> bool \<Rightarrow> ('p, 'd, 'w) aeEventLoop \<Rightarrow> ('p, 'd, 'w) aeEventLoop ae_res" where
  "read_last E invert fd m n el =
     (if \<not> invert then Inr el
      else rbind (get_fe fd el) (\<lambda>fe.
        if fe_mask fe AND m AND AE_READABLE \<noteq> 0 \<and> (\<not> n \<or> wfileProc fe \<noteq> rfileProc fe)
        then fire_read E fd m el else Inr el))"

definition dispatch :: "('p, 'd, 'w) ae_env \<Rightarrow> int \<Rightarrow> mask \<Rightarrow> ('p, 'd, 'w) aeEventLoop \<Rightarrow> ('p, 'd, 'w) aeEventLoop ae_res" where
  "dispatch E fd m el = rbind (get_fe fd el) (\<lambda>fe.
     let invert = (fe_mask fe AND AE_BARRIER \<noteq> 0) in
     rbind (read_first E invert fd m el) (\<lambda>(n, el).
     rbind (write_next E fd m n el) (\<lambda>(n, el).
     read_last E invert fd m n el)))"

definition get_fired :: "nat \<Rightarrow> ('p, 'd, 'w) aeEventLoop \<Rightarrow> (int \<times> mask) ae_res" where
  "get_fired j el = (if j < length (fired el) then (case fired el ! j of None \<Rightarrow> Inl AE_UB | Some r \<Rightarrow> Inr r) else Inl AE_UB)"

text \<open>The loop over the fired events, for \<open>j\<close> up to \<open>j + n\<close>.\<close>

fun fired_loop :: "('p, 'd, 'w) ae_env \<Rightarrow> nat \<Rightarrow> nat \<Rightarrow> ('p, 'd, 'w) aeEventLoop \<Rightarrow> ('p, 'd, 'w) aeEventLoop ae_res" where
  "fired_loop E j 0 el = Inr el"
| "fired_loop E j (Suc n) el = rbind (get_fired j el) (\<lambda>(fd, m).
     rbind (dispatch E fd m el) (\<lambda>el. fired_loop E (Suc j) n el))"

definition call_before :: "('p, 'd, 'w) ae_env \<Rightarrow> mask \<Rightarrow> ('p, 'd, 'w) aeEventLoop \<Rightarrow> ('p, 'd, 'w) aeEventLoop" where
  "call_before E flags el = (case beforesleep el of
     Some p \<Rightarrow> if flags AND AE_CALL_BEFORE_SLEEP \<noteq> 0 then run_before E p el else el
   | None \<Rightarrow> el)"

definition call_after :: "('p, 'd, 'w) ae_env \<Rightarrow> mask \<Rightarrow> int \<Rightarrow> ('p, 'd, 'w) aeEventLoop \<Rightarrow> ('p, 'd, 'w) aeEventLoop" where
  "call_after E flags n el = (case aftersleep el of
     Some p \<Rightarrow> if flags AND AE_CALL_AFTER_SLEEP \<noteq> 0 then run_after E p n el else el
   | None \<Rightarrow> el)"

text \<open>The timeout is computed before the poll, and ignored by the backend.\<close>

definition do_poll :: "('p, 'd, 'w) ae_env \<Rightarrow> mask \<Rightarrow> ('p, 'd, 'w) aeEventLoop \<Rightarrow> (int \<times> ('p, 'd, 'w) aeEventLoop) ae_res" where
  "do_poll E flags el = (case custompoll el of
     Some p \<Rightarrow> Inr (run_poll E p el)
   | None \<Rightarrow>
       rbind (if flags AND AE_DONT_WAIT \<noteq> 0 \<or> el_flags el AND AE_DONT_WAIT \<noteq> 0 then Inr el
              else if flags AND AE_TIME_EVENTS \<noteq> 0 then rbind (usUntilEarliestTimer E el) (\<lambda>(us, el). Inr el)
              else Inr el) (\<lambda>el.
       rbind (aeApiPoll E el) (\<lambda>(n, el). Inr (int n, el))))"

definition aeProcessEvents :: "('p, 'd, 'w) ae_env \<Rightarrow> mask \<Rightarrow> ('p, 'd, 'w) aeEventLoop \<Rightarrow> (nat \<times> ('p, 'd, 'w) aeEventLoop) ae_res" where
  "aeProcessEvents E flags el =
     (if flags AND AE_TIME_EVENTS = 0 \<and> flags AND AE_FILE_EVENTS = 0 then Inr (0, el)
      else rbind
        (if maxfd el \<noteq> -1 \<or> (flags AND AE_TIME_EVENTS \<noteq> 0 \<and> flags AND AE_DONT_WAIT = 0) then
           rbind (do_poll E flags (call_before E flags el)) (\<lambda>(numevents, el).
             let numevents = (if flags AND AE_FILE_EVENTS = 0 then 0 else numevents);
                 el = call_after E flags numevents el
             in rbind (fired_loop E 0 (nat numevents) el) (\<lambda>el. Inr (nat numevents, el)))
         else Inr (0, el)) (\<lambda>(processed, el).
      if flags AND AE_TIME_EVENTS \<noteq> 0
      then rbind (processTimeEvents E el) (\<lambda>(n, el). Inr (processed + n, el))
      else Inr (processed, el)))"

text \<open>\<open>poll\<close> on one descriptor: which of \<open>POLLIN\<close> and \<open>POLLOUT\<close> are asked for, the number of ready
  descriptors and the events reported, in the order \<open>POLLIN\<close>, \<open>POLLOUT\<close>, \<open>POLLERR\<close>, \<open>POLLHUP\<close>.\<close>

definition aeWait :: "(bool \<Rightarrow> bool \<Rightarrow> int \<times> bool \<times> bool \<times> bool \<times> bool) \<Rightarrow> mask \<Rightarrow> int" where
  "aeWait poll m = (let (retval, pin, pout, perr, phup) = poll (m AND AE_READABLE \<noteq> 0) (m AND AE_WRITABLE \<noteq> 0) in
     if retval = 1
     then uint ((if pin then AE_READABLE else 0) OR (if pout then AE_WRITABLE else 0) OR
                (if perr then AE_WRITABLE else 0) OR (if phup then AE_WRITABLE else 0))
     else retval)"

text \<open>\<open>aeMain\<close>, cut off after \<open>n\<close> passes.\<close>

fun aeMain_loop :: "('p, 'd, 'w) ae_env \<Rightarrow> nat \<Rightarrow> ('p, 'd, 'w) aeEventLoop \<Rightarrow> ('p, 'd, 'w) aeEventLoop ae_res" where
  "aeMain_loop E 0 el = (if ae_stop el then Inr el else Inl AE_FUEL)"
| "aeMain_loop E (Suc n) el = (if ae_stop el then Inr el
     else rbind (aeProcessEvents E (AE_ALL_EVENTS OR AE_CALL_BEFORE_SLEEP OR AE_CALL_AFTER_SLEEP) el) (\<lambda>(k, el). aeMain_loop E n el))"

definition aeMain :: "('p, 'd, 'w) ae_env \<Rightarrow> nat \<Rightarrow> ('p, 'd, 'w) aeEventLoop \<Rightarrow> ('p, 'd, 'w) aeEventLoop ae_res" where
  "aeMain E n el = aeMain_loop E n (el\<lparr>ae_stop := False\<rparr>)"

definition rk_step :: "('p, 'd, 'w) ae_env \<Rightarrow> ('p, 'd, 'w) aeEventLoop \<Rightarrow> (nat \<times> ('p, 'd, 'w) aeEventLoop) ae_res" where
  "rk_step E el = aeProcessEvents E (AE_ALL_EVENTS OR AE_DONT_WAIT OR AE_CALL_BEFORE_SLEEP OR AE_CALL_AFTER_SLEEP) el"

definition rk_next_timeout_ms :: "int \<Rightarrow> int" where
  "rk_next_timeout_ms hz = 1000 div hz"

end
