(* ===== verification/Linked.thy ===== *)
theory Linked
  imports Prelude
begin

text \<open>
  Doubly linked lists in a store of addresses, for any kind of node: \<open>pv\<close> and \<open>nx\<close> read the links of a
  node.  A segment is described by the list of its addresses.
\<close>

text \<open>The nodes \<open>as\<close> are linked from \<open>q\<close> to \<open>r\<close>, with \<open>p\<close> before the first.\<close>

fun dseg :: "('n \<Rightarrow> nat option) \<Rightarrow> ('n \<Rightarrow> nat option) \<Rightarrow> (nat \<rightharpoonup> 'n) \<Rightarrow> nat option \<Rightarrow> nat option \<Rightarrow> nat option \<Rightarrow> nat list \<Rightarrow> bool" where
  "dseg pv nx h p q r [] \<longleftrightarrow> q = r"
| "dseg pv nx h p q r (a # as) \<longleftrightarrow> q = Some a \<and> (case h a of
     None \<Rightarrow> False
   | Some t \<Rightarrow> pv t = p \<and> dseg pv nx h (Some a) (nx t) r as)"

definition last_of :: "nat option \<Rightarrow> nat list \<Rightarrow> nat option" where
  "last_of p as = (if as = [] then p else Some (last as))"

lemma last_of_simps [simp]:
  "last_of p [] = p" "last_of p (as @ [a]) = Some a" "last_of p (a # as) = last_of (Some a) as"
  by (auto simp: last_of_def)

lemma dseg_dom: "dseg pv nx h p q r as \<Longrightarrow> set as \<subseteq> dom h"
  by (induction as arbitrary: p q) (auto split: option.splits)

lemma dseg_append:
  "dseg pv nx h p q r (xs @ ys) \<longleftrightarrow> (\<exists>m. dseg pv nx h p q m xs \<and> dseg pv nx h (last_of p xs) m r ys)"
  by (induction xs arbitrary: p q) (auto split: option.splits)

lemma dseg_cong:
  "dseg pv nx h p q r as \<Longrightarrow> (\<And>a t. a \<in> set as \<Longrightarrow> h a = Some t \<Longrightarrow> \<exists>t'. h' a = Some t' \<and> pv t' = pv t \<and> nx t' = nx t) \<Longrightarrow>
   dseg pv nx h' p q r as"
proof (induction as arbitrary: p q)
  case (Cons a as)
  then obtain t where t: "h a = Some t" "pv t = p" "dseg pv nx h (Some a) (nx t) r as" "q = Some a" by (auto split: option.splits)
  obtain t' where t': "h' a = Some t'" "pv t' = pv t" "nx t' = nx t" using Cons.prems(2) [OF _ t(1)] by auto
  have "dseg pv nx h' (Some a) (nx t) r as" using Cons.IH [OF t(3)] Cons.prems(2) by auto
  then show ?case using t t' by simp
qed simp

lemma dseg_other [simp]: "a \<notin> set as \<Longrightarrow> dseg pv nx (h(a := x)) p q r as = dseg pv nx h p q r as"
  by (induction as arbitrary: p q) (auto split: option.splits)

lemma dseg_upd:
  "dseg pv nx h p q r as \<Longrightarrow> h a = Some t \<Longrightarrow> pv t' = pv t \<Longrightarrow> nx t' = nx t \<Longrightarrow> dseg pv nx (h(a \<mapsto> t')) p q r as"
  by (erule dseg_cong) auto

lemma dseg_node:
  assumes "dseg pv nx h p q r (xs @ a # ys)"
  obtains t where "h a = Some t" "pv t = last_of p xs" "dseg pv nx h (Some a) (nx t) r ys" "dseg pv nx h p q (Some a) xs"
  using assms by (auto simp: dseg_append split: option.splits)

lemma dseg_start: "dseg pv nx h p q None as \<Longrightarrow> dseg pv nx h' p' q' None as \<Longrightarrow> q = q'"
  by (cases as) auto

text \<open>A store that is finite has a free address.\<close>

lemma least_free: "finite (dom h) \<Longrightarrow> (LEAST a. a \<notin> dom h) \<notin> dom h" for h :: "nat \<rightharpoonup> 'n"
  by (rule LeastI_ex) (rule ex_new_if_finite [OF infinite_UNIV_nat])

end
