(* ===== verification/Ae_Timers.thy ===== *)
theory Ae_Timers
  imports Ae Linked "HOL-Library.Sublist"
begin

text \<open>
  The timers of the event loop.  The doubly linked list in the store of addresses is described by
  the list of its nodes; unlinking, pushing and field updates are lemmas on that list.  The
  invariant \<open>ae_inv\<close> of the loop, and \<open>ae_rely\<close>, what a callback may do to the loop while a pass holds
  pointers into it.  The locale \<open>ae_callbacks\<close> states the contract of the callbacks; under it, a pass
  over the timers neither follows a freed pointer nor runs forever, keeps the invariant and itself
  stays within \<open>ae_rely\<close>, so that a callback may run a nested pass.
\<close>

section \<open>The list of timers\<close>

abbreviation te_seg :: "('p, 'd) te_heap \<Rightarrow> nat option \<Rightarrow> nat option \<Rightarrow> nat option \<Rightarrow> nat list \<Rightarrow> bool" where
  "te_seg \<equiv> dseg te_prev te_next"

lemma te_get_Inr [simp]: "te_get a h = Inr t \<longleftrightarrow> h a = Some t"
  by (auto simp: te_get_def split: option.splits)

lemma te_get_Some: "h a = Some t \<Longrightarrow> te_get a h = Inr t"
  by simp

lemma te_upd_simps [simp]: "te_upd None f h = Inr h" "h a = Some t \<Longrightarrow> te_upd (Some a) f h = Inr (h(a \<mapsto> f t))"
  by (auto simp: te_upd_def te_get_Some)

text \<open>The changes of a node that leave the links alone.\<close>

definition te_core :: "('p, 'd) aeTimeEvent \<Rightarrow> ('p, 'd) aeTimeEvent" where
  "te_core t = t\<lparr>te_prev := None, te_next := None\<rparr>"

lemma te_core_simps [simp]:
  "te_core (t\<lparr>te_prev := x\<rparr>) = te_core t" "te_core (t\<lparr>te_next := x\<rparr>) = te_core t"
  by (simp_all add: te_core_def)

lemma te_core_fields:
  "te_core t = te_core t' \<Longrightarrow> te_id t = te_id t' \<and> te_when t = te_when t' \<and> timeProc t = timeProc t' \<and>
     finalizerProc t = finalizerProc t' \<and> te_clientData t = te_clientData t' \<and> te_refcount t = te_refcount t'"
  by (auto simp: te_core_def dest: arg_cong [of _ _ te_id] arg_cong [of _ _ te_when] arg_cong [of _ _ timeProc]
      arg_cong [of _ _ finalizerProc] arg_cong [of _ _ te_clientData] arg_cong [of _ _ te_refcount])

text \<open>Unlinking takes a node out of the list and changes only links.\<close>

lemma te_unlink:
  assumes "te_seg h None q None (xs @ a # ys)" "distinct (xs @ a # ys)" "h a = Some t"
  shows "\<exists>h1 h2. te_upd (te_prev t) (\<lambda>n. n\<lparr>te_next := te_next t\<rparr>) h = Inr h1 \<and>
    te_upd (te_next t) (\<lambda>n. n\<lparr>te_prev := te_prev t\<rparr>) h1 = Inr h2 \<and>
    te_seg h2 None (if te_prev t = None then te_next t else q) None (xs @ ys) \<and>
    (\<forall>x. map_option te_core (h2 x) = map_option te_core (h x)) \<and> h2 a = Some t"
proof -
  have n: "te_prev t = last_of None xs" "te_seg h (Some a) (te_next t) None ys" "te_seg h None q (Some a) xs"
    using dseg_node [OF assms(1)] assms(3) by auto
  consider "ys = []" | y ty zs where "ys = y # zs" "te_next t = Some y" "h y = Some ty" "te_seg h (Some y) (te_next ty) None zs"
    using n(2) by (cases ys) (auto split: option.splits)
  note ycases = this
  show ?thesis
  proof (cases xs rule: rev_cases)
    case Nil
    from ycases show ?thesis using Nil n assms(2,3) by cases auto
  next
    case (snoc us x)
    then obtain tx where x: "h x = Some tx" "te_prev tx = last_of None us" "te_seg h None q (Some x) us" "te_next tx = Some a"
      using n(3) by (auto simp: dseg_append split: option.splits)
    from ycases show ?thesis using snoc n x assms(2,3) by cases (auto simp: dseg_append)
  qed
qed

section \<open>The invariant\<close>

text \<open>A registered event has its procedure; \<open>maxfd\<close> is the highest registered descriptor; the
  static buffers of the backend hold the whole set.\<close>

definition fe_ok :: "('p, 'd) aeFileEvent \<Rightarrow> bool" where
  "fe_ok fe \<longleftrightarrow> (fe_mask fe AND AE_READABLE \<noteq> 0 \<longrightarrow> rfileProc fe \<noteq> None) \<and> (fe_mask fe AND AE_WRITABLE \<noteq> 0 \<longrightarrow> wfileProc fe \<noteq> None)"

definition is_maxfd :: "int \<Rightarrow> ('p, 'd) aeFileEvent list \<Rightarrow> bool" where
  "is_maxfd m evs \<longleftrightarrow> -1 \<le> m \<and> m < int (length evs) \<and> (\<forall>i < length evs. fe_mask (evs ! i) \<noteq> AE_NONE \<longrightarrow> int i \<le> m)
     \<and> (m \<noteq> -1 \<longrightarrow> fe_mask (evs ! nat m) \<noteq> AE_NONE)"

definition ae_files :: "('p, 'd, 'w) aeEventLoop \<Rightarrow> bool" where
  "ae_files el \<longleftrightarrow> setsize el = int (length (events el)) \<and> length (fired el) = length (events el) \<and> setsize el \<le> ae_cap el
     \<and> is_maxfd (maxfd el) (events el) \<and> (\<forall>fe \<in> set (events el). fe_ok fe)"

text \<open>The nodes of the timers, in list order: linked, distinct, no more than were created, with
  identifiers that were handed out and that no two live timers share.\<close>

definition te_ids :: "('p, 'd) te_heap \<Rightarrow> nat list \<Rightarrow> int \<Rightarrow> bool" where
  "te_ids h as n \<longleftrightarrow> (\<forall>a \<in> set as. \<forall>t. h a = Some t \<longrightarrow> te_id t = AE_DELETED_EVENT_ID \<or> 0 < te_id t \<and> te_id t < n)
     \<and> (\<forall>a \<in> set as. \<forall>b \<in> set as. \<forall>t u. h a = Some t \<longrightarrow> h b = Some u \<longrightarrow> te_id t = te_id u \<longrightarrow>
          te_id t \<noteq> AE_DELETED_EVENT_ID \<longrightarrow> a = b)"

definition ae_timers :: "('p, 'd, 'w) aeEventLoop \<Rightarrow> nat list \<Rightarrow> bool" where
  "ae_timers el as \<longleftrightarrow> te_seg (te_heap el) None (timeEventHead el) None as \<and> distinct as \<and> finite (dom (te_heap el))
     \<and> int (length as) < timeEventNextId el \<and> te_ids (te_heap el) as (timeEventNextId el)"

definition ae_inv :: "('p, 'd, 'w) aeEventLoop \<Rightarrow> nat list \<Rightarrow> bool" where
  "ae_inv el as \<longleftrightarrow> ae_files el \<and> ae_timers el as"

section \<open>What a callback may do\<close>

text \<open>New timers go to the head; of the old ones those in \<open>old\<close> stay, in order; a node whose
  reference count is positive stays and keeps its count; memory that is allocated but not in the
  list is not freed; the set does not shrink and what was fired names descriptors of the set.\<close>

definition refs :: "nat \<Rightarrow> ('p, 'd, 'w) aeEventLoop \<Rightarrow> nat" where
  "refs a el = (case te_heap el a of None \<Rightarrow> 0 | Some t \<Rightarrow> te_refcount t)"

definition te_step :: "nat list \<Rightarrow> ('p, 'd, 'w) aeEventLoop \<Rightarrow> nat list \<Rightarrow> ('p, 'd, 'w) aeEventLoop \<Rightarrow> nat list \<Rightarrow> bool" where
  "te_step old el as el' as' \<longleftrightarrow> subseq old as
     \<and> (\<exists>new. as' = new @ old \<and> (\<forall>x \<in> set new. x \<in> dom (te_heap el) \<longrightarrow> x \<in> set as))
     \<and> (\<forall>a \<in> set as. 0 < refs a el \<longrightarrow> a \<in> set old \<and> refs a el' = refs a el)
     \<and> (\<forall>x \<in> dom (te_heap el). x \<notin> set as \<longrightarrow> x \<in> dom (te_heap el'))
     \<and> timeEventNextId el \<le> timeEventNextId el'"

definition valid_fired :: "('p, 'd, 'w) aeEventLoop \<Rightarrow> nat \<Rightarrow> bool" where
  "valid_fired el j \<longleftrightarrow> j < length (fired el) \<and> (\<exists>fd m. fired el ! j = Some (fd, m) \<and> in_events fd el)"

definition files_step :: "('p, 'd, 'w) aeEventLoop \<Rightarrow> ('p, 'd, 'w) aeEventLoop \<Rightarrow> bool" where
  "files_step el el' \<longleftrightarrow> length (events el) \<le> length (events el') \<and> (\<forall>j. valid_fired el j \<longrightarrow> valid_fired el' j)"

definition ae_rely :: "('p, 'd, 'w) aeEventLoop \<Rightarrow> nat list \<Rightarrow> ('p, 'd, 'w) aeEventLoop \<Rightarrow> nat list \<Rightarrow> bool" where
  "ae_rely el as el' as' \<longleftrightarrow> files_step el el' \<and> (\<exists>old. te_step old el as el' as')"

text \<open>A finalizer, moreover, frees nothing.\<close>

definition ae_keep :: "('p, 'd, 'w) aeEventLoop \<Rightarrow> nat list \<Rightarrow> ('p, 'd, 'w) aeEventLoop \<Rightarrow> nat list \<Rightarrow> bool" where
  "ae_keep el as el' as' \<longleftrightarrow> files_step el el' \<and> te_step as el as el' as'"

lemma files_step_refl [simp]: "files_step el el"
  by (simp add: files_step_def)

lemma files_step_trans: "files_step a b \<Longrightarrow> files_step b c \<Longrightarrow> files_step a c"
  by (auto simp: files_step_def)

lemma te_step_refl [simp]: "te_step as el as el as"
  by (auto simp: te_step_def)

lemma subseq_subset: "subseq xs ys \<Longrightarrow> set xs \<subseteq> set ys"
  by (induction rule: list_emb.induct) auto

lemma te_step_trans:
  assumes 1: "te_step old el as el1 as1" and 2: "te_step old1 el1 as1 el2 as2" and d: "distinct as1"
  shows "\<exists>old2. te_step old2 el as el2 as2 \<and> subseq old2 old \<and> (old1 = as1 \<longrightarrow> old2 = old)"
proof -
  obtain new where n: "as1 = new @ old" "\<And>x. x \<in> set new \<Longrightarrow> x \<in> dom (te_heap el) \<Longrightarrow> x \<in> set as" "set old \<subseteq> set as"
    using 1 by (auto simp: te_step_def dest: subseq_subset)
  obtain new1 where n1: "as2 = new1 @ old1" "\<And>x. x \<in> set new1 \<Longrightarrow> x \<in> dom (te_heap el1) \<Longrightarrow> x \<in> set as1" "subseq old1 (new @ old)"
    using 2 n(1) by (auto simp: te_step_def)
  obtain us vs where uv: "old1 = us @ vs" "subseq us new" "subseq vs old" "old1 = as1 \<longrightarrow> vs = old"
  proof (cases "old1 = as1")
    case True
    then show ?thesis using that [of new old] n(1) by simp
  next
    case False
    then show ?thesis using that n1(3) by (auto simp: subseq_append_iff)
  qed
  have o: "x \<notin> set as \<Longrightarrow> x \<in> dom (te_heap el) \<Longrightarrow> x \<in> dom (te_heap el1) \<and> x \<notin> set as1" for x
    using 1 n by (auto simp: te_step_def)
  have new: "x \<in> set as" if "x \<in> set (new1 @ us)" "x \<in> dom (te_heap el)" for x
  proof (rule ccontr)
    assume "x \<notin> set as"
    then have "x \<in> dom (te_heap el1)" "x \<notin> set as1" using o that(2) by auto
    then show False using that(1) n1(2) uv(2) n(1) by (auto dest!: subseq_subset)
  qed
  have refs: "a \<in> set vs \<and> refs a el2 = refs a el" if "a \<in> set as" "0 < refs a el" for a
  proof -
    have a: "a \<in> set old" "refs a el1 = refs a el" using 1 that by (auto simp: te_step_def)
    then have "a \<in> set old1" "refs a el2 = refs a el1" using 2 that(2) n(1) by (auto simp: te_step_def)
    then show ?thesis using a uv(1,2) n(1) d by (auto dest!: subseq_subset)
  qed
  have "te_step vs el as el2 as2"
    using 1 2 uv n1(1) new refs o by (auto simp: te_step_def intro: subseq_order.trans)
  then show ?thesis using uv by blast
qed

lemma ae_rely_refl [simp]: "ae_rely el as el as"
  by (auto simp: ae_rely_def intro: te_step_refl)

lemma ae_keep_rely: "ae_keep el as el' as' \<Longrightarrow> ae_rely el as el' as'"
  by (auto simp: ae_rely_def ae_keep_def)

lemma ae_inv_distinct: "ae_inv el as \<Longrightarrow> distinct as"
  by (simp add: ae_inv_def ae_timers_def)

lemma ae_rely_trans:
  "ae_rely el as el1 as1 \<Longrightarrow> ae_inv el1 as1 \<Longrightarrow> ae_rely el1 as1 el2 as2 \<Longrightarrow> ae_rely el as el2 as2"
  unfolding ae_rely_def by (meson ae_inv_distinct files_step_trans te_step_trans)

lemma ae_keep_trans:
  "ae_keep el as el1 as1 \<Longrightarrow> ae_inv el1 as1 \<Longrightarrow> ae_keep el1 as1 el2 as2 \<Longrightarrow> ae_keep el as el2 as2"
  unfolding ae_keep_def by (metis ae_inv_distinct files_step_trans te_step_trans)

text \<open>The state outside the loop does not matter.\<close>

lemma world_irrelevant [simp]:
  "ae_inv (el\<lparr>world := w\<rparr>) as = ae_inv el as"
  "ae_rely el0 as0 (el\<lparr>world := w\<rparr>) as = ae_rely el0 as0 el as"
  "ae_keep el0 as0 (el\<lparr>world := w\<rparr>) as = ae_keep el0 as0 el as"
  "ae_rely (el\<lparr>world := w\<rparr>) as el0 as0 = ae_rely el as el0 as0"
  "ae_keep (el\<lparr>world := w\<rparr>) as el0 as0 = ae_keep el as el0 as0"
  by (simp_all add: ae_inv_def ae_files_def ae_timers_def ae_rely_def ae_keep_def files_step_def te_step_def
      valid_fired_def in_events_def refs_def)

text \<open>Changes of the timers leave the files alone.\<close>

lemma te_irrelevant [simp]:
  "ae_files (el\<lparr>te_heap := h, timeEventHead := q\<rparr>) = ae_files el" "ae_files (el\<lparr>te_heap := h\<rparr>) = ae_files el"
  "files_step el0 (el\<lparr>te_heap := h, timeEventHead := q\<rparr>) = files_step el0 el" "files_step el0 (el\<lparr>te_heap := h\<rparr>) = files_step el0 el"
  "files_step (el\<lparr>te_heap := h, timeEventHead := q\<rparr>) el0 = files_step el el0" "files_step (el\<lparr>te_heap := h\<rparr>) el0 = files_step el el0"
  by (simp_all add: ae_files_def files_step_def valid_fired_def in_events_def)

section \<open>A due timer\<close>

text \<open>Writing the fields of a node other than its links.\<close>

lemma te_ids_cong:
  "te_ids h as n \<Longrightarrow> (\<And>a t'. a \<in> set as \<Longrightarrow> h' a = Some t' \<Longrightarrow> \<exists>t. h a = Some t \<and> (te_id t' = te_id t \<or> te_id t' = AE_DELETED_EVENT_ID)) \<Longrightarrow>
   n \<le> n' \<Longrightarrow> te_ids h' as n'"
  unfolding te_ids_def by (smt (verit, best))

lemma te_ids_subset: "te_ids h as n \<Longrightarrow> set bs \<subseteq> set as \<Longrightarrow> te_ids h bs n"
  unfolding te_ids_def by blast

lemma ae_timers_upd:
  assumes "ae_timers el as" "te_heap el a = Some t" "te_prev t' = te_prev t" "te_next t' = te_next t"
    "te_id t' = te_id t \<or> te_id t' = AE_DELETED_EVENT_ID"
  shows "ae_timers (el\<lparr>te_heap := (te_heap el)(a \<mapsto> t')\<rparr>) as"
proof -
  have "te_ids ((te_heap el)(a \<mapsto> t')) as (timeEventNextId el)"
    by (rule te_ids_cong [of "te_heap el" as "timeEventNextId el"]) (use assms in \<open>auto simp: ae_timers_def split: if_splits\<close>)
  moreover have "te_seg ((te_heap el)(a \<mapsto> t')) None (timeEventHead el) None as"
    using dseg_upd [of te_prev te_next "te_heap el" _ _ _ as a t t'] assms by (simp add: ae_timers_def)
  ultimately show ?thesis using assms(1) by (simp add: ae_timers_def)
qed

lemma subseq_split:
  assumes "subseq old (xs @ a # ys)" "distinct (xs @ a # ys)" "a \<in> set old"
  obtains us vs where "old = us @ a # vs" "subseq us xs" "subseq vs ys"
proof -
  obtain us ws where w: "old = us @ ws" "subseq us xs" "subseq ws (a # ys)" using assms(1) by (auto simp: subseq_append_iff)
  have "a \<notin> set us" using w(2) assms(2) by (auto dest: subseq_subset)
  then have "a \<in> set ws" using assms(3) w(1) by simp
  then obtain vs where "ws = a # vs" "subseq vs ys"
  proof (cases ws)
    case (Cons b vs)
    show ?thesis
    proof (cases "a = b")
      case True
      then show ?thesis using that Cons w(3) by simp
    next
      case False
      then have "subseq ws ys" using w(3) Cons by simp
      then show ?thesis using \<open>a \<in> set ws\<close> assms(2) by (auto dest: subseq_subset)
    qed
  qed simp
  then show ?thesis using that w by simp
qed

lemma core_None: "map_option te_core x = map_option te_core y \<Longrightarrow> x = None \<longleftrightarrow> y = None"
  by (cases x; cases y) auto

lemma core_dom:
  assumes "\<And>x. map_option te_core (h' x) = map_option te_core (h x)"
  shows "dom h' = dom h"
  by (rule set_eqI) (simp only: domIff core_None [OF assms])

lemma unlink_ok:
  assumes "ae_inv el (xs @ a # ys)" "te_heap el a = Some t"
  shows "\<exists>el'. unlink_te t el = Inr el' \<and> ae_inv el' (xs @ ys) \<and> te_heap el' a = Some t \<and> files_step el el' \<and>
    (\<forall>x. map_option te_core (te_heap el' x) = map_option te_core (te_heap el x)) \<and> timeEventNextId el' = timeEventNextId el"
proof -
  let ?as = "xs @ a # ys"
  have t: "te_seg (te_heap el) None (timeEventHead el) None ?as" "distinct ?as" using assms(1) by (simp_all add: ae_inv_def ae_timers_def)
  obtain h1 h2 where h: "te_upd (te_prev t) (\<lambda>n. n\<lparr>te_next := te_next t\<rparr>) (te_heap el) = Inr h1"
    "te_upd (te_next t) (\<lambda>n. n\<lparr>te_prev := te_prev t\<rparr>) h1 = Inr h2"
    "te_seg h2 None (if te_prev t = None then te_next t else timeEventHead el) None (xs @ ys)"
    "\<And>x. map_option te_core (h2 x) = map_option te_core (te_heap el x)" "h2 a = Some t"
    using te_unlink [OF t assms(2)] by blast
  define el' where "el' = el\<lparr>te_heap := h2, timeEventHead := (if te_prev t = None then te_next t else timeEventHead el)\<rparr>"
  have "unlink_te t el = Inr el'" using h(1,2) by (simp add: unlink_te_def el'_def)
  moreover have "ae_inv el' (xs @ ys)"
  proof -
    have d: "dom h2 = dom (te_heap el)" by (rule core_dom) (rule h(4))
    have "te_ids h2 (xs @ ys) (timeEventNextId el)"
    proof (rule te_ids_cong [of "te_heap el" _ "timeEventNextId el"])
      show "te_ids (te_heap el) (xs @ ys) (timeEventNextId el)"
        by (rule te_ids_subset [of _ ?as]) (use assms(1) in \<open>auto simp: ae_inv_def ae_timers_def\<close>)
      show "\<exists>t. te_heap el b = Some t \<and> (te_id t' = te_id t \<or> te_id t' = AE_DELETED_EVENT_ID)" if "h2 b = Some t'" for b t'
        using h(4) [of b] that by (cases "te_heap el b") (auto dest: te_core_fields)
    qed simp
    then show ?thesis using assms(1) h(3) d unfolding el'_def ae_inv_def by (simp add: ae_timers_def)
  qed
  ultimately show ?thesis using h(4,5) by (auto simp: el'_def)
qed

locale ae_callbacks =
  fixes E :: "('p, 'd, 'w) ae_env"
  assumes time_ok: "ae_inv el as \<Longrightarrow> run_time E p i d el = (r, el') \<Longrightarrow> \<exists>as'. ae_inv el' as' \<and> ae_rely el as el' as'"
    and fin_ok: "ae_inv el as \<Longrightarrow> \<exists>as'. ae_inv (run_fin E p d el) as' \<and> ae_keep el as (run_fin E p d el) as'"
    and file_ok: "ae_inv el as \<Longrightarrow> \<exists>as'. ae_inv (run_file E p fd cd m el) as' \<and> ae_rely el as (run_file E p fd cd m el) as'"
    and before_ok: "ae_inv el as \<Longrightarrow> \<exists>as'. ae_inv (run_before E p el) as' \<and> ae_rely el as (run_before E p el) as'"
    and after_ok: "ae_inv el as \<Longrightarrow> \<exists>as'. ae_inv (run_after E p n el) as' \<and> ae_rely el as (run_after E p n el) as'"
    and poll_ok: "ae_inv el as \<Longrightarrow> run_poll E p el = (n, el') \<Longrightarrow>
      \<exists>as'. ae_inv el' as' \<and> ae_rely el as el' as' \<and> (\<forall>j < nat n. valid_fired el' j)"
    and host_ok: "length (poll_host E w interest cap) \<le> length interest" "fst ` set (poll_host E w interest cap) \<subseteq> fst ` set interest"
begin

lemma fire_te_ok:
  assumes "ae_inv el (xs @ a # ys)" "te_heap el a = Some t"
  shows "\<exists>now el' xs' ys'. fire_te E a t el = Inr (now, el') \<and> ae_inv el' (xs' @ a # ys') \<and> length ys' \<le> length ys
    \<and> ae_rely el (xs @ a # ys) el' (xs' @ a # ys')"
proof -
  let ?as = "xs @ a # ys"
  define el1 where "el1 = el\<lparr>te_heap := (te_heap el)(a \<mapsto> t\<lparr>te_refcount := te_refcount t + 1\<rparr>)\<rparr>"
  obtain r el2 where r: "run_time E (timeProc t) (te_id t) (te_clientData t) el1 = (r, el2)" by fastforce
  have i1: "ae_inv el1 ?as" using assms ae_timers_upd [OF _ assms(2)] unfolding el1_def ae_inv_def by auto
  obtain as2 old where s: "ae_inv el2 as2" "files_step el1 el2" "te_step old el1 ?as el2 as2"
    using time_ok [OF i1 r] by (auto simp: ae_rely_def)
  have refs: "refs a el1 = te_refcount t + 1" "\<And>b. b \<noteq> a \<Longrightarrow> refs b el1 = refs b el" "refs a el = te_refcount t"
    using assms(2) by (simp_all add: el1_def refs_def)
  have a: "a \<in> set old" "refs a el2 = te_refcount t + 1" using s(3) refs by (auto simp: te_step_def)
  then obtain t2 where t2: "te_heap el2 a = Some t2" "te_refcount t2 = te_refcount t + 1"
    by (auto simp: refs_def split: option.splits)
  have "subseq old ?as" using s(3) by (simp add: te_step_def)
  then obtain us vs where uv: "old = us @ a # vs" "subseq vs ys"
    using subseq_split [OF _ ae_inv_distinct [OF assms(1)] a(1)] by blast
  then obtain new where o: "subseq vs ys" "as2 = new @ us @ a # vs" using s(3) by (auto simp: te_step_def)
  obtain now w where m: "monotonic E (world el2) = (now, w)" by fastforce
  define t3 where "t3 = (let u = t2\<lparr>te_refcount := te_refcount t2 - 1\<rparr> in
    if r \<noteq> AE_NOMORE then u\<lparr>te_when := now + of_int r * 1000\<rparr> else u\<lparr>te_id := AE_DELETED_EVENT_ID\<rparr>)"
  define el3 where "el3 = el2\<lparr>te_heap := (te_heap el2)(a \<mapsto> t3)\<rparr>"
  have t3: "te_prev t3 = te_prev t2" "te_next t3 = te_next t2" "te_id t3 = te_id t2 \<or> te_id t3 = AE_DELETED_EVENT_ID"
    "te_refcount t3 = te_refcount t" using t2(2) by (auto simp: t3_def Let_def)
  have "fire_te E a t el = Inr (now, el3\<lparr>world := w\<rparr>)"
    unfolding fire_te_def Let_def el1_def [symmetric] r prod.case te_get_Some [of "te_heap el2", OF t2(1)]
    using m by (simp add: getMonotonicUs_def t3_def el3_def Let_def)
  moreover have "ae_inv el3 as2" using s(1) ae_timers_upd [OF _ t2(1) t3(1,2,3)] by (simp add: ae_inv_def el3_def)
  moreover have "te_step old el ?as el3 as2"
  proof -
    have "refs a el3 = refs a el" "\<And>b. b \<noteq> a \<Longrightarrow> refs b el3 = refs b el2" using t3(4) refs by (simp_all add: el3_def refs_def)
    moreover have "dom (te_heap el1) = dom (te_heap el)" "dom (te_heap el3) = dom (te_heap el2)" using assms(2) t2(1) by (auto simp: el1_def el3_def)
    moreover have "timeEventNextId el1 = timeEventNextId el" "timeEventNextId el3 = timeEventNextId el2" by (simp_all add: el1_def el3_def)
    ultimately show ?thesis using s(3) refs a(1) unfolding te_step_def by metis
  qed
  moreover have "files_step el el3" using s(2) by (simp add: el1_def el3_def)
  ultimately have "fire_te E a t el = Inr (now, el3\<lparr>world := w\<rparr>)" "ae_inv el3 as2" "ae_rely el ?as el3 as2"
    by (auto simp: ae_rely_def)
  then have "fire_te E a t el = Inr (now, el3\<lparr>world := w\<rparr>) \<and> ae_inv (el3\<lparr>world := w\<rparr>) ((new @ us) @ a # vs) \<and> length vs \<le> length ys
    \<and> ae_rely el ?as (el3\<lparr>world := w\<rparr>) ((new @ us) @ a # vs)"
    using o list_emb_length [OF o(1)] by simp
  then show ?thesis by blast
qed

end

text \<open>Freeing a node that is not in the list.\<close>

lemma ae_inv_free:
  assumes "ae_inv el as" "a \<notin> set as"
  shows "ae_inv (el\<lparr>te_heap := (te_heap el)(a := None)\<rparr>) as"
proof -
  have "te_ids ((te_heap el)(a := None)) as (timeEventNextId el)"
    by (rule te_ids_cong [of "te_heap el" _ "timeEventNextId el"]) (use assms in \<open>auto simp: ae_inv_def ae_timers_def split: if_splits\<close>)
  then show ?thesis using assms by (auto simp: ae_inv_def ae_timers_def)
qed

lemma ae_inv_seg: "ae_inv el (xs @ ys) \<Longrightarrow> \<exists>q. te_seg (te_heap el) (last_of None xs) q None ys"
  by (auto simp: ae_inv_def ae_timers_def dseg_append)

context ae_callbacks
begin

lemma finalize_run:
  assumes "ae_inv el as"
  obtains now' el' new where "finalize_te E a t now el = (now', el'\<lparr>te_heap := (te_heap el')(a := None)\<rparr>)"
    "ae_inv el' (new @ as)" "ae_keep el as el' (new @ as)"
proof (cases "finalizerProc t")
  case None
  then have "finalize_te E a t now el = (now, el\<lparr>te_heap := (te_heap el)(a := None)\<rparr>)" by (simp add: finalize_te_def)
  then show ?thesis using that [of now el "[]"] assms by (simp add: ae_keep_def)
next
  case (Some f)
  let ?el = "run_fin E f (te_clientData t) el"
  obtain now' w where m: "monotonic E (world ?el) = (now', w)" by fastforce
  obtain as' where "ae_inv ?el as'" "ae_keep el as ?el as'" using fin_ok [OF assms] by blast
  moreover from this obtain new where "as' = new @ as" by (auto simp: ae_keep_def te_step_def)
  moreover have "finalize_te E a t now el = (now', (?el\<lparr>world := w\<rparr>)\<lparr>te_heap := (te_heap (?el\<lparr>world := w\<rparr>))(a := None)\<rparr>)"
    using Some m by (simp add: finalize_te_def getMonotonicUs_def)
  ultimately show ?thesis using that [of now' "?el\<lparr>world := w\<rparr>" new] by simp
qed

lemma finalize_ok:
  assumes "ae_inv el (xs @ a # ys)" "te_heap el a = Some t" "te_refcount t = 0" "unlink_te t el = Inr el1"
  shows "\<exists>now' el' new. finalize_te E a t now el1 = (now', el') \<and> ae_inv el' (new @ xs @ ys) \<and> ae_rely el (xs @ a # ys) el' (new @ xs @ ys)"
proof -
  let ?as = "xs @ a # ys"
  have 1: "ae_inv el1 (xs @ ys)" "te_heap el1 a = Some t" "files_step el el1" "timeEventNextId el1 = timeEventNextId el"
    "\<And>x. map_option te_core (te_heap el1 x) = map_option te_core (te_heap el x)"
    using unlink_ok [OF assms(1,2)] assms(4) by auto
  obtain now' el2 new where 2: "finalize_te E a t now el1 = (now', el2\<lparr>te_heap := (te_heap el2)(a := None)\<rparr>)"
    "ae_inv el2 (new @ xs @ ys)" "ae_keep el1 (xs @ ys) el2 (new @ xs @ ys)"
    using finalize_run [OF 1(1)] by blast
  let ?el = "el2\<lparr>te_heap := (te_heap el2)(a := None)\<rparr>"
  have d1: "dom (te_heap el1) = dom (te_heap el)" by (rule core_dom) (rule 1(5))
  have a: "a \<notin> set (xs @ ys)" using ae_inv_distinct [OF assms(1)] by simp
  have k: "te_step (xs @ ys) el1 (xs @ ys) el2 (new @ xs @ ys)" using 2(3) by (simp add: ae_keep_def)
  have new: "x \<in> set (xs @ ys)" if "x \<in> set new" "x \<in> dom (te_heap el1)" for x using k that by (auto simp: te_step_def)
  then have an: "a \<notin> set (new @ xs @ ys)" using a 1(2) by auto
  have r: "refs b ?el = refs b el" if "b \<in> set ?as" "0 < refs b el" for b
  proof -
    have b: "b \<noteq> a" using that assms(2,3) by (auto simp: refs_def)
    have "refs b el1 = refs b el" using 1(5) [of b] by (auto simp: refs_def split: option.splits dest: te_core_fields)
    then show ?thesis using k that b by (auto simp: te_step_def refs_def)
  qed
  have "te_step (xs @ ys) el ?as ?el (new @ xs @ ys)"
    unfolding te_step_def
  proof (intro conjI ballI impI)
    show "subseq (xs @ ys) ?as" by (rule list_emb_append_mono) auto
    show "\<exists>n. new @ xs @ ys = n @ xs @ ys \<and> (\<forall>x \<in> set n. x \<in> dom (te_heap el) \<longrightarrow> x \<in> set ?as)" using new d1 by auto
    show "b \<in> set (xs @ ys)" if "b \<in> set ?as" "0 < refs b el" for b using that assms(2,3) by (auto simp: refs_def)
    show "x \<in> dom (te_heap ?el)" if "x \<in> dom (te_heap el)" "x \<notin> set ?as" for x using that k d1 by (auto simp: te_step_def)
    show "timeEventNextId el \<le> timeEventNextId ?el" using k 1(4) by (simp add: te_step_def)
  qed (use r in auto)
  moreover have "files_step el ?el" using 1(3) 2(3) files_step_trans by (auto simp: ae_keep_def)
  ultimately have "ae_rely el ?as ?el (new @ xs @ ys)" by (auto simp: ae_rely_def)
  then show ?thesis using 2(1) ae_inv_free [OF 2(2) an] by blast
qed

lemma processTime_ok:
  assumes "ae_inv el (xs @ as)" "te_seg (te_heap el) (last_of None xs) q None as" "length as \<le> fuel"
  shows "\<exists>n el' as'. processTime_loop E fuel q maxId now k el = Inr (n, el') \<and> ae_inv el' as' \<and> ae_rely el (xs @ as) el' as'"
  using assms
proof (induction fuel arbitrary: xs as q now k el)
  case 0
  then show ?case by auto
next
  case (Suc fuel)
  show ?case
  proof (cases as)
    case Nil
    then show ?thesis using Suc.prems by auto
  next
    case (Cons a ys)
    obtain t where t: "q = Some a" "te_heap el a = Some t" "te_seg (te_heap el) (Some a) (te_next t) None ys"
      using Suc.prems(2) Cons by (auto split: option.splits)
    have inv: "ae_inv el (xs @ a # ys)" using Suc.prems(1) Cons by simp
    have skip: "\<exists>n el' as'. processTime_loop E fuel (te_next t) maxId now k el = Inr (n, el') \<and> ae_inv el' as' \<and> ae_rely el (xs @ as) el' as'"
      using Suc.IH [of el "xs @ [a]" ys "te_next t" now k] inv t(3) Suc.prems(3) Cons by simp
    consider (free) "te_id t = AE_DELETED_EVENT_ID" "te_refcount t = 0"
      | (due) "te_id t \<noteq> AE_DELETED_EVENT_ID" "\<not> te_id t > maxId" "te_when t \<le> now"
      | (skip) "te_id t = AE_DELETED_EVENT_ID \<and> te_refcount t \<noteq> 0 \<or> te_id t \<noteq> AE_DELETED_EVENT_ID \<and> (te_id t > maxId \<or> \<not> te_when t \<le> now)"
      by blast
    then show ?thesis
    proof cases
      case free
      obtain el1 where u: "unlink_te t el = Inr el1" using unlink_ok [OF inv t(2)] by blast
      obtain now' el2 new where f: "finalize_te E a t now el1 = (now', el2)" "ae_inv el2 (new @ xs @ ys)" "ae_rely el (xs @ as) el2 (new @ xs @ ys)"
        using finalize_ok [OF inv t(2) free(2) u, of now] unfolding Cons by blast
      have f: "finalize_te E a t now el1 = (now', el2)" "ae_inv el2 ((new @ xs) @ ys)" "ae_rely el (xs @ as) el2 ((new @ xs) @ ys)"
        using f by simp_all
      have q: "te_seg (te_heap el2) (last_of None (new @ xs)) (te_next t) None ys"
        using ae_inv_seg [OF f(2)] dseg_start [OF t(3)] by blast
      have "processTime_loop E (Suc fuel) q maxId now k el = processTime_loop E fuel (te_next t) maxId now' k el2"
        using free t u f(1) by (simp add: te_get_Some)
      then show ?thesis using Suc.IH [OF f(2) q] Suc.prems(3) Cons ae_rely_trans [OF f(3,2)] by fastforce
    next
      case due
      obtain now' el2 xs' ys' where f: "fire_te E a t el = Inr (now', el2)" "ae_inv el2 (xs' @ a # ys')" "length ys' \<le> length ys"
        "ae_rely el (xs @ as) el2 (xs' @ a # ys')" using fire_te_ok [OF inv t(2)] Cons by blast
      obtain t' where t': "te_heap el2 a = Some t'" "te_seg (te_heap el2) (Some a) (te_next t') None ys'"
        using ae_inv_seg [OF f(2)] by (auto split: option.splits)
      have "processTime_loop E (Suc fuel) q maxId now k el = processTime_loop E fuel (te_next t') maxId now' (k + 1) el2"
        using due t t' f(1) by (simp add: te_get_Some)
      then show ?thesis using Suc.IH [of el2 "xs' @ [a]" ys' "te_next t'"] f t' Suc.prems(3) Cons ae_rely_trans [OF f(4,2)] by fastforce
    next
      case skip
      have "processTime_loop E (Suc fuel) q maxId now k el = processTime_loop E fuel (te_next t) maxId now k el"
        using skip t by (auto simp: te_get_Some)
      then show ?thesis using \<open>\<exists>n. _\<close> by simp
    qed
  qed
qed

end

end
