(* ===== verification/Ae_Safety.thy ===== *)
theory Ae_Safety
  imports Ae_Timers
begin

text \<open>
  One pass of the event loop under the contract \<open>ae_callbacks\<close>: polling, the dispatch of the fired
  events and the timers return without error and keep the invariant.  Every call of the interface
  a program uses (registering and deleting events and timers, growing the set) keeps it too, and
  stays within what a callback may do.
\<close>

text \<open>A good state after a step from \<open>el\<close>.\<close>

definition ae_post :: "('p, 'd, 'w) aeEventLoop \<Rightarrow> nat list \<Rightarrow> ('p, 'd, 'w) aeEventLoop \<Rightarrow> bool" where
  "ae_post el as el' \<longleftrightarrow> (\<exists>as'. ae_inv el' as' \<and> ae_rely el as el' as')"

lemma ae_post_refl [simp]: "ae_inv el as \<Longrightarrow> ae_post el as el"
  by (auto simp: ae_post_def intro: ae_rely_refl)

lemma ae_post_trans: "ae_post el as el1 \<Longrightarrow> (\<And>as1. ae_inv el1 as1 \<Longrightarrow> ae_post el1 as1 el2) \<Longrightarrow> ae_post el as el2"
  unfolding ae_post_def using ae_rely_trans by blast

lemma ae_post_step:
  assumes "ae_post el as el1" "\<And>as1. ae_inv el1 as1 \<Longrightarrow> ensures r (\<lambda>x. ae_post el1 as1 (f x))"
  shows "ensures r (\<lambda>x. ae_post el as (f x))"
proof -
  obtain as1 where 1: "ae_inv el1 as1" "ae_rely el as el1 as1" using assms(1) by (auto simp: ae_post_def)
  show ?thesis
    by (rule ensures_mono [OF assms(2) [OF 1(1)]]) (use ae_rely_trans [OF 1(2,1)] in \<open>auto simp: ae_post_def\<close>)
qed

lemma ae_post_world [simp]: "ae_post el as (el'\<lparr>world := w\<rparr>) = ae_post el as el'"
  by (simp add: ae_post_def)

lemma ae_post_inv: "ae_post el as el' \<Longrightarrow> \<exists>as'. ae_inv el' as'"
  by (auto simp: ae_post_def)

lemma ae_post_events: "ae_post el as el' \<Longrightarrow> in_events fd el \<Longrightarrow> in_events fd el'"
  by (auto simp: ae_post_def ae_rely_def files_step_def in_events_def)

lemma ae_post_fired: "ae_post el as el' \<Longrightarrow> valid_fired el j \<Longrightarrow> valid_fired el' j"
  by (auto simp: ae_post_def ae_rely_def files_step_def)

lemma and_sub: "a AND m AND w \<noteq> 0 \<Longrightarrow> a AND w \<noteq> 0" for a m w :: mask
  by (metis and.left_commute and_zero_eq)

lemma get_fe_ok: "in_events fd el \<Longrightarrow> get_fe fd el = Inr (events el ! nat fd)"
  by (simp add: get_fe_def)

lemma fe_okD:
  "ae_inv el as \<Longrightarrow> in_events fd el \<Longrightarrow> fe_mask (events el ! nat fd) AND m AND AE_READABLE \<noteq> 0 \<Longrightarrow> \<exists>p. rfileProc (events el ! nat fd) = Some p"
  "ae_inv el as \<Longrightarrow> in_events fd el \<Longrightarrow> fe_mask (events el ! nat fd) AND m AND AE_WRITABLE \<noteq> 0 \<Longrightarrow> \<exists>p. wfileProc (events el ! nat fd) = Some p"
  using and_sub by (fastforce simp: ae_inv_def ae_files_def in_events_def fe_ok_def)+

context ae_callbacks
begin

lemma processTimeEvents_ok: "ae_inv el as \<Longrightarrow> ensures (processTimeEvents E el) (\<lambda>(n, el'). ae_post el as el')"
proof -
  assume inv: "ae_inv el as"
  obtain now w where m: "monotonic E (world el) = (now, w)" by fastforce
  have "ae_inv (el\<lparr>world := w\<rparr>) ([] @ as)" "te_seg (te_heap (el\<lparr>world := w\<rparr>)) (last_of None []) (timeEventHead el) None as" "length as \<le> te_fuel el"
    using inv by (auto simp: ae_inv_def ae_files_def ae_timers_def te_fuel_def)
  from processTime_ok [OF this, of "timeEventNextId el - 1" now 0] show ?thesis
    using m by (auto simp: processTimeEvents_def getMonotonicUs_def ensures_def ae_post_def)
qed

lemma fire_ok:
  assumes "ae_inv el as" "in_events fd el"
  shows "fe_mask (events el ! nat fd) AND m AND AE_READABLE \<noteq> 0 \<Longrightarrow> ensures (fire_read E fd m el) (ae_post el as)"
    and "fe_mask (events el ! nat fd) AND m AND AE_WRITABLE \<noteq> 0 \<Longrightarrow> ensures (fire_write E fd m el) (ae_post el as)"
  using fe_okD [OF assms] file_ok [OF assms(1)] assms(2)
  by (fastforce simp: fire_read_def fire_write_def get_fe_ok call_file_def ae_post_def)+

lemma fire_post:
  assumes "ae_post el as el1" "in_events fd el1"
  shows "fe_mask (events el1 ! nat fd) AND m AND AE_READABLE \<noteq> 0 \<Longrightarrow> ensures (fire_read E fd m el1) (ae_post el as)"
    and "fe_mask (events el1 ! nat fd) AND m AND AE_WRITABLE \<noteq> 0 \<Longrightarrow> ensures (fire_write E fd m el1) (ae_post el as)"
  using ae_post_step [OF assms(1), of "fire_read E fd m el1" "\<lambda>x. x"] fire_ok(1) [OF _ assms(2)] apply simp
  using ae_post_step [OF assms(1), of "fire_write E fd m el1" "\<lambda>x. x"] fire_ok(2) [OF _ assms(2)] by simp

lemma dispatch_ok:
  assumes "ae_inv el as" "in_events fd el"
  shows "ensures (dispatch E fd m el) (ae_post el as)"
proof -
  let ?Q = "\<lambda>(d :: bool, el1). ae_post el as el1"
  have e: "in_events fd el1" if "ae_post el as el1" for el1 using ae_post_events [OF that assms(2)] .
  have mark: "ensures (rbind r (\<lambda>el. Inr (True, el))) ?Q" if "ensures r (ae_post el as)" for r
    by (rule ensures_bind [OF that]) simp
  have r1: "ensures (read_first E inv fd m el) ?Q" for inv
    using fire_post(1) [OF ae_post_refl [OF assms(1)] assms(2), of m] assms by (auto simp: read_first_def get_fe_ok intro!: mark)
  have r2: "ensures (write_next E fd m n el1) ?Q" if "ae_post el as el1" for n el1
    using fire_post(2) [OF that e [OF that], of m] that e [OF that] by (auto simp: write_next_def get_fe_ok intro!: mark)
  have r3: "ensures (read_last E inv fd m n el1) (ae_post el as)" if "ae_post el as el1" for inv n el1
    using fire_post(1) [OF that e [OF that], of m] that e [OF that] by (auto simp: read_last_def get_fe_ok)
  show ?thesis
    unfolding dispatch_def get_fe_ok [OF assms(2)] rbind_simps Let_def
    by (rule ensures_bind [OF r1], clarify, rule ensures_bind [OF r2], assumption, clarify, rule r3)
qed

end

lemma ae_inv_fired:
  assumes "ae_inv el as" "length r \<le> length (fired el)"
  shows "ae_inv (el\<lparr>fired := map Some r @ drop (length r) (fired el)\<rparr>) as"
  using assms by (simp add: ae_inv_def ae_files_def ae_timers_def)

lemma interest_bound: "ae_inv el as \<Longrightarrow> length (ae_interest el) \<le> length (events el)"
  unfolding ae_interest_def length_map
  by (rule order_trans [OF length_filter_le]) (auto simp: ae_inv_def ae_files_def is_maxfd_def)

lemma interest_events: "ae_inv el as \<Longrightarrow> fd \<in> fst ` set (ae_interest el) \<Longrightarrow> in_events fd el"
  by (auto simp: ae_interest_def in_events_def ae_inv_def ae_files_def is_maxfd_def)

lemma ae_post_after: "ae_rely el as el1 as1 \<Longrightarrow> ae_inv el1 as1 \<Longrightarrow> ae_post el1 as1 el2 \<Longrightarrow> ae_post el as el2"
  unfolding ae_post_def using ae_rely_trans by blast

context ae_callbacks
begin

lemma aeApiPoll_ok:
  assumes "ae_inv el as"
  shows "ensures (aeApiPoll E el) (\<lambda>(n, el'). ae_post el as el' \<and> (\<forall>j < n. valid_fired el' j))"
proof -
  define r where "r = poll_host E (world el) (ae_interest el) (nat (ae_cap el))"
  have r: "length r \<le> length (fired el)" "\<And>fd m. (fd, m) \<in> set r \<Longrightarrow> in_events fd el"
    using host_ok [of "world el" "ae_interest el" "nat (ae_cap el)"] interest_bound [OF assms] interest_events [OF assms] assms
    by (auto simp: r_def ae_inv_def ae_files_def) (metis fst_conv imageI in_mono)
  let ?el = "el\<lparr>fired := map Some r @ drop (length r) (fired el)\<rparr>"
  have v: "valid_fired ?el j" if "j < length r" for j
    using that r nth_mem [OF that] by (cases "r ! j") (auto simp: valid_fired_def in_events_def nth_append)
  have "valid_fired ?el j" if "valid_fired el j" for j
    using that v [of j] r(1) by (cases "j < length r") (auto simp: valid_fired_def in_events_def nth_append)
  moreover have "te_step as el as ?el as" by (simp add: te_step_def refs_def)
  ultimately have "ae_rely el as ?el as" by (auto simp: ae_rely_def files_step_def)
  then have p: "ae_post el as ?el" using ae_inv_fired [OF assms r(1)] by (auto simp: ae_post_def)
  have "maxfd el < int (length (events el))" "int (length (ae_interest el)) \<le> ae_cap el"
    using assms interest_bound [OF assms] by (auto simp: ae_inv_def ae_files_def is_maxfd_def)
  then show ?thesis using p v r(1) assms unfolding aeApiPoll_def Let_def r_def [symmetric] by auto
qed

lemma fired_loop_ok:
  assumes "ae_post el as el1" "\<And>j. i \<le> j \<Longrightarrow> j < i + n \<Longrightarrow> valid_fired el1 j"
  shows "ensures (fired_loop E i n el1) (ae_post el as)"
  using assms
proof (induction n arbitrary: i el1)
  case (Suc n)
  obtain fd m where f: "fired el1 ! i = Some (fd, m)" "i < length (fired el1)" "in_events fd el1"
    using Suc.prems(2) [of i] by (auto simp: valid_fired_def)
  have g: "get_fired i el1 = Inr (fd, m)" using f by (simp add: get_fired_def)
  have "ensures (dispatch E fd m el1) (\<lambda>el2. ae_post el as el2 \<and> (\<forall>j. valid_fired el1 j \<longrightarrow> valid_fired el2 j))"
  proof -
    obtain as1 where 1: "ae_inv el1 as1" "ae_rely el as el1 as1" using Suc.prems(1) by (auto simp: ae_post_def)
    show ?thesis
      by (rule ensures_mono [OF dispatch_ok [OF 1(1) f(3)]])
        (use ae_post_after [OF 1(2,1)] ae_post_fired in blast)
  qed
  then have "ensures (rbind (dispatch E fd m el1) (\<lambda>el. fired_loop E (Suc i) n el)) (ae_post el as)"
    by (rule ensures_bind) (use Suc in auto)
  then show ?case by (simp add: g)
qed simp

lemma call_hooks_ok: "ae_inv el as \<Longrightarrow> ae_post el as (call_before E flags el)" "ae_inv el as \<Longrightarrow> ae_post el as (call_after E flags n el)"
  using before_ok after_ok by (auto simp: call_before_def call_after_def ae_post_def split: option.splits intro: ae_rely_refl)

lemma do_poll_ok:
  assumes "ae_inv el as" "flags AND AE_DONT_WAIT \<noteq> 0"
  shows "ensures (do_poll E flags el) (\<lambda>(n, el'). ae_post el as el' \<and> (\<forall>j < nat n. valid_fired el' j))"
proof (cases "custompoll el")
  case None
  have "ensures (rbind (aeApiPoll E el) (\<lambda>(n, el). Inr (int n, el))) (\<lambda>(n, el'). ae_post el as el' \<and> (\<forall>j < nat n. valid_fired el' j))"
    by (rule ensures_bind [OF aeApiPoll_ok [OF assms(1)]]) auto
  then show ?thesis using None assms(2) by (simp add: do_poll_def)
next
  case (Some p)
  obtain n el' where r: "run_poll E p el = (n, el')" by fastforce
  then show ?thesis using Some poll_ok [OF assms(1) r] by (auto simp: do_poll_def ae_post_def)
qed

lemma aeProcessEvents_ok:
  assumes "ae_inv el as" "flags AND AE_DONT_WAIT \<noteq> 0"
  shows "ensures (aeProcessEvents E flags el) (\<lambda>(n, el'). ae_post el as el')"
proof -
  let ?P = "\<lambda>(n :: nat, el'). ae_post el as el'"
  let ?files = "rbind (do_poll E flags (call_before E flags el)) (\<lambda>(numevents, el).
             let numevents = (if flags AND AE_FILE_EVENTS = 0 then 0 else numevents);
                 el = call_after E flags numevents el
             in rbind (fired_loop E 0 (nat numevents) el) (\<lambda>el. Inr (nat numevents, el)))"
  obtain as1 where 1: "ae_inv (call_before E flags el) as1" "ae_rely el as (call_before E flags el) as1"
    using call_hooks_ok(1) [OF assms(1), of flags] by (auto simp: ae_post_def)
  have "ensures (do_poll E flags (call_before E flags el)) (\<lambda>(n, el'). ae_post el as el' \<and> (\<forall>j < nat n. valid_fired el' j))"
    by (rule ensures_mono [OF do_poll_ok [OF 1(1) assms(2)]]) (use ae_post_after [OF 1(2,1)] in auto)
  then have files: "ensures ?files ?P"
  proof (rule ensures_bind, clarify)
    fix n el2
    assume 2: "ae_post el as el2" "\<forall>j < nat n. valid_fired el2 j"
    let ?n = "if flags AND AE_FILE_EVENTS = 0 then 0 else n" and ?el = "call_after E flags (if flags AND AE_FILE_EVENTS = 0 then 0 else n) el2"
    obtain as2 where i2: "ae_inv el2 as2" "ae_rely el as el2 as2" using 2(1) by (auto simp: ae_post_def)
    have p: "ae_post el2 as2 ?el" by (rule call_hooks_ok [OF i2(1)])
    then have "ae_post el as ?el" by (rule ae_post_after [OF i2(2,1)])
    then have "ensures (fired_loop E 0 (nat ?n) ?el) (ae_post el as)"
      by (rule fired_loop_ok) (use 2(2) ae_post_fired [OF p] in \<open>auto split: if_splits\<close>)
    then show "ensures (let numevents = ?n; el = call_after E flags numevents el2
             in rbind (fired_loop E 0 (nat numevents) el) (\<lambda>el. Inr (nat numevents, el))) ?P"
      unfolding Let_def by (rule ensures_bind) simp
  qed
  have times: "ensures (rbind (processTimeEvents E el1) (\<lambda>(n, el). Inr (k + n, el))) ?P" if "ae_post el as el1" for k el1
  proof -
    have "ensures (processTimeEvents E el1) (\<lambda>x. ae_post el as (snd x))"
      by (rule ae_post_step [OF that]) (use processTimeEvents_ok in \<open>auto simp: case_prod_unfold\<close>)
    then show ?thesis by (rule ensures_bind) auto
  qed
  show ?thesis
    unfolding aeProcessEvents_def
    by (intro ensures_if ensures_bind [where Q = ?P]) (use files times assms in auto)
qed

end

section \<open>The calls a program makes\<close>

lemma ae_inv_create: "0 \<le> n \<Longrightarrow> ae_inv (aeCreateEventLoop n cap w) []"
  by (auto simp: ae_inv_def ae_files_def ae_timers_def aeCreateEventLoop_def aeApiResize_def is_maxfd_def fe_uninit_def fe_ok_def te_ids_def)

lemma te_step_same: "te_heap el' = te_heap el \<Longrightarrow> timeEventNextId el' = timeEventNextId el \<Longrightarrow> te_step as el as el' as"
  by (simp add: te_step_def refs_def)

lemma ae_timers_same:
  "te_heap el' = te_heap el \<Longrightarrow> timeEventNextId el' = timeEventNextId el \<Longrightarrow> timeEventHead el' = timeEventHead el \<Longrightarrow> ae_timers el' as = ae_timers el as"
  by (simp add: ae_timers_def)

lemma last_fd_max: "j \<le> length evs \<Longrightarrow> (\<And>i. j \<le> i \<Longrightarrow> i < length evs \<Longrightarrow> fe_mask (evs ! i) = AE_NONE) \<Longrightarrow> is_maxfd (last_fd evs j) evs"
proof (induction j)
  case 0
  then show ?case by (auto simp: is_maxfd_def)
next
  case (Suc j)
  show ?case
  proof (cases "fe_mask (evs ! j) = AE_NONE")
    case True
    then have "is_maxfd (last_fd evs j) evs" using Suc by (metis Suc_leD le_antisym not_less_eq_eq)
    then show ?thesis using True by simp
  next
    case False
    have "i \<le> j" if "i < length evs" "fe_mask (evs ! i) \<noteq> AE_NONE" for i using Suc.prems(2) [of i] that by linarith
    then show ?thesis using False Suc.prems(1) by (auto simp: is_maxfd_def)
  qed
qed

lemma valid_fired_mono:
  "fired el' = fired el \<Longrightarrow> length (events el) \<le> length (events el') \<Longrightarrow> valid_fired el j \<Longrightarrow> valid_fired el' j"
  by (auto simp: valid_fired_def in_events_def)

text \<open>Replacing one slot and moving \<open>maxfd\<close>.\<close>

lemma ae_keep_slot:
  assumes "ae_inv el as" "in_events fd el" "fe_ok fe" "is_maxfd m ((events el)[nat fd := fe])"
  shows "ae_inv ((set_fe fd fe el)\<lparr>maxfd := m\<rparr>) as" and "ae_keep el as ((set_fe fd fe el)\<lparr>maxfd := m\<rparr>) as"
  using assms set_update_subset_insert [of "events el" "nat fd" fe]
  by (auto simp: ae_inv_def ae_files_def ae_timers_def ae_keep_def files_step_def set_fe_def valid_fired_def in_events_def intro: te_step_same)

lemma is_maxfd_set:
  assumes "is_maxfd m evs" "i < length evs" "fe_mask fe \<noteq> AE_NONE"
  shows "is_maxfd (if int i > m then int i else m) (evs[i := fe])"
  using assms by (fastforce simp: is_maxfd_def nth_list_update)

lemma or_nonzero: "m \<noteq> 0 \<Longrightarrow> a OR m \<noteq> 0" for a m :: mask
  by (metis or_eq_0_iff)

lemma or_and_bit: "(a OR m) AND AE_READABLE \<noteq> 0 \<longleftrightarrow> a AND AE_READABLE \<noteq> 0 \<or> m AND AE_READABLE \<noteq> 0"
  "(a OR m) AND AE_WRITABLE \<noteq> 0 \<longleftrightarrow> a AND AE_WRITABLE \<noteq> 0 \<or> m AND AE_WRITABLE \<noteq> 0" for a m :: mask
  by (simp_all add: mask_bits bit_or_iff)

lemma aeCreateFileEvent_keep:
  assumes "ae_inv el as" "0 \<le> fd" "m \<noteq> 0"
  shows "ensures (aeCreateFileEvent fd m p d el) (\<lambda>(r, el'). ae_inv el' as \<and> ae_keep el as el' as)"
proof (cases "fd \<ge> setsize el")
  case True
  then show ?thesis using assms by (simp add: aeCreateFileEvent_def ae_keep_def)
next
  case False
  then have i: "in_events fd el" using assms by (auto simp: in_events_def ae_inv_def ae_files_def)
  let ?fe = "events el ! nat fd"
  define fe where "fe = (let fe = ?fe\<lparr>fe_mask := fe_mask ?fe OR m\<rparr>;
            fe = (if m AND AE_READABLE \<noteq> 0 then fe\<lparr>rfileProc := Some p\<rparr> else fe);
            fe = (if m AND AE_WRITABLE \<noteq> 0 then fe\<lparr>wfileProc := Some p\<rparr> else fe)
        in fe\<lparr>fe_clientData := d\<rparr>)"
  have mask: "fe_mask fe = fe_mask ?fe OR m" by (simp add: fe_def Let_def)
  have "fe_ok ?fe" using assms(1) i by (auto simp: ae_inv_def ae_files_def in_events_def)
  then have ok: "fe_ok fe" unfolding fe_ok_def mask or_and_bit by (auto simp: fe_def Let_def)
  have mx: "is_maxfd (if fd > maxfd el then fd else maxfd el) ((events el)[nat fd := fe])"
    using is_maxfd_set [of "maxfd el" "events el" "nat fd" fe] assms i mask or_nonzero [of m] by (auto simp: ae_inv_def ae_files_def in_events_def)
  have "aeCreateFileEvent fd m p d el = Inr (AE_OK, (set_fe fd fe el)\<lparr>maxfd := (if fd > maxfd el then fd else maxfd el)\<rparr>)"
    using False unfolding aeCreateFileEvent_def get_fe_ok [OF i] fe_def Let_def by (auto simp: set_fe_def)
  then show ?thesis using ae_keep_slot [OF assms(1) i ok mx] by simp
qed

lemma aeDeleteFileEvent_keep:
  assumes "ae_inv el as" "0 \<le> fd"
  shows "ensures (aeDeleteFileEvent fd m el) (\<lambda>el'. ae_inv el' as \<and> ae_keep el as el' as)"
proof (cases "fd \<ge> setsize el \<or> fe_mask (events el ! nat fd) = AE_NONE")
  case True
  then show ?thesis using assms by (auto simp: aeDeleteFileEvent_def ae_keep_def get_fe_def in_events_def ae_inv_def ae_files_def)
next
  case False
  then have i: "in_events fd el" using assms by (auto simp: in_events_def ae_inv_def ae_files_def)
  let ?fe = "events el ! nat fd"
  define left where "left = fe_mask ?fe AND NOT ((if m AND AE_WRITABLE \<noteq> 0 then m OR AE_BARRIER else m) AND fe_mask ?fe)"
  define fe where "fe = ?fe\<lparr>fe_mask := left\<rparr>"
  define mx where "mx = (if fd = maxfd el \<and> left = AE_NONE then last_fd ((events el)[nat fd := fe]) (nat (maxfd el)) else maxfd el)"
  have e: "aeDeleteFileEvent fd m el = Inr ((set_fe fd fe el)\<lparr>maxfd := mx\<rparr>)"
    using False unfolding aeDeleteFileEvent_def get_fe_ok [OF i] Let_def rbind_simps fe_def left_def mx_def
    by (auto simp: set_fe_def)
  have "fe_ok ?fe" using assms(1) i by (auto simp: ae_inv_def ae_files_def in_events_def)
  then have ok: "fe_ok fe" using and_sub [of "fe_mask ?fe"] by (auto simp: fe_ok_def fe_def left_def and.assoc)
  have m: "is_maxfd (maxfd el) (events el)" using assms(1) by (simp add: ae_inv_def ae_files_def)
  have "is_maxfd mx ((events el)[nat fd := fe])"
  proof (cases "fd = maxfd el \<and> left = AE_NONE")
    case True
    have "is_maxfd (last_fd ((events el)[nat fd := fe]) (nat (maxfd el))) ((events el)[nat fd := fe])"
    proof (rule last_fd_max)
      fix k
      assume k: "nat (maxfd el) \<le> k" "k < length ((events el)[nat fd := fe])"
      show "fe_mask ((events el)[nat fd := fe] ! k) = AE_NONE"
      proof (cases "k = nat fd")
        case True
        then show ?thesis using k \<open>fd = maxfd el \<and> left = AE_NONE\<close> by (simp add: fe_def)
      next
        case False
        then have "\<not> int k \<le> maxfd el" using k(1) True by linarith
        then show ?thesis using m k(2) False by (auto simp: is_maxfd_def)
      qed
    qed (use m in \<open>auto simp: is_maxfd_def\<close>)
    then show ?thesis using True by (simp add: mx_def)
  next
    case False
    have "int k \<le> maxfd el" if "k < length (events el)" "fe_mask ((events el)[nat fd := fe] ! k) \<noteq> AE_NONE" for k
      using m that i \<open>\<not> (_ \<or> _)\<close> by (cases "k = nat fd") (auto simp: is_maxfd_def in_events_def)
    moreover have "fe_mask ((events el)[nat fd := fe] ! nat (maxfd el)) \<noteq> AE_NONE" if "maxfd el \<noteq> -1"
      using m that i False assms(2) by (cases "maxfd el = fd") (auto simp: is_maxfd_def in_events_def fe_def nth_list_update)
    moreover have "mx = maxfd el" using False unfolding mx_def by auto
    ultimately show ?thesis using m by (auto simp: is_maxfd_def)
  qed
  then show ?thesis using e ae_keep_slot [OF assms(1) i ok] by simp
qed

lemma te_push:
  assumes "te_seg h None q None as" "a \<notin> dom h" "te_prev te = None" "te_next te = q" "distinct as"
  shows "\<exists>h'. te_upd q (\<lambda>t. t\<lparr>te_prev := Some a\<rparr>) (h(a \<mapsto> te)) = Inr h' \<and> te_seg h' None (Some a) None (a # as) \<and> h' a = Some te \<and>
    (\<forall>x. x \<noteq> a \<longrightarrow> map_option te_core (h' x) = map_option te_core (h x))"
proof (cases as)
  case Nil
  then show ?thesis using assms by auto
next
  case (Cons b bs)
  then obtain t where t: "q = Some b" "h b = Some t" "te_seg h (Some b) (te_next t) None bs" "a \<noteq> b" "a \<notin> set bs" "b \<notin> set bs"
    using assms dseg_dom [OF assms(1)] by (auto split: option.splits)
  then show ?thesis using Cons assms(3,4) by (auto simp: te_upd_def te_get_def)
qed

lemma core_refs: "map_option te_core (te_heap el' x) = map_option te_core (te_heap el x) \<Longrightarrow> refs x el' = refs x el"
  by (auto simp: refs_def split: option.splits dest: te_core_fields)

lemma core_ids: "map_option te_core (h' x) = map_option te_core (h x) \<Longrightarrow> h' x = Some t' \<Longrightarrow> \<exists>t. h x = Some t \<and> te_id t' = te_id t"
  by (cases "h x") (auto dest: te_core_fields)

lemma te_ids_Cons:
  assumes "te_ids h as n" "\<And>x. x \<noteq> a \<Longrightarrow> map_option te_core (h' x) = map_option te_core (h x)" "h' a = Some t" "te_id t = n" "0 < n" "a \<notin> set as"
  shows "te_ids h' (a # as) (n + 1)"
proof -
  have 1: "te_ids h' as n"
    by (rule te_ids_cong [OF assms(1)]) (use assms(2,6) core_ids in \<open>auto, metis+\<close>)
  then show ?thesis using assms(3-6) unfolding te_ids_def by (smt (verit, ccfv_threshold) option.inject set_ConsD)
qed

lemma aeCreateTimeEvent_keep:
  assumes "ae_inv el as" "new_te E (el\<lparr>timeEventNextId := timeEventNextId el + 1\<rparr>) \<notin> dom (te_heap el)"
  shows "ensures (aeCreateTimeEvent E ms p d fin el) (\<lambda>(i, el'). i = timeEventNextId el \<and>
    (\<exists>a. ae_inv el' (a # as) \<and> ae_keep el as el' (a # as) \<and> (\<exists>t. te_heap el' a = Some t \<and> te_id t = i) \<and>
      (\<forall>x. x \<noteq> a \<longrightarrow> map_option te_core (te_heap el' x) = map_option te_core (te_heap el x))))"
proof -
  let ?el = "el\<lparr>timeEventNextId := timeEventNextId el + 1\<rparr>"
  define a where "a = new_te E ?el"
  obtain now w where m: "monotonic E (world el) = (now, w)" by fastforce
  define te where "te = \<lparr>te_id = timeEventNextId el, te_when = now + of_int (ms * 1000), timeProc = p, finalizerProc = fin,
                te_clientData = d, te_prev = None, te_next = timeEventHead el, te_refcount = 0\<rparr>"
  have t: "ae_timers el as" "te_seg (te_heap el) None (timeEventHead el) None as" "a \<notin> dom (te_heap el)" "distinct as" "a \<notin> set as" "0 < timeEventNextId el"
    using assms dseg_dom [of te_prev te_next "te_heap el" None "timeEventHead el" None as] by (auto simp: ae_inv_def ae_timers_def a_def)
  obtain h' where h: "te_upd (timeEventHead el) (\<lambda>t. t\<lparr>te_prev := Some a\<rparr>) ((te_heap el)(a \<mapsto> te)) = Inr h'"
    "te_seg h' None (Some a) None (a # as)" "h' a = Some te" "\<And>x. x \<noteq> a \<Longrightarrow> map_option te_core (h' x) = map_option te_core (te_heap el x)"
    using te_push [OF t(2,3) _ _ t(4), of te] by (auto simp: te_def)
  define el' where "el' = el\<lparr>timeEventNextId := timeEventNextId el + 1, world := w, te_heap := h', timeEventHead := Some a\<rparr>"
  have r: "aeCreateTimeEvent E ms p d fin el = Inr (timeEventNextId el, el')"
    using h(1) m by (simp add: aeCreateTimeEvent_def Let_def getMonotonicUs_def te_def a_def el'_def)
  have d: "dom h' = insert a (dom (te_heap el))"
  proof (rule set_eqI)
    show "x \<in> dom h' \<longleftrightarrow> x \<in> insert a (dom (te_heap el))" for x
      using h(3) core_None [OF h(4), of x] by (cases "x = a") (auto simp: domIff)
  qed
  have ids: "te_ids h' (a # as) (timeEventNextId el + 1)"
    by (rule te_ids_Cons [of "te_heap el" as _ a h' te]) (use t h(3,4) in \<open>simp_all add: ae_timers_def te_def\<close>)
  have "ae_files el'" "files_step el el'" using assms(1) by (auto simp: ae_inv_def ae_files_def el'_def files_step_def valid_fired_def in_events_def)
  moreover have "ae_timers el' (a # as)" using t h(2) d ids by (auto simp: ae_timers_def el'_def)
  moreover have "te_step as el as el' (a # as)"
  proof -
    have "refs x el' = refs x el" if "x \<in> set as" for x using that t(5) h(4) [of x] by (intro core_refs) (auto simp: el'_def)
    then show ?thesis using t(3) d by (auto simp: te_step_def el'_def)
  qed
  ultimately show ?thesis using r h(3,4) by (auto simp: ae_inv_def ae_keep_def el'_def te_def)
qed

lemma delete_loop_find:
  "te_seg h p q None as \<Longrightarrow> length as \<le> fuel \<Longrightarrow>
   delete_loop fuel q i h = Inr (case find (\<lambda>a. te_id (the (h a)) = i) as of
     None \<Rightarrow> (AE_ERR, h) | Some a \<Rightarrow> (AE_OK, h(a \<mapsto> (the (h a))\<lparr>te_id := AE_DELETED_EVENT_ID\<rparr>)))"
proof (induction as arbitrary: p q fuel)
  case (Cons a as)
  then show ?case by (cases fuel) (auto simp: te_get_Some fun_eq_iff split: option.splits)
qed simp

lemma te_fuel_enough: "ae_inv el as \<Longrightarrow> length as \<le> te_fuel el"
  by (auto simp: ae_inv_def ae_timers_def te_fuel_def)

lemma ae_inv_seg0: "ae_inv el as \<Longrightarrow> te_seg (te_heap el) None (timeEventHead el) None as"
  by (simp add: ae_inv_def ae_timers_def)

lemma aeDeleteTimeEvent_find:
  assumes "ae_inv el as"
  shows "aeDeleteTimeEvent i el = Inr (case find (\<lambda>a. te_id (the (te_heap el a)) = i) as of
     None \<Rightarrow> (AE_ERR, el) | Some a \<Rightarrow> (AE_OK, el\<lparr>te_heap := (te_heap el)(a \<mapsto> (the (te_heap el a))\<lparr>te_id := AE_DELETED_EVENT_ID\<rparr>)\<rparr>))"
  using delete_loop_find [OF ae_inv_seg0 [OF assms] te_fuel_enough [OF assms], of i]
  by (simp add: aeDeleteTimeEvent_def split: option.splits)

lemma aeDeleteTimeEvent_keep:
  assumes "ae_inv el as"
  shows "ensures (aeDeleteTimeEvent i el) (\<lambda>(r, el'). ae_inv el' as \<and> ae_keep el as el' as)"
proof (cases "find (\<lambda>a. te_id (the (te_heap el a)) = i) as")
  case None
  then show ?thesis using assms by (simp add: aeDeleteTimeEvent_find [OF assms] ae_keep_def)
next
  case (Some a)
  then have "a \<in> set as" by (metis find_Some_iff nth_mem)
  then obtain t where t: "te_heap el a = Some t" using dseg_dom [OF ae_inv_seg0 [OF assms]] by blast
  let ?el = "el\<lparr>te_heap := (te_heap el)(a \<mapsto> t\<lparr>te_id := AE_DELETED_EVENT_ID\<rparr>)\<rparr>"
  have "ae_inv ?el as" using ae_timers_upd [OF _ t] assms by (auto simp: ae_inv_def)
  moreover have "te_step as el as ?el as" using t by (auto simp: te_step_def refs_def)
  ultimately show ?thesis using Some t by (simp add: aeDeleteTimeEvent_find [OF assms] ae_keep_def)
qed

text \<open>Growing the set.\<close>

lemma clear_masks_simps [simp]: "length (clear_masks m evs) = length evs"
  "i < length evs \<Longrightarrow> clear_masks m evs ! i = (if int i > m then (evs ! i)\<lparr>fe_mask := AE_NONE\<rparr> else evs ! i)"
  by (simp_all add: clear_masks_def nth_enumerate_eq)

lemma ae_realloc_simps [simp]: "length (ae_realloc u n xs) = n"
  "i < n \<Longrightarrow> ae_realloc u n xs ! i = (if i < length xs then xs ! i else u)"
  by (auto simp: ae_realloc_def nth_append)

lemma aeResizeSetSize_events:
  assumes "ae_inv el as" "maxfd el < n" "n \<noteq> setsize el"
  shows "ae_inv (snd (aeResizeSetSize n el)) as" and "\<And>fd. fd \<le> maxfd el \<Longrightarrow> 0 \<le> fd \<Longrightarrow> events (snd (aeResizeSetSize n el)) ! nat fd = events el ! nat fd"
proof -
  let ?evs = "clear_masks (maxfd el) (ae_realloc fe_uninit (nat n) (events el))"
  have f: "ae_files el" using assms(1) by (simp add: ae_inv_def)
  have n: "-1 \<le> maxfd el" "0 \<le> n" "maxfd el < int (length (events el))" using f assms(2) by (auto simp: ae_files_def is_maxfd_def)
  have r: "aeResizeSetSize n el = (AE_OK, el\<lparr>ae_cap := aeApiResize n (ae_cap el), events := ?evs, fired := ae_realloc None (nat n) (fired el), setsize := n\<rparr>)"
    using assms by (simp add: aeResizeSetSize_def)
  have "fe_ok (?evs ! i)" if "i < nat n" for i
    using that f by (auto simp: fe_ok_def ae_files_def fe_uninit_def)
  then have ok: "\<forall>fe \<in> set ?evs. fe_ok fe" by (auto simp: in_set_conv_nth)
  have "is_maxfd (maxfd el) ?evs" using f assms(2) n by (auto simp: ae_files_def is_maxfd_def)
  then show "ae_inv (snd (aeResizeSetSize n el)) as"
    using assms(1) ok n(2) unfolding r by (auto simp: ae_inv_def ae_files_def ae_timers_def aeApiResize_def)
  show "events (snd (aeResizeSetSize n el)) ! nat fd = events el ! nat fd" if "fd \<le> maxfd el" "0 \<le> fd" for fd
    using that n assms(2) unfolding r by (auto simp: nat_less_iff)
qed

lemma aeResizeSetSize_keep:
  assumes "ae_inv el as" "setsize el < n"
  shows "ae_inv (snd (aeResizeSetSize n el)) as" "ae_keep el as (snd (aeResizeSetSize n el)) as"
proof -
  have n: "maxfd el < n" "n \<noteq> setsize el" "length (fired el) = length (events el)" "length (events el) \<le> nat n"
    using assms by (auto simp: ae_inv_def ae_files_def is_maxfd_def)
  show "ae_inv (snd (aeResizeSetSize n el)) as" by (rule aeResizeSetSize_events(1) [OF assms(1) n(1,2)])
  show "ae_keep el as (snd (aeResizeSetSize n el)) as"
    using n by (auto simp: aeResizeSetSize_def ae_keep_def files_step_def valid_fired_def in_events_def intro!: te_step_same)
qed

text \<open>The earliest timer.\<close>

definition live_whens :: "('p, 'd) te_heap \<Rightarrow> nat list \<Rightarrow> monotime list" where
  "live_whens h as = map te_when (filter (\<lambda>t. te_id t \<noteq> AE_DELETED_EVENT_ID) (map (the \<circ> h) as))"

lemma live_whens_simps [simp]:
  "live_whens h [] = []"
  "live_whens h (a # as) = (if te_id (the (h a)) = AE_DELETED_EVENT_ID then live_whens h as else te_when (the (h a)) # live_whens h as)"
  by (simp_all add: live_whens_def)

definition earlier :: "monotime \<Rightarrow> monotime option \<Rightarrow> monotime option" where
  "earlier x e = (case e of None \<Rightarrow> Some x | Some y \<Rightarrow> Some (min x y))"

lemma fold_earlier_Some: "fold earlier xs (Some y) = Some (Min (insert y (set xs)))"
proof (induction xs arbitrary: y)
  case (Cons x xs)
  then show ?case by (cases "xs = []") (simp_all add: earlier_def min.commute min.left_commute)
qed simp

lemma fold_earlier: "fold earlier xs None = (if xs = [] then None else Some (Min (set xs)))"
  by (cases xs) (simp_all add: fold_earlier_Some, simp add: earlier_def fold_earlier_Some)

lemma earliest_loop_fold:
  "te_seg h p q None as \<Longrightarrow> length as \<le> fuel \<Longrightarrow>
   \<exists>e'. earliest_loop fuel q e h = Inr e' \<and> map_option te_when e' = fold earlier (live_whens h as) (map_option te_when e)"
proof (induction as arbitrary: p q fuel e)
  case (Cons a as)
  obtain t fuel' where t: "q = Some a" "h a = Some t" "te_seg h (Some a) (te_next t) None as" "fuel = Suc fuel'" "length as \<le> fuel'"
    using Cons.prems by (cases fuel) (auto split: option.splits)
  let ?e = "if (case e of None \<Rightarrow> True | Some e \<Rightarrow> te_when t < te_when e) \<and> te_id t \<noteq> AE_DELETED_EVENT_ID then Some t else e"
  have "fold earlier (live_whens h as) (map_option te_when ?e) = fold earlier (live_whens h (a # as)) (map_option te_when e)"
    using t(2) by (auto simp: earlier_def min_def split: option.splits)
  then show ?case using Cons.IH [OF t(3,5), of ?e] t(1,2,4) by (simp add: te_get_Some)
qed simp

end
