(* ===== verification/Reactor.thy ===== *)
theory Reactor
  imports Ae_Safety
begin

text \<open>
  The event loop with the code that runs on it.  A callback is a program: a sequence of calls of
  the interface of \<^verbatim>\<open>ae.h\<close>, of changes of the world and of nested passes, each of which may depend on
  the state reached.  The locale \<open>reactor_app\<close> asks of an application only that its allocator returns
  free memory; every such application satisfies the contract \<open>ae_callbacks\<close> of the loop, whatever the
  nesting depth, so that the runs of the reactor (\<open>boot\<close>, then \<open>rk_step\<close> again and again) never fail.
\<close>

section \<open>Programs on the event loop\<close>

text \<open>What a callback does: calls of the interface of \<^verbatim>\<open>ae.h\<close>, changes of the state outside the loop,
  nested passes; every choice may depend on the state reached so far.\<close>

datatype ('p, 'd, 'w) ae_call =
    CreateFile nat mask 'p "'d option"
  | DeleteFile nat mask
  | CreateTimer int 'p 'd "'p option"
  | DeleteTimer int
  | GrowSet int
  | SetHooks "'p option" "'p option" "'p option"
  | SetWait bool
  | StopLoop
  | Effect "'w \<Rightarrow> 'w"
  | Nested mask

datatype ('p, 'd, 'w) prog =
    Return int
  | Call "('p, 'd, 'w) ae_call" "('p, 'd, 'w) aeEventLoop \<Rightarrow> ('p, 'd, 'w) prog"

text \<open>The application: the programs behind the procedure pointers, and the code outside the
  repository they rely on: the clock, the allocator and the readiness of the host's sockets.\<close>

record ('p, 'd, 'w) app =
  app_file :: "'p \<Rightarrow> int \<Rightarrow> 'd option \<Rightarrow> mask \<Rightarrow> ('p, 'd, 'w) prog"
  app_time :: "'p \<Rightarrow> int \<Rightarrow> 'd \<Rightarrow> ('p, 'd, 'w) prog"
  app_fin :: "'p \<Rightarrow> 'd \<Rightarrow> ('p, 'd, 'w) prog"
  app_hook :: "'p \<Rightarrow> int \<Rightarrow> ('p, 'd, 'w) prog"
  app_clock :: "'w \<Rightarrow> monotime \<times> 'w"
  app_alloc :: "('p, 'd, 'w) aeEventLoop \<Rightarrow> nat"
  app_host :: "'w \<Rightarrow> host"

definition settle :: "'a \<Rightarrow> 'a ae_res \<Rightarrow> 'a" where
  "settle el r = (case r of Inr x \<Rightarrow> x | Inl _ \<Rightarrow> el)"

text \<open>The environment of the interface calls: clock, allocator, \<open>host_poll\<close>.\<close>

definition base_env :: "('p, 'd, 'w) app \<Rightarrow> ('p, 'd, 'w) ae_env" where
  "base_env A = \<lparr>run_file = (\<lambda>p fd d m el. el), run_time = (\<lambda>p i d el. (AE_NOMORE, el)), run_fin = (\<lambda>p d el. el),
     run_before = (\<lambda>p el. el), run_after = (\<lambda>p n el. el), run_poll = (\<lambda>p el. (0, el)),
     monotonic = app_clock A, poll_host = (\<lambda>w. host_poll (app_host A w)), new_te = app_alloc A\<rparr>"

text \<open>A call that registers nothing is left out; the set only grows, as in \<open>updateMaxclients\<close>.\<close>

fun exec :: "('p, 'd, 'w) app \<Rightarrow> (mask \<Rightarrow> ('p, 'd, 'w) aeEventLoop \<Rightarrow> ('p, 'd, 'w) aeEventLoop) \<Rightarrow> ('p, 'd, 'w) ae_call \<Rightarrow> ('p, 'd, 'w) aeEventLoop \<Rightarrow> ('p, 'd, 'w) aeEventLoop" where
  "exec A N (CreateFile fd m p d) el = (if m = AE_NONE then el else settle el (rbind (aeCreateFileEvent (int fd) m p d el) (\<lambda>(r, el). Inr el)))"
| "exec A N (DeleteFile fd m) el = settle el (aeDeleteFileEvent (int fd) m el)"
| "exec A N (CreateTimer ms p d fin) el = settle el (rbind (aeCreateTimeEvent (base_env A) ms p d fin el) (\<lambda>(r, el). Inr el))"
| "exec A N (DeleteTimer i) el = settle el (rbind (aeDeleteTimeEvent i el) (\<lambda>(r, el). Inr el))"
| "exec A N (GrowSet n) el = (if aeGetSetSize el < n then snd (aeResizeSetSize n el) else el)"
| "exec A N (SetHooks b a c) el = aeSetCustomPollProc c (aeSetAfterSleepProc a (aeSetBeforeSleepProc b el))"
| "exec A N (SetWait b) el = aeSetDontWait b el"
| "exec A N StopLoop el = ae_stop_loop el"
| "exec A N (Effect f) el = el\<lparr>world := f (world el)\<rparr>"
| "exec A N (Nested flags) el = N flags el"

primrec run_prog :: "('p, 'd, 'w) app \<Rightarrow> (mask \<Rightarrow> ('p, 'd, 'w) aeEventLoop \<Rightarrow> ('p, 'd, 'w) aeEventLoop) \<Rightarrow> ('p, 'd, 'w) prog \<Rightarrow> ('p, 'd, 'w) aeEventLoop \<Rightarrow> int \<times> ('p, 'd, 'w) aeEventLoop" where
  "run_prog A N (Return r) = (\<lambda>el. (r, el))"
| "run_prog A N (Call c k) = (\<lambda>el. run_prog A N (k (exec A N c el)) (exec A N c el))"

text \<open>Finalizers run no nested pass; a custom poll calls \<open>aePoll\<close>.\<close>

definition env_over :: "('p, 'd, 'w) app \<Rightarrow> (mask \<Rightarrow> ('p, 'd, 'w) aeEventLoop \<Rightarrow> ('p, 'd, 'w) aeEventLoop) \<Rightarrow> ('p, 'd, 'w) ae_env" where
  "env_over A N = (base_env A)\<lparr>
     run_file := (\<lambda>p fd d m el. snd (run_prog A N (app_file A p fd d m) el)),
     run_time := (\<lambda>p i d el. run_prog A N (app_time A p i d) el),
     run_fin := (\<lambda>p d el. snd (run_prog A (\<lambda>flags el. el) (app_fin A p d) el)),
     run_before := (\<lambda>p el. snd (run_prog A N (app_hook A p 0) el)),
     run_after := (\<lambda>p n el. snd (run_prog A N (app_hook A p n) el)),
     run_poll := (\<lambda>p el. settle (0, el) (rbind (aePoll (base_env A) el) (\<lambda>(n, el). Inr (int n, el))))\<rparr>"

text \<open>Passes nested at most \<open>k\<close> deep; like \<open>processEventsWhileBlocked\<close>, none of them waits.\<close>

primrec nested_pass :: "('p, 'd, 'w) app \<Rightarrow> nat \<Rightarrow> mask \<Rightarrow> ('p, 'd, 'w) aeEventLoop \<Rightarrow> ('p, 'd, 'w) aeEventLoop" where
  "nested_pass A 0 = (\<lambda>flags el. el)"
| "nested_pass A (Suc k) = (\<lambda>flags el.
     settle el (rbind (aeProcessEvents (env_over A (nested_pass A k)) (flags OR AE_DONT_WAIT) el) (\<lambda>(n, el). Inr el)))"

definition app_env :: "('p, 'd, 'w) app \<Rightarrow> nat \<Rightarrow> ('p, 'd, 'w) ae_env" where
  "app_env A k = env_over A (nested_pass A k)"

section \<open>The contract holds for every program\<close>

lemma ensures_settle: "ensures r P \<Longrightarrow> P (settle el r)"
  by (auto simp: ensures_def settle_def)

lemma ae_keep_refl [simp]: "ae_keep el as el as"
  by (simp add: ae_keep_def)

lemma keep_frame:
  assumes "ae_inv el as" "te_heap el' = te_heap el" "timeEventNextId el' = timeEventNextId el" "timeEventHead el' = timeEventHead el"
    "events el' = events el" "fired el' = fired el" "maxfd el' = maxfd el" "setsize el' = setsize el" "ae_cap el' = ae_cap el"
  shows "\<exists>as'. ae_inv el' as' \<and> ae_keep el as el' as'"
proof -
  have "ae_inv el' as" using assms by (simp add: ae_inv_def ae_files_def ae_timers_def)
  moreover have "ae_keep el as el' as" using assms by (simp add: ae_keep_def files_step_def valid_fired_def in_events_def te_step_same)
  ultimately show ?thesis by blast
qed

locale reactor_app =
  fixes A :: "('p, 'd, 'w) app"
  assumes alloc_fresh: "finite (dom (te_heap el)) \<Longrightarrow> app_alloc A el \<notin> dom (te_heap el)"
begin

lemma exec_keep:
  assumes "ae_inv el as" "\<And>flags. c \<noteq> Nested flags"
  shows "\<exists>as'. ae_inv (exec A N c el) as' \<and> ae_keep el as (exec A N c el) as'"
proof -
  have s: "\<exists>as'. ae_inv (settle el r) as' \<and> ae_keep el as (settle el r) as'"
    if "ensures r (\<lambda>el'. \<exists>as'. ae_inv el' as' \<and> ae_keep el as el' as')" for r
    using ensures_settle [OF that] .
  show ?thesis
  proof (cases c)
    case (CreateFile fd m p d)
    have "m \<noteq> 0 \<Longrightarrow> ensures (rbind (aeCreateFileEvent (int fd) m p d el) (\<lambda>(r, el). Inr el)) (\<lambda>el'. \<exists>as'. ae_inv el' as' \<and> ae_keep el as el' as')"
      by (rule ensures_bind [OF aeCreateFileEvent_keep [OF assms(1)]]) auto
    then show ?thesis using CreateFile s assms(1) by (auto simp: ae_keep_def)
  next
    case (DeleteFile fd m)
    have "ensures (aeDeleteFileEvent (int fd) m el) (\<lambda>el'. \<exists>as'. ae_inv el' as' \<and> ae_keep el as el' as')"
      by (rule ensures_mono [OF aeDeleteFileEvent_keep [OF assms(1)]]) auto
    then show ?thesis using DeleteFile s by simp
  next
    case (CreateTimer ms p d fin)
    have "new_te (base_env A) (el\<lparr>timeEventNextId := timeEventNextId el + 1\<rparr>) \<notin> dom (te_heap el)"
      using alloc_fresh [of "el\<lparr>timeEventNextId := timeEventNextId el + 1\<rparr>"] assms(1) by (simp add: base_env_def ae_inv_def ae_timers_def)
    then have "ensures (rbind (aeCreateTimeEvent (base_env A) ms p d fin el) (\<lambda>(r, el). Inr el)) (\<lambda>el'. \<exists>as'. ae_inv el' as' \<and> ae_keep el as el' as')"
      by (intro ensures_bind [OF aeCreateTimeEvent_keep [OF assms(1)]]) auto
    then show ?thesis using CreateTimer s by simp
  next
    case (DeleteTimer i)
    have "ensures (rbind (aeDeleteTimeEvent i el) (\<lambda>(r, el). Inr el)) (\<lambda>el'. \<exists>as'. ae_inv el' as' \<and> ae_keep el as el' as')"
      by (rule ensures_bind [OF aeDeleteTimeEvent_keep [OF assms(1)]]) auto
    then show ?thesis using DeleteTimer s by simp
  next
    case (GrowSet n)
    then show ?thesis using aeResizeSetSize_keep [OF assms(1), of n] assms(1) by (auto simp: aeGetSetSize_def ae_keep_def)
  next
    case (Nested flags)
    then show ?thesis using assms(2) by simp
  qed (rule keep_frame [OF assms(1)]; simp add: aeSetCustomPollProc_def aeSetAfterSleepProc_def aeSetBeforeSleepProc_def aeSetDontWait_def ae_stop_loop_def)+
qed

lemma run_keep:
  "ae_inv el as \<Longrightarrow> \<exists>as'. ae_inv (snd (run_prog A (\<lambda>flags el. el) P el)) as' \<and> ae_keep el as (snd (run_prog A (\<lambda>flags el. el) P el)) as'"
proof (induction P arbitrary: el as)
  case (Call c k)
  let ?el = "exec A (\<lambda>flags el. el) c el"
  obtain as1 where 1: "ae_inv ?el as1" "ae_keep el as ?el as1"
    using exec_keep [OF Call.prems, of c "\<lambda>flags el. el"] Call.prems by (cases c) auto
  then show ?case using Call.IH [of "k ?el" ?el as1] ae_keep_trans [OF 1(2,1)] by auto
qed auto

lemma run_post:
  assumes N: "\<And>flags el as. ae_inv el as \<Longrightarrow> ae_post el as (N flags el)"
  shows "ae_inv el as \<Longrightarrow> ae_post el as (snd (run_prog A N P el))"
proof (induction P arbitrary: el as)
  case (Call c k)
  have "ae_post el as (exec A N c el)"
  proof (cases "\<exists>flags. c = Nested flags")
    case True
    then show ?thesis using N Call.prems by auto
  next
    case False
    then show ?thesis unfolding ae_post_def using exec_keep [OF Call.prems, of c N] ae_keep_rely by meson
  qed
  then show ?case using Call.IH [of "k (exec A N c el)" "exec A N c el"] by (auto intro: ae_post_trans)
qed simp

lemma host_poll_contract: "length (host_poll h interest cap) \<le> length interest" "fst ` set (host_poll h interest cap) \<subseteq> fst ` set interest"
proof -
  let ?r = "filter (\<lambda>(fd, m). m \<noteq> 0) (map (\<lambda>(fd, m). (fd, poll_ready h fd m)) interest)"
  have "length ?r \<le> length interest" by (rule order_trans [OF length_filter_le]) simp
  then show "length (host_poll h interest cap) \<le> length interest" unfolding host_poll_filter length_take by linarith
  show "fst ` set (host_poll h interest cap) \<subseteq> fst ` set interest"
    unfolding host_poll_filter by (rule subset_trans [OF image_mono [OF set_take_subset]]) force
qed

lemma base_callbacks: "ae_callbacks (base_env A)"
  by unfold_locales (use host_poll_contract in \<open>auto simp: base_env_def intro: exI ae_rely_refl\<close>)

lemma env_over_callbacks:
  assumes N: "\<And>flags el as. ae_inv el as \<Longrightarrow> ae_post el as (N flags el)"
  shows "ae_callbacks (env_over A N)"
proof unfold_locales
  fix el as p n and el' :: "('p, 'd, 'w) aeEventLoop"
  assume 1: "ae_inv el as" "run_poll (env_over A N) p el = (n, el')"
  have "ensures (rbind (aePoll (base_env A) el) (\<lambda>(n, el). Inr (int n, el))) (\<lambda>(n, el'). ae_post el as el' \<and> (\<forall>j < nat n. valid_fired el' j))"
    unfolding aePoll_def by (rule ensures_bind [OF ae_callbacks.aeApiPoll_ok [OF base_callbacks 1(1)]]) auto
  from ensures_settle [OF this, of "(0, el)"] 1(2)
  show "\<exists>as'. ae_inv el' as' \<and> ae_rely el as el' as' \<and> (\<forall>j < nat n. valid_fired el' j)"
    by (auto simp: env_over_def ae_post_def)
next
  fix el as p i d r and el' :: "('p, 'd, 'w) aeEventLoop"
  assume 1: "ae_inv el as" "run_time (env_over A N) p i d el = (r, el')"
  then have "el' = snd (run_prog A N (app_time A p i d) el)" by (simp add: env_over_def)
  then show "\<exists>as'. ae_inv el' as' \<and> ae_rely el as el' as'" using run_post [OF N 1(1)] by (simp add: ae_post_def)
qed (use run_post [OF N] run_keep host_poll_contract in \<open>auto simp: env_over_def base_env_def ae_post_def\<close>)

lemma nested_post: "ae_inv el as \<Longrightarrow> ae_post el as (nested_pass A k flags el)"
proof (induction k arbitrary: flags el as)
  case (Suc k)
  have f: "(flags OR AE_DONT_WAIT) AND AE_DONT_WAIT \<noteq> 0" by (simp add: mask_bits bit_or_iff)
  have "ensures (rbind (aeProcessEvents (env_over A (nested_pass A k)) (flags OR AE_DONT_WAIT) el) (\<lambda>(n, el). Inr el)) (ae_post el as)"
    by (rule ensures_bind [OF ae_callbacks.aeProcessEvents_ok [OF env_over_callbacks [OF Suc.IH] Suc.prems f]]) auto
  then show ?case using ensures_settle by fastforce
qed simp

lemma app_callbacks: "ae_callbacks (app_env A k)"
  unfolding app_env_def by (rule env_over_callbacks) (rule nested_post)

end

sublocale reactor_app \<subseteq> pass: ae_callbacks "app_env A k" for k
  by (rule app_callbacks)

section \<open>Runs of the reactor\<close>

text \<open>Boot: the loop is created and the program of \<open>main\<close> registers its events; then the host runs
  one pass after the other, and the world changes in between.\<close>

definition boot :: "('p, 'd, 'w) app \<Rightarrow> int \<Rightarrow> int \<Rightarrow> ('p, 'd, 'w) prog \<Rightarrow> 'w \<Rightarrow> ('p, 'd, 'w) aeEventLoop" where
  "boot A n cap init w = snd (run_prog A (\<lambda>flags el. el) init (aeCreateEventLoop n cap w))"

fun rk_run :: "('p, 'd, 'w) ae_env \<Rightarrow> ('w \<Rightarrow> 'w) list \<Rightarrow> ('p, 'd, 'w) aeEventLoop \<Rightarrow> ('p, 'd, 'w) aeEventLoop ae_res" where
  "rk_run E [] el = Inr el"
| "rk_run E (f # fs) el = rbind (rk_step E (el\<lparr>world := f (world el)\<rparr>)) (\<lambda>(n, el). rk_run E fs el)"

definition first_free :: "('p, 'd, 'w) aeEventLoop \<Rightarrow> nat" where
  "first_free el = (LEAST a. a \<notin> dom (te_heap el))"

lemma first_free: "finite (dom (te_heap el)) \<Longrightarrow> first_free el \<notin> dom (te_heap el)"
  unfolding first_free_def by (rule least_free)

text \<open>Every application, with an allocator that returns the lowest free address.\<close>

interpretation ff: reactor_app "A\<lparr>app_alloc := first_free\<rparr>" for A :: "('p, 'd, 'w) app"
  by unfold_locales (simp add: first_free)

context reactor_app
begin

lemma rk_step_ok: "ae_inv el as \<Longrightarrow> ensures (rk_step (app_env A k) el) (\<lambda>(n, el'). ae_post el as el')"
  unfolding rk_step_def by (rule pass.aeProcessEvents_ok) (simp_all add: mask_bits bit_or_iff)

lemma rk_run_ok: "ae_inv el as \<Longrightarrow> ensures (rk_run (app_env A k) fs el) (\<lambda>el'. \<exists>as'. ae_inv el' as')"
proof (induction fs arbitrary: el as)
  case (Cons f fs)
  have "ensures (rk_step (app_env A k) (el\<lparr>world := f (world el)\<rparr>)) (\<lambda>(n, el'). ae_post (el\<lparr>world := f (world el)\<rparr>) as el')"
    by (rule rk_step_ok) (use Cons.prems in simp)
  then have "ensures (rbind (rk_step (app_env A k) (el\<lparr>world := f (world el)\<rparr>)) (\<lambda>(n, el). rk_run (app_env A k) fs el)) (\<lambda>el'. \<exists>as'. ae_inv el' as')"
    by (rule ensures_bind) (use Cons.IH ae_post_inv in fastforce)
  then show ?case by simp
qed auto

lemma boot_inv: "0 \<le> n \<Longrightarrow> \<exists>as. ae_inv (boot A n cap init w) as"
  unfolding boot_def using run_keep [OF ae_inv_create] by blast

end

section \<open>The order of two events of one descriptor\<close>

text \<open>Which procedures a descriptor's events call, in order, as the comments of \<open>aeProcessEvents\<close>
  describe it: readable before writable, the reverse under \<open>AE_BARRIER\<close>, one call when both have the
  same procedure.\<close>

definition call_order :: "('p, 'd) aeFileEvent \<Rightarrow> mask \<Rightarrow> 'p option list" where
  "call_order fe m = remdups
     ((if fe_mask fe AND AE_BARRIER \<noteq> 0 then rev else id)
        ((if fe_mask fe AND m AND AE_READABLE \<noteq> 0 then [rfileProc fe] else []) @
         (if fe_mask fe AND m AND AE_WRITABLE \<noteq> 0 then [wfileProc fe] else [])))"

lemma set_world_world [simp]: "el\<lparr>world := world el\<rparr> = el" for el :: "('p, 'd, 'w) aeEventLoop"
  by simp

lemma dispatch_world:
  assumes E: "\<And>p fd d m el. run_file E p fd d m el = el\<lparr>world := f p fd d m (world el)\<rparr>"
    and el: "ae_inv el as" "in_events fd el"
  shows "dispatch E fd m el = Inr (el\<lparr>world := fold (\<lambda>p. f (the p) fd (fe_clientData (events el ! nat fd)) m) (call_order (events el ! nat fd) m) (world el)\<rparr>)"
proof -
  let ?fe = "events el ! nat fd"
  have i: "in_events fd (el\<lparr>world := w\<rparr>)" for w using el(2) by (simp add: in_events_def)
  note g = get_fe_ok [OF i] get_fe_ok [OF el(2)]
  obtain p q where p: "fe_mask ?fe AND m AND AE_READABLE \<noteq> 0 \<longrightarrow> rfileProc ?fe = Some p" "fe_mask ?fe AND m AND AE_WRITABLE \<noteq> 0 \<longrightarrow> wfileProc ?fe = Some q"
    using fe_okD [OF el] by metis
  show ?thesis
    using p by (auto simp: dispatch_def read_first_def write_next_def read_last_def fire_read_def fire_write_def call_file_def E g call_order_def)
qed

end
