(* ===== verification/Wakeup.thy ===== *)
theory Wakeup
  imports Reactor
begin

text \<open>
  The event loop in its host (\<^verbatim>\<open>src/bridge/valkey-server.ts\<close>): data that arrives queues a step, and the
  step serves the descriptor.  \<open>serves\<close> states what the code of a pass must respect for that;
  the lemmas follow the descriptor through the hooks, the poll, the dispatch and the timers.
\<close>

section \<open>Waking up\<close>

text \<open>The descriptor \<open>fd\<close> is registered for reading with the procedure \<open>p\<close>, and the host has something
  to read on it.  The other procedure of the slot is \<open>q\<close>.\<close>

definition watching :: "('w \<Rightarrow> host) \<Rightarrow> int \<Rightarrow> 'p \<Rightarrow> 'p option \<Rightarrow> ('p, 'd, 'w) aeEventLoop \<Rightarrow> bool" where
  "watching H fd p q el \<longleftrightarrow> in_events fd el \<and> fe_mask (events el ! nat fd) AND AE_READABLE \<noteq> 0 \<and> rfileProc (events el ! nat fd) = Some p \<and> wfileProc (events el ! nat fd) = q
     \<and> poll_ready (H (world el)) fd AE_READABLE \<noteq> 0 \<and> custompoll el = None"

text \<open>The code a pass may run, other than the loop itself and a custom poll.\<close>

inductive_set callbacks :: "('p, 'd, 'w) ae_env \<Rightarrow> (('p, 'd, 'w) aeEventLoop \<Rightarrow> ('p, 'd, 'w) aeEventLoop) set"
  for E :: "('p, 'd, 'w) ae_env" where
  cb_file: "run_file E p fd d m \<in> callbacks E"
| cb_time: "(\<lambda>el. snd (run_time E p i d el)) \<in> callbacks E"
| cb_fin: "run_fin E p d \<in> callbacks E"
| cb_before: "run_before E p \<in> callbacks E"
| cb_after: "run_after E p n \<in> callbacks E"
| cb_clock: "(\<lambda>el. snd (getMonotonicUs E el)) \<in> callbacks E"

definition cb_closed :: "('p, 'd, 'w) ae_env \<Rightarrow> (('p, 'd, 'w) aeEventLoop \<Rightarrow> bool) \<Rightarrow> bool" where
  "cb_closed E G \<longleftrightarrow> (\<forall>c \<in> callbacks E. \<forall>el. G el \<longrightarrow> G (c el))"

definition cb_keep :: "('p, 'd, 'w) ae_env \<Rightarrow> ('w \<Rightarrow> bool) \<Rightarrow> bool" where
  "cb_keep E Q \<longleftrightarrow> cb_closed E (\<lambda>el. Q (world el)) \<and> (\<forall>p el. Q (world el) \<longrightarrow> Q (world (snd (run_poll E p el))))"

lemma cb_closedD: "cb_closed E G \<Longrightarrow> c \<in> callbacks E \<Longrightarrow> G el \<Longrightarrow> G (c el)"
  by (auto simp: cb_closed_def)

lemma cb_keepD: "cb_keep E Q \<Longrightarrow> c \<in> callbacks E \<Longrightarrow> Q (world el) \<Longrightarrow> Q (world (c el))"
  by (auto simp: cb_keep_def cb_closed_def)

text \<open>\<open>Q\<close> is what serving the descriptor achieves: its procedure establishes it, and any other code
  either establishes it too or leaves the descriptor registered and readable and runs no pass of its
  own; once achieved it stays.\<close>

definition serves :: "('p, 'd, 'w) ae_env \<Rightarrow> ('w \<Rightarrow> host) \<Rightarrow> int \<Rightarrow> 'p \<Rightarrow> 'p option \<Rightarrow> ('w \<Rightarrow> bool) \<Rightarrow> bool" where
  "serves E H fd p q Q \<longleftrightarrow> cb_keep E Q \<and>
     (\<forall>c \<in> callbacks E. \<forall>el. watching H fd p q el \<longrightarrow> watching H fd p q (c el) \<and> fired (c el) = fired el \<or> Q (world (c el))) \<and>
     (\<forall>d m el. watching H fd p q el \<longrightarrow> Q (world (run_file E p fd d m el)))"

lemma servesD:
  assumes "serves E H fd p q Q"
  shows "cb_keep E Q"
    and "c \<in> callbacks E \<Longrightarrow> watching H fd p q el \<Longrightarrow> watching H fd p q (c el) \<and> fired (c el) = fired el \<or> Q (world (c el))"
    and "watching H fd p q el \<Longrightarrow> Q (world (run_file E p fd d m el))"
  using assms unfolding serves_def by blast+

text \<open>What the callbacks keep of the world, a pass keeps.\<close>

definition wkeeps :: "('w \<Rightarrow> bool) \<Rightarrow> ('a \<times> ('p, 'd, 'w) aeEventLoop) ae_res \<Rightarrow> bool" where
  "wkeeps Q r \<longleftrightarrow> (\<forall>x el. r = Inr (x, el) \<longrightarrow> Q (world el))"

lemma wkeeps_simps [simp]: "wkeeps Q (Inl e)" "wkeeps Q (Inr (x, el)) \<longleftrightarrow> Q (world el)"
  by (auto simp: wkeeps_def)

lemma wkeeps_bind:
  "wkeeps Q r \<Longrightarrow> (\<And>x el. Q (world el) \<Longrightarrow> wkeeps Q (f (x, el))) \<Longrightarrow> wkeeps Q (rbind r f)"
  by (cases r) (auto simp: wkeeps_def)

lemma wkeeps_pure: "(\<And>x. wkeeps Q (f x)) \<Longrightarrow> wkeeps Q (rbind r f)"
  by (cases r) (auto simp: wkeeps_def)

lemma world_clock: "cb_keep E Q \<Longrightarrow> Q (world el) \<Longrightarrow> Q (world (snd (getMonotonicUs E el)))"
  using cb_keepD [OF _ cb_clock] .

lemma world_finalize: "cb_keep E Q \<Longrightarrow> Q (world el) \<Longrightarrow> Q (world (snd (finalize_te E a t now el)))"
  using world_clock cb_keepD [OF _ cb_fin]
  by (fastforce simp: finalize_te_def case_prod_unfold Let_def split: option.splits)

lemma world_unlink: "unlink_te t el = Inr el' \<Longrightarrow> world el' = world el"
  by (auto simp: unlink_te_def rbind_Inr)

lemma world_fire_te:
  assumes "cb_keep E Q" "Q (world el)"
  shows "wkeeps Q (fire_te E a t el)"
proof -
  let ?el = "el\<lparr>te_heap := (te_heap el)(a \<mapsto> t\<lparr>te_refcount := te_refcount t + 1\<rparr>)\<rparr>"
  obtain r el1 where r: "run_time E (timeProc t) (te_id t) (te_clientData t) ?el = (r, el1)" by fastforce
  have q1: "Q (world el1)" using cb_keepD [OF assms(1) cb_time, of ?el "timeProc t" "te_id t" "te_clientData t"] r assms(2) by simp
  show ?thesis
    unfolding fire_te_def Let_def r prod.case
    by (rule wkeeps_pure) (use world_clock [OF assms(1) q1] in \<open>simp add: case_prod_unfold\<close>)
qed

lemma world_processTime:
  assumes Q: "cb_keep E Q"
  shows "Q (world el) \<Longrightarrow> wkeeps Q (processTime_loop E fuel q maxId now k el)"
proof (induction fuel arbitrary: q now k el)
  case 0
  then show ?case by (cases q) auto
next
  case (Suc fuel)
  have free: "wkeeps Q (rbind (unlink_te t el) (\<lambda>el. let (now, el) = finalize_te E a t now el in processTime_loop E fuel (te_next t) maxId now k el))" for a t
  proof (cases "unlink_te t el")
    case (Inr el1)
    then have "Q (world (snd (finalize_te E a t now el1)))" using world_finalize [OF Q] world_unlink Suc.prems by metis
    then show ?thesis using Inr Suc.IH by (simp add: case_prod_unfold Let_def)
  qed simp
  have due: "wkeeps Q (rbind (fire_te E a t el) (\<lambda>(now, el). rbind (te_get a (te_heap el)) (\<lambda>t. processTime_loop E fuel (te_next t) maxId now (k + 1) el)))" for a t
    by (rule wkeeps_bind [OF world_fire_te [OF Q Suc.prems]]) (auto intro: wkeeps_pure Suc.IH)
  show ?case
  proof (cases q)
    case (Some a)
    then show ?thesis unfolding Some processTime_loop.simps by (intro wkeeps_pure) (use free due Suc in auto)
  qed (use Suc.prems in simp)
qed

lemma world_processTimeEvents: "cb_keep E Q \<Longrightarrow> Q (world el) \<Longrightarrow> wkeeps Q (processTimeEvents E el)"
  unfolding processTimeEvents_def by (simp add: case_prod_unfold Let_def world_processTime world_clock)

text \<open>Not served yet and still due, or served.\<close>

definition due_or :: "('w \<Rightarrow> host) \<Rightarrow> int \<Rightarrow> 'p \<Rightarrow> 'p option \<Rightarrow> ('w \<Rightarrow> bool) \<Rightarrow> (int \<times> mask) option list \<Rightarrow> ('p, 'd, 'w) aeEventLoop \<Rightarrow> bool" where
  "due_or H fd p q Q F el \<longleftrightarrow> watching H fd p q el \<and> fired el = F \<or> Q (world el)"

lemma due_or_step:
  assumes "serves E H fd p q Q" "c \<in> callbacks E" "due_or H fd p q Q F el"
  shows "due_or H fd p q Q F (c el)"
proof (cases "Q (world el)")
  case True
  then show ?thesis using cb_keepD [OF servesD(1) [OF assms(1)] assms(2)] by (simp add: due_or_def)
next
  case False
  then show ?thesis using assms(3) servesD(2) [OF assms(1,2), of el] by (auto simp: due_or_def)
qed

lemma due_or_callback: "serves E H fd p q Q \<Longrightarrow> cb_closed E (due_or H fd p q Q F)"
  unfolding cb_closed_def by (intro ballI allI impI, rule due_or_step)

definition okeeps :: "('a \<Rightarrow> bool) \<Rightarrow> 'a ae_res \<Rightarrow> bool" where
  "okeeps P r \<longleftrightarrow> (\<forall>x. r = Inr x \<longrightarrow> P x)"

lemma okeeps_simps [simp]: "okeeps P (Inl e)" "okeeps P (Inr x) \<longleftrightarrow> P x"
  by (auto simp: okeeps_def)

lemma okeeps_bind: "okeeps Q r \<Longrightarrow> (\<And>x. Q x \<Longrightarrow> okeeps P (f x)) \<Longrightarrow> okeeps P (rbind r f)"
  by (cases r) auto

lemma okeeps_pure: "(\<And>x. okeeps P (f x)) \<Longrightarrow> okeeps P (rbind r f)"
  by (cases r) auto

lemma okeeps_mark: "okeeps G r \<Longrightarrow> okeeps (\<lambda>(n, el). G el) (rbind r (\<lambda>el. Inr (b, el)))"
  by (erule okeeps_bind) simp

lemma fire_callback:
  assumes "cb_closed E G" "G el"
  shows "okeeps G (fire_read E fd m el)" "okeeps G (fire_write E fd m el)"
  using cb_closedD [OF assms(1) cb_file assms(2)]
  by (auto simp: fire_read_def fire_write_def call_file_def split: option.splits intro!: okeeps_pure)

lemma dispatch_callback:
  assumes G: "cb_closed E G" and "G el"
  shows "okeeps G (dispatch E fd m el)"
proof -
  let ?G = "\<lambda>(n :: bool, el). G el"
  have 1: "okeeps ?G (read_first E i fd m el)" for i
    unfolding read_first_def by (rule okeeps_pure) (use okeeps_mark [OF fire_callback(1) [OF G assms(2)]] assms(2) in auto)
  have 2: "okeeps ?G (write_next E fd m n el)" if "G el" for n el
    unfolding write_next_def by (rule okeeps_pure) (use okeeps_mark [OF fire_callback(2) [OF G that]] that in auto)
  have 3: "okeeps G (read_last E i fd m n el)" if "G el" for i n el
    unfolding read_last_def using fire_callback(1) [OF G that] that by (auto intro: okeeps_pure)
  show ?thesis
    unfolding dispatch_def Let_def
    by (rule okeeps_pure, rule okeeps_bind [OF 1], clarify, rule okeeps_bind [OF 2], assumption, clarify, rule 3)
qed

text \<open>Once \<open>Q\<close> is achieved the calls for the descriptor keep it.\<close>

lemma write_next_keep: "cb_closed E G \<Longrightarrow> G el \<Longrightarrow> okeeps (\<lambda>(n, el). G el) (write_next E fd m n el)"
  unfolding write_next_def using fire_callback(2) [of E G el fd m] by (intro okeeps_pure) (auto intro: okeeps_mark [of G])

lemma read_last_keep: "cb_closed E G \<Longrightarrow> G el \<Longrightarrow> okeeps G (read_last E i fd m n el)"
  unfolding read_last_def using fire_callback(1) [of E G el fd m] by (auto intro: okeeps_pure)

lemma watchingD:
  assumes "watching H fd p q el" "m AND AE_READABLE \<noteq> 0"
  shows "get_fe fd el = Inr (events el ! nat fd)" "rfileProc (events el ! nat fd) = Some p" "wfileProc (events el ! nat fd) = q"
    "fe_mask (events el ! nat fd) AND m AND AE_READABLE \<noteq> 0"
  using assms by (auto simp: watching_def mask_bits bit_and_iff and.assoc [symmetric] get_fe_ok)

lemma serves_keep: "serves E H fd p q Q \<Longrightarrow> cb_closed E (\<lambda>el. Q (world el))"
  using servesD(1) by (fastforce simp: cb_keep_def)

lemma read_serves:
  assumes s: "serves E H fd p q Q" and m: "m AND AE_READABLE \<noteq> 0" and d: "due_or H fd p q Q F el"
  shows "okeeps (\<lambda>el. Q (world el)) (fire_read E fd m el)"
proof (cases "Q (world el)")
  case True
  then show ?thesis using fire_callback(1) [OF serves_keep [OF s]] by blast
next
  case False
  then have "watching H fd p q el" using d by (simp add: due_or_def)
  then show ?thesis using watchingD [OF _ m, of H fd p q el] servesD(3) [OF s] by (simp add: fire_read_def call_file_def)
qed

text \<open>Under \<open>AE_BARRIER\<close> the writable event comes first; if it has the same procedure, that serves.\<close>

lemma write_serves:
  assumes s: "serves E H fd p q Q" and m: "m AND AE_READABLE \<noteq> 0" and w: "watching H fd p q el" and f: "fired el = F"
  shows "okeeps (\<lambda>(n, el1). Q (world el1) \<or> due_or H fd p q Q F el1 \<and> (n \<longrightarrow> q \<noteq> Some p)) (write_next E fd m False el)"
proof (cases q)
  case None
  then show ?thesis using watchingD [OF w m] w f by (auto simp: write_next_def fire_write_def call_file_def due_or_def)
next
  case (Some x)
  let ?el = "run_file E x fd (fe_clientData (events el ! nat fd)) m el"
  have d: "due_or H fd p q Q F el" using w f by (simp add: due_or_def)
  have "due_or H fd p q Q F ?el" by (rule due_or_step [OF s cb_file d])
  then have "Q (world ?el) \<or> due_or H fd p q Q F ?el \<and> q \<noteq> Some p" using servesD(3) [OF s w] Some by blast
  then show ?thesis using watchingD [OF w m] Some d by (auto simp: write_next_def fire_write_def call_file_def)
qed

lemma read_last_serves:
  assumes s: "serves E H fd p q Q" and m: "m AND AE_READABLE \<noteq> 0" and "Q (world el) \<or> due_or H fd p q Q F el \<and> (n \<longrightarrow> q \<noteq> Some p)"
  shows "okeeps (\<lambda>el. Q (world el)) (read_last E True fd m n el)"
proof (cases "Q (world el)")
  case True
  then show ?thesis using read_last_keep [OF serves_keep [OF s]] by blast
next
  case False
  then have w: "watching H fd p q el" "n \<longrightarrow> q \<noteq> Some p" "due_or H fd p q Q F el" using assms(3) by (auto simp: due_or_def)
  then show ?thesis using watchingD [OF w(1) m] read_serves [OF s m w(3)] by (auto simp: read_last_def)
qed

text \<open>The dispatch of the descriptor itself serves it, whatever the order of its events.\<close>

lemma dispatch_serves:
  fixes E :: "('p, 'd, 'w) ae_env" and el :: "('p, 'd, 'w) aeEventLoop"
  assumes s: "serves E H fd p q Q" and m: "m AND AE_READABLE \<noteq> 0" and d: "due_or H fd p q Q F el"
  shows "okeeps (\<lambda>el. Q (world el)) (dispatch E fd m el)"
proof (cases "Q (world el)")
  case True
  then show ?thesis using dispatch_callback [OF serves_keep [OF s]] by blast
next
  let ?Q = "\<lambda>el :: ('p, 'd, 'w) aeEventLoop. Q (world el)"
  case False
  then have el: "watching H fd p q el" "fired el = F" using d by (simp_all add: due_or_def)
  note w = watchingD [OF el(1) m]
  show ?thesis
  proof (cases "fe_mask (events el ! nat fd) AND AE_BARRIER = 0")
    case True
    have 1: "okeeps (\<lambda>(n, el). ?Q el) (read_first E False fd m el)"
      using w okeeps_mark [OF read_serves [OF s m d]] by (simp add: read_first_def)
    have 2: "okeeps ?Q (rbind (write_next E fd m n el1) (\<lambda>(n, el). read_last E False fd m n el))" if "?Q el1" for n el1
    proof (rule okeeps_bind)
      show "okeeps (\<lambda>(n, el). ?Q el) (write_next E fd m n el1)" by (rule write_next_keep [OF serves_keep [OF s] that])
      show "okeeps ?Q ((\<lambda>(n, el). read_last E False fd m n el) x)" if "case x of (n, el) \<Rightarrow> ?Q el" for x
        using that read_last_keep [OF serves_keep [OF s]] by (cases x) simp
    qed
    have "okeeps ?Q (rbind (read_first E False fd m el) (\<lambda>(n, el). rbind (write_next E fd m n el) (\<lambda>(n, el). read_last E False fd m n el)))"
      by (rule okeeps_bind [OF 1]) (use 2 in fast)
    then show ?thesis using True w by (simp add: dispatch_def)
  next
    case False
    have "okeeps ?Q (rbind (write_next E fd m False el) (\<lambda>(n, el). read_last E True fd m n el))"
      by (rule okeeps_bind [OF write_serves [OF s m el]]) (use read_last_serves [OF s m] in fast)
    then show ?thesis using False w by (simp add: dispatch_def read_first_def)
  qed
qed

lemma fired_loop_keep:
  "cb_closed E G \<Longrightarrow> G el \<Longrightarrow> okeeps G (fired_loop E i n el)"
proof (induction n arbitrary: i el)
  case (Suc n)
  have "okeeps G (rbind (dispatch E fd m el) (\<lambda>el. fired_loop E (Suc i) n el))" for fd m
    by (rule okeeps_bind [OF dispatch_callback [OF Suc.prems]]) (use Suc in blast)
  then show ?case by (auto intro: okeeps_pure)
qed simp

lemma fired_loop_serves:
  fixes E :: "('p, 'd, 'w) ae_env" and el :: "('p, 'd, 'w) aeEventLoop"
  assumes s: "serves E H fd p q Q" and m: "m AND AE_READABLE \<noteq> 0" "j < length F" "F ! j = Some (fd, m)"
  shows "due_or H fd p q Q F el \<Longrightarrow> i \<le> j \<Longrightarrow> j < i + n \<Longrightarrow> okeeps (\<lambda>el. Q (world el)) (fired_loop E i n el)"
proof (induction n arbitrary: i el)
  case (Suc n)
  let ?Q = "\<lambda>el :: ('p, 'd, 'w) aeEventLoop. Q (world el)"
  have keep: "cb_closed E ?Q" using servesD(1) [OF s] by (simp add: cb_keep_def)
  show ?case
  proof (cases "Q (world el)")
    case True
    then show ?thesis using fired_loop_keep [OF keep] by blast
  next
    case False
    then have f: "fired el = F" using Suc.prems(1) by (simp add: due_or_def)
    show ?thesis
    proof (cases "i = j")
      case True
      have "okeeps ?Q (rbind (dispatch E fd m el) (\<lambda>el. fired_loop E (Suc i) n el))"
        by (rule okeeps_bind [OF dispatch_serves [OF s m(1) Suc.prems(1)]]) (rule fired_loop_keep [OF keep])
      then show ?thesis using True f m by (simp add: get_fired_def)
    next
      case False
      have "okeeps ?Q (rbind (dispatch E fd' m' el) (\<lambda>el. fired_loop E (Suc i) n el))" for fd' m'
        by (rule okeeps_bind [OF dispatch_callback [OF due_or_callback [OF s] Suc.prems(1)]]) (use Suc False in auto)
      then show ?thesis by (auto intro: okeeps_pure)
    qed
  qed
qed simp

text \<open>The poll reports the descriptor.\<close>

lemma poll_reports:
  assumes inv: "ae_inv el as" and poll: "poll_host E = (\<lambda>w. host_poll (H w))" and w: "watching H fd p q el" and r: "aeApiPoll E el = Inr (n, el')"
  shows "\<exists>j m. j < n \<and> j < length (fired el') \<and> fired el' ! j = Some (fd, m) \<and> m AND AE_READABLE \<noteq> 0 \<and> watching H fd p q el'"
proof -
  let ?fe = "events el ! nat fd"
  define R where "R = host_poll (H (world el)) (ae_interest el) (nat (ae_cap el))"
  define m where "m = poll_ready (H (world el)) fd (fe_mask ?fe)"
  have i: "in_events fd el" "fe_mask ?fe AND AE_READABLE \<noteq> 0" using w by (simp_all add: watching_def)
  have f: "is_maxfd (maxfd el) (events el)" "setsize el \<le> ae_cap el" "setsize el = int (length (events el))" using inv by (simp_all add: ae_inv_def ae_files_def)
  have m1: "m AND AE_READABLE \<noteq> 0" using w by (auto simp: m_def watching_def poll_ready_def mask_bits bit_or_iff split: option.splits if_splits)
  have nz: "fe_mask ?fe \<noteq> AE_NONE" using i(2) by auto
  then have "fd \<le> maxfd el" "0 \<le> fd" using f(1) i(1) by (auto simp: is_maxfd_def in_events_def)
  then have "nat fd \<in> set (filter (\<lambda>fd. fe_mask (events el ! fd) \<noteq> AE_NONE) [0..<nat (maxfd el + 1)])" "int (nat fd) = fd" using nz by auto
  then have "(fd, fe_mask ?fe) \<in> set (ae_interest el)" unfolding ae_interest_def set_map by (metis (no_types, lifting) imageI)
  moreover have "length (filter (\<lambda>(fd, m). m \<noteq> 0) (map (\<lambda>(fd, m). (fd, poll_ready (H (world el)) fd m)) (ae_interest el))) \<le> nat (ae_cap el)"
    by (rule order_trans [OF length_filter_le]) (use interest_bound [OF inv] f in simp)
  moreover have "m \<noteq> 0" using m1 by auto
  ultimately have "(fd, m) \<in> set R" unfolding R_def host_poll_filter m_def by (force simp: image_iff)
  then obtain j where j: "j < length R" "R ! j = (fd, m)" by (auto simp: in_set_conv_nth)
  have e: "n = length R" "el' = el\<lparr>fired := map Some R @ drop (length R) (fired el)\<rparr>"
    using r \<open>(fd, fe_mask ?fe) \<in> set (ae_interest el)\<close> by (auto simp: aeApiPoll_def Let_def poll R_def split: if_splits)
  have "watching H fd p q el'" using w unfolding e by (simp add: watching_def in_events_def)
  then show ?thesis using j m1 unfolding e by (intro exI [of _ j] exI [of _ m]) (auto simp: nth_append)
qed

lemma do_poll_keep:
  assumes "flags AND AE_DONT_WAIT \<noteq> 0" "cb_keep E Q" "Q (world el)"
  shows "wkeeps Q (do_poll E flags el)"
proof (cases "custompoll el")
  case None
  then show ?thesis using assms by (auto simp: do_poll_def aeApiPoll_def Let_def wkeeps_def rbind_Inr split: if_splits)
next
  case (Some p)
  have "Q (world (snd (run_poll E p el)))" using assms(2,3) by (simp add: cb_keep_def)
  then show ?thesis using Some by (cases "run_poll E p el") (simp add: do_poll_def)
qed

text \<open>After the poll the descriptor is served or reported.\<close>

lemma do_poll_serves:
  assumes "ae_callbacks E" "ae_inv el as" "poll_host E = (\<lambda>w. host_poll (H w))" "serves E H fd p q Q" "flags AND AE_DONT_WAIT \<noteq> 0"
    "due_or H fd p q Q (fired el) el"
  shows "okeeps (\<lambda>(n, el'). Q (world el') \<or> (\<exists>j m. j < nat n \<and> j < length (fired el') \<and> fired el' ! j = Some (fd, m) \<and> m AND AE_READABLE \<noteq> 0 \<and> watching H fd p q el')) (do_poll E flags el)"
proof (cases "Q (world el)")
  case True
  then show ?thesis using do_poll_keep [OF assms(5) servesD(1) [OF assms(4)]] by (auto simp: wkeeps_def okeeps_def)
next
  case False
  then have w: "watching H fd p q el" using assms(6) by (simp add: due_or_def)
  then have "do_poll E flags el = rbind (aeApiPoll E el) (\<lambda>(n, el). Inr (int n, el))" using assms(5) by (simp add: do_poll_def watching_def)
  then show ?thesis using poll_reports [OF assms(2,3) w] by (auto simp: okeeps_def rbind_Inr) 
qed

lemma ensures_okeeps: "ensures r P \<Longrightarrow> okeeps Q r \<Longrightarrow> ensures r Q"
  by (auto simp: ensures_def)

lemma hook_callback: "cb_closed E G \<Longrightarrow> G el \<Longrightarrow> G (call_before E flags el)" "cb_closed E G \<Longrightarrow> G el \<Longrightarrow> G (call_after E flags n el)"
  using cb_closedD [OF _ cb_before] cb_closedD [OF _ cb_after] by (auto simp: call_before_def call_after_def split: option.splits)

lemma files_serve:
  fixes E :: "('p, 'd, 'w) ae_env"
  assumes s: "serves E H fd p q Q" and "flags AND AE_FILE_EVENTS \<noteq> 0"
    and "Q (world el) \<or> (\<exists>j m. j < nat n \<and> j < length (fired el) \<and> fired el ! j = Some (fd, m) \<and> m AND AE_READABLE \<noteq> 0 \<and> watching H fd p q el)"
  shows "okeeps (\<lambda>el. Q (world el)) (fired_loop E 0 (nat n) (call_after E flags n el))"
  using assms(3)
proof
  let ?Q = "\<lambda>el :: ('p, 'd, 'w) aeEventLoop. Q (world el)"
  have keep: "cb_closed E ?Q" using servesD(1) [OF s] by (simp add: cb_keep_def)
  assume "Q (world el)"
  then have "Q (world (call_after E flags n el))" using hook_callback(2) [OF keep] by blast
  then show ?thesis using fired_loop_keep [OF keep] by blast
next
  assume "\<exists>j m. j < nat n \<and> j < length (fired el) \<and> fired el ! j = Some (fd, m) \<and> m AND AE_READABLE \<noteq> 0 \<and> watching H fd p q el"
  then obtain j m where j: "j < nat n" "j < length (fired el)" "fired el ! j = Some (fd, m)" "m AND AE_READABLE \<noteq> 0" "watching H fd p q el" by blast
  have "due_or H fd p q Q (fired el) (call_after E flags n el)"
    by (rule hook_callback(2) [OF due_or_callback [OF s]]) (use j in \<open>simp add: due_or_def\<close>)
  then show ?thesis using fired_loop_serves [OF s j(4,2,3)] j(1) by simp
qed

lemma rk_step_serves:
  fixes E :: "('p, 'd, 'w) ae_env"
  assumes cb: "ae_callbacks E" and inv: "ae_inv el as" and poll: "poll_host E = (\<lambda>w. host_poll (H w))"
    and s: "serves E H fd p q Q" and w: "watching H fd p q el"
  shows "ensures (rk_step E el) (\<lambda>(n, el'). Q (world el'))"
proof -
  let ?f = "AE_ALL_EVENTS OR AE_DONT_WAIT OR AE_CALL_BEFORE_SLEEP OR AE_CALL_AFTER_SLEEP" and ?Q = "\<lambda>(n :: nat, el :: ('p, 'd, 'w) aeEventLoop). Q (world el)"
  have "ensures (rk_step E el) (\<lambda>(n, el'). ae_post el as el')"
    unfolding rk_step_def by (rule ae_callbacks.aeProcessEvents_ok [OF cb inv]) simp
  moreover have "okeeps ?Q (rk_step E el)"
  proof -
    let ?el = "call_before E ?f el"
    obtain as1 where i1: "ae_inv ?el as1" using ae_post_inv [OF ae_callbacks.call_hooks_ok(1) [OF cb inv]] by blast
    have "due_or H fd p q Q (fired el) ?el" by (rule hook_callback(1) [OF due_or_callback [OF s]]) (use w in \<open>simp add: due_or_def\<close>)
    then have d: "due_or H fd p q Q (fired ?el) ?el" by (auto simp: due_or_def)
    have files: "okeeps ?Q (rbind (do_poll E ?f ?el) (\<lambda>(n, el). rbind (fired_loop E 0 (nat n) (call_after E ?f n el)) (\<lambda>el. Inr (nat n, el))))"
      by (rule okeeps_bind [OF do_poll_serves [OF cb i1 poll s _ d]], simp, clarify, rule okeeps_bind [OF files_serve [OF s]]) auto
    have m: "maxfd el \<noteq> -1" using w inv by (force simp: watching_def ae_inv_def ae_files_def is_maxfd_def in_events_def)
    have "okeeps ?Q (rbind (rbind (do_poll E ?f ?el) (\<lambda>(n, el). rbind (fired_loop E 0 (nat n) (call_after E ?f n el)) (\<lambda>el. Inr (nat n, el))))
       (\<lambda>(k, el). rbind (processTimeEvents E el) (\<lambda>(n, el). Inr (k + n, el))))"
    proof (rule okeeps_bind [OF files], clarify)
      fix k and el1 :: "('p, 'd, 'w) aeEventLoop"
      assume "Q (world el1)"
      then show "okeeps ?Q (rbind (processTimeEvents E el1) (\<lambda>(n, el). Inr (k + n, el)))"
        using world_processTimeEvents [OF servesD(1) [OF s]] by (auto simp: okeeps_def wkeeps_def rbind_Inr)
    qed
    then show ?thesis using m by (simp add: rk_step_def aeProcessEvents_def)
  qed
  ultimately show ?thesis by (rule ensures_okeeps)
qed

section \<open>The event loop in the host\<close>

record 'v node =
  n_host :: host
  n_app :: 'v

definition on_host :: "(host \<Rightarrow> host) \<Rightarrow> ('p, 'd, 'v node) aeEventLoop \<Rightarrow> ('p, 'd, 'v node) aeEventLoop" where
  "on_host f el = el\<lparr>world := (world el)\<lparr>n_host := f (n_host (world el))\<rparr>\<rparr>"

text \<open>\<open>step\<close> and the microtask that \<open>scheduleStep\<close> queues.\<close>

definition step_task :: "('p, 'd, 'v node) ae_env \<Rightarrow> ('p, 'd, 'v node) aeEventLoop \<Rightarrow> ('p, 'd, 'v node) aeEventLoop ae_res" where
  "step_task E el = (if hclosed (n_host (world el)) then Inr el else rbind (rk_step E el) (\<lambda>(n, el). Inr el))"

definition microtask :: "('p, 'd, 'v node) ae_env \<Rightarrow> ('p, 'd, 'v node) aeEventLoop \<Rightarrow> ('p, 'd, 'v node) aeEventLoop ae_res" where
  "microtask E el = step_task E (on_host (\<lambda>h. h\<lparr>stepScheduled := False\<rparr>) el)"

text \<open>The events of \<open>node:net\<close>, as against the imports called by the module.\<close>

fun socket_event :: "hevent \<Rightarrow> bool" where
  "socket_event (Connect l) = True" | "socket_event (Data fd b) = True" | "socket_event (End fd) = True"
| "socket_event (Closed fd) = True" | "socket_event (Failed fd) = True" | "socket_event (Drain fd) = True"
| "socket_event _ = False"

definition node_events :: "int \<Rightarrow> hevent list \<Rightarrow> ('p, 'd, 'v node) aeEventLoop \<Rightarrow> ('p, 'd, 'v node) aeEventLoop" where
  "node_events port evs = on_host (\<lambda>h. snd (hrun port evs h))"

text \<open>Input is buffered for a connection, and a step is queued.\<close>

definition input_due :: "int \<Rightarrow> host \<Rightarrow> bool" where
  "input_due fd h \<longleftrightarrow> fd < nextFd h \<and> listeners h fd = None \<and> stepScheduled h \<and> \<not> hclosed h
     \<and> (\<exists>s. socks h fd = Some s \<and> sr_chunks s \<noteq> [])"

lemma schedule_flags [simp]: "\<not> hclosed h \<Longrightarrow> stepScheduled (scheduleStep h)" "stepScheduled h \<Longrightarrow> scheduleStep h = h"
  by (simp_all add: scheduleStep_def)

lemma upd_sock_simps [simp]:
  "nextFd (upd_sock fd f h) = nextFd h" "listeners (upd_sock fd f h) = listeners h" "stepScheduled (upd_sock fd f h) = stepScheduled h"
  "hclosed (upd_sock fd f h) = hclosed h"
  by (simp_all add: upd_sock_def)

lemma input_due_event: "input_due fd h \<Longrightarrow> socket_event ev \<Longrightarrow> input_due fd (snd (hstep port ev h))"
  by (cases ev) (auto simp: input_due_def hstep_def on_connection_def allocFd_def on_data_def on_end_def on_close_def on_error_def on_drain_def
      upd_sock_def Let_def split: option.splits)

lemma input_due_events: "input_due fd h \<Longrightarrow> list_all socket_event evs \<Longrightarrow> input_due fd (snd (hrun port evs h))"
proof (induction evs arbitrary: h)
  case (Cons ev evs)
  then show ?case using input_due_event by (auto simp: Let_def split: prod.splits) (metis snd_conv)
qed simp

lemma input_due_data:
  "fd < nextFd h \<Longrightarrow> listeners h fd = None \<Longrightarrow> \<not> hclosed h \<Longrightarrow> socks h fd = Some s \<Longrightarrow> input_due fd (on_data fd buf h)"
  by (simp add: input_due_def on_data_def) (simp add: upd_sock_def)

lemma input_due_ready: "input_due fd h \<Longrightarrow> poll_ready h fd AE_READABLE \<noteq> 0"
  by (auto simp: input_due_def poll_ready_def)

lemma poll_ready_flag [simp]: "poll_ready (h\<lparr>stepScheduled := b\<rparr>) fd m = poll_ready h fd m"
  by (simp add: poll_ready_def split: option.splits)

definition registered :: "int \<Rightarrow> 'p \<Rightarrow> 'p option \<Rightarrow> ('p, 'd, 'w) aeEventLoop \<Rightarrow> bool" where
  "registered fd p q el \<longleftrightarrow> in_events fd el \<and> fe_mask (events el ! nat fd) AND AE_READABLE \<noteq> 0 \<and> rfileProc (events el ! nat fd) = Some p
     \<and> wfileProc (events el ! nat fd) = q \<and> custompoll el = None"

lemma microtask_serves:
  assumes "ae_callbacks E" "poll_host E = (\<lambda>w. host_poll (n_host w))" "serves E n_host fd p q Q" "ae_inv el as" "registered fd p q el"
    "input_due fd (n_host (world el))"
  shows "ensures (microtask E el) (\<lambda>el'. Q (world el'))"
proof -
  let ?el = "on_host (\<lambda>h. h\<lparr>stepScheduled := False\<rparr>) el"
  have "poll_ready (n_host (world el)) fd AE_READABLE \<noteq> 0" by (rule input_due_ready [OF assms(6)])
  then have w: "watching n_host fd p q ?el" using assms(5) by (simp add: watching_def registered_def on_host_def in_events_def)
  have i: "ae_inv ?el as" using assms(4) by (simp add: on_host_def)
  have "ensures (rbind (rk_step E ?el) (\<lambda>(n, el). Inr el)) (\<lambda>el'. Q (world el'))"
    by (rule ensures_bind [OF rk_step_serves [OF assms(1) i assms(2,3) w]]) auto
  then show ?thesis using assms(6) by (simp add: microtask_def step_task_def on_host_def input_due_def)
qed

lemma app_env_poll: "poll_host (app_env A k) = (\<lambda>w. host_poll (app_host A w))"
  by (simp add: app_env_def env_over_def base_env_def)

section \<open>Descriptors run out\<close>

definition is_connect :: "hevent \<Rightarrow> bool" where
  "is_connect ev = (case ev of Connect l \<Rightarrow> True | _ \<Rightarrow> False)"

lemma nextFd_step: "nextFd h + (if is_connect ev then 1 else 0) \<le> nextFd (snd (hstep port ev h))"
  by (cases ev) (auto simp: is_connect_def hstep_def on_connection_def allocFd_def on_data_def on_end_def on_close_def on_error_def on_drain_def
      host_socket_def host_listen_def host_accept_def host_read_def host_write_def host_close_def Let_def split: option.splits prod.splits list.splits)

lemma nextFd_run: "nextFd h + int (length (filter is_connect evs)) \<le> nextFd (snd (hrun port evs h))"
proof (induction evs arbitrary: h)
  case (Cons ev evs)
  show ?case using nextFd_step [of h ev port] Cons.IH [of "snd (hstep port ev h)"]
    by (auto simp: Let_def split: prod.splits if_splits)
qed simp

lemma imports_keep_flag: "\<not> socket_event ev \<Longrightarrow> stepScheduled (snd (hstep port ev h)) = stepScheduled h"
  by (cases ev) (auto simp: hstep_def allocFd_def host_socket_def host_listen_def host_accept_def host_read_def host_write_def host_close_def
      Let_def split: option.splits prod.splits list.splits)

section \<open>Properties\<close>


definition demo_app :: "(nat, unit, nat node) app" where
  "demo_app = \<lparr>app_file = (\<lambda>p fd d m. Call (Effect (\<lambda>w. w\<lparr>n_app := n_app w + 1\<rparr>)) (\<lambda>el. Return 0)),
     app_time = (\<lambda>p i d. Call (Nested AE_FILE_EVENTS) (\<lambda>el. Return 100)), app_fin = (\<lambda>p d. Return 0),
     app_hook = (\<lambda>p n. Return 0), app_clock = (\<lambda>w. (0, w)), app_alloc = first_free, app_host = n_host\<rparr>"

definition demo_init :: "(nat, unit, nat node) prog" where
  "demo_init = Call (CreateTimer 1 0 () None) (\<lambda>el. Call (CreateFile 4097 AE_READABLE 1 None) (\<lambda>el. Return 0))"

definition demo_world :: "nat node" where
  "demo_world = \<lparr>n_host = host_demo, n_app = 0\<rparr>"



text \<open>C37: The time until the earliest timer, when one is live; when every timer of the list is marked
  deleted, the null pointer \<open>earliest\<close> is dereferenced.\<close>

theorem usUntilEarliestTimer_correct:
  assumes "ae_inv el as" "monotonic E (world el) = (now, w)"
  shows "usUntilEarliestTimer E el =
    (let whens = live_whens (te_heap el) as in
     if as = [] then Inr (-1, el)
     else if whens = [] then Inl AE_UB
     else Inr (if Min (set whens) \<le> now then 0 else sint (Min (set whens) - now), el\<lparr>world := w\<rparr>))"
proof -
  have s: "te_seg (te_heap el) None (timeEventHead el) None as" by (rule ae_inv_seg0 [OF assms(1)])
  obtain e where e: "earliest_loop (te_fuel el) (timeEventHead el) None (te_heap el) = Inr e"
    "map_option te_when e = (if live_whens (te_heap el) as = [] then None else Some (Min (set (live_whens (te_heap el) as))))"
    using earliest_loop_fold [OF s te_fuel_enough [OF assms(1)], of None] by (auto simp: fold_earlier)
  have h: "timeEventHead el = None \<longleftrightarrow> as = []" using s by (cases as) auto
  show ?thesis
    using e h assms(2) by (cases e) (auto simp: usUntilEarliestTimer_def getMonotonicUs_def Let_def split: if_splits)
qed

definition deleted_timer :: "(nat, unit) aeTimeEvent" where
  "deleted_timer = \<lparr>te_id = -1, te_when = 5, timeProc = 0, finalizerProc = None, te_clientData = (), te_prev = None, te_next = None, te_refcount = 0\<rparr>"

definition deleted_loop :: "(nat, unit, nat node) aeEventLoop" where
  "deleted_loop = (aeCreateEventLoop 0 0 demo_world)\<lparr>timeEventNextId := 2, timeEventHead := Some 7, te_heap := [7 \<mapsto> deleted_timer]\<rparr>"

theorem usUntilEarliestTimer_correct_witness:
  "usUntilEarliestTimer (app_env demo_app 0) deleted_loop = Inl AE_UB"
proof -
  have "ae_inv deleted_loop [7]"
    by (simp add: deleted_loop_def deleted_timer_def ae_inv_def ae_files_def ae_timers_def te_ids_def aeCreateEventLoop_def is_maxfd_def aeApiResize_def)
  then show ?thesis
    using usUntilEarliestTimer_correct [of deleted_loop "[7]" "app_env demo_app 0" 0 demo_world]
    by (simp add: deleted_loop_def deleted_timer_def app_env_def env_over_def base_env_def demo_app_def aeCreateEventLoop_def)
qed


definition order_env :: "(nat, unit, nat list) ae_env" where
  "order_env = \<lparr>run_file = (\<lambda>p fd d m el. el\<lparr>world := world el @ [p]\<rparr>), run_time = (\<lambda>p i d el. (-1, el)), run_fin = (\<lambda>p d el. el),
     run_before = (\<lambda>p el. el), run_after = (\<lambda>p n el. el), run_poll = (\<lambda>p el. (0, el)), monotonic = (\<lambda>w. (0, w)),
     poll_host = (\<lambda>w i c. []), new_te = (\<lambda>el. 0)\<rparr>"

definition order_loop :: "(nat, unit, nat list) aeEventLoop" where
  "order_loop = (aeCreateEventLoop 1 0 [])\<lparr>maxfd := 0,
     events := [\<lparr>fe_mask = 7, rfileProc = Some 1, wfileProc = Some 2, fe_clientData = None\<rparr>]\<rparr>"


text \<open>C38: Descriptors run out.  The host never uses a descriptor again, so after as many connections as
  the set has places above \<open>HOST_FD_BASE\<close>, closed or not, every further connection gets a descriptor
  that \<open>aeCreateFileEvent\<close> refuses.\<close>

theorem fd_space_exhausted:
  assumes "setsize el \<le> HOST_FD_BASE + int (length (filter is_connect evs))"
  shows "let h = snd (hrun port evs host_init); fd = nextFd h in
    socks (on_connection lfd h) fd = Some new_sock \<and> aeCreateFileEvent fd m p d el = Inr (AE_ERR, el)"
proof -
  have "HOST_FD_BASE + int (length (filter is_connect evs)) \<le> nextFd (snd (hrun port evs host_init))"
    using nextFd_run [of host_init evs port] by (simp add: host_init_def)
  then show ?thesis using assms by (simp add: allocFd_def on_connection_def aeCreateFileEvent_def Let_def)
qed

theorem fd_space_exhausted_witness:
  "let fd = nextFd (snd (hrun 6379 [Connect 4096, HAccept 4096, HClose 4096, Connect 4096] host_init)) in
   aeCreateFileEvent fd AE_READABLE (0 :: nat) None (aeCreateEventLoop 4098 0 ()) = Inr (AE_ERR, aeCreateEventLoop 4098 0 () :: (nat, unit, unit) aeEventLoop)"
  using fd_space_exhausted [of "aeCreateEventLoop 4098 0 () :: (nat, unit, unit) aeEventLoop" "[Connect 4096, HAccept 4096, HClose 4096, Connect 4096]" 6379 4096 AE_READABLE 0 None]
  by (simp add: aeCreateEventLoop_def is_connect_def Let_def del: hrun.simps)

text \<open>C39: A pass schedules nothing.  No function the module imports queues a step, whatever it reads,
  writes or leaves unread: the work a pass leaves behind waits for the next socket event or for the
  periodic timer.\<close>

theorem pass_rearms_nothing:
  assumes "list_all (\<lambda>ev. \<not> socket_event ev) evs"
  shows "stepScheduled (snd (hrun port evs h)) = stepScheduled h"
  using assms
proof (induction evs arbitrary: h)
  case (Cons ev evs)
  have "stepScheduled (snd (hrun port evs (snd (hstep port ev h)))) = stepScheduled h"
    using Cons imports_keep_flag by simp
  then show ?case by (simp add: Let_def split: prod.splits) (metis snd_conv)
qed simp

theorem pass_rearms_nothing_witness:
  "\<not> stepScheduled (snd (hrun 6379 [HAccept 4096, HRead 4097 1, HWrite 4097 [1] True] (host_demo\<lparr>stepScheduled := False\<rparr>)))"
  using pass_rearms_nothing [of "[HAccept 4096, HRead 4097 1, HWrite 4097 [1] True]" 6379 "host_demo\<lparr>stepScheduled := False\<rparr>"] by simp

definition wake_loop :: "(nat, unit, nat node) aeEventLoop" where
  "wake_loop = settle (aeCreateEventLoop 4098 0 demo_world)
     (rbind (aeCreateFileEvent 4097 AE_READABLE 1 None (aeCreateEventLoop 4098 0 demo_world)) (\<lambda>(r, el). Inr el))"

lemma wake_loop:
  "ae_inv wake_loop []" "registered 4097 1 None wake_loop" "world wake_loop = demo_world"
proof -
  let ?el = "aeCreateEventLoop 4098 0 demo_world :: (nat, unit, nat node) aeEventLoop"
  have "ensures (rbind (aeCreateFileEvent 4097 AE_READABLE 1 None ?el) (\<lambda>(r, el). Inr el)) (\<lambda>el. ae_inv el [])"
    by (rule ensures_bind [OF aeCreateFileEvent_keep [OF ae_inv_create]]) auto
  then show "ae_inv wake_loop []" unfolding wake_loop_def by (rule ensures_settle)
  have e: "wake_loop = (set_fe 4097 \<lparr>fe_mask = 1, rfileProc = Some 1, wfileProc = None, fe_clientData = None\<rparr> ?el)\<lparr>maxfd := 4097\<rparr>"
    by (simp add: wake_loop_def settle_def aeCreateFileEvent_def get_fe_def in_events_def aeCreateEventLoop_def fe_uninit_def set_fe_def)
  show "registered 4097 1 None wake_loop" "world wake_loop = demo_world"
    unfolding e by (simp_all add: registered_def in_events_def set_fe_def aeCreateEventLoop_def)
qed

lemma demo_callbacks: "c \<in> callbacks (app_env demo_app 0) \<Longrightarrow> c = (\<lambda>el. el) \<or> c = (\<lambda>el. el\<lparr>world := (world el)\<lparr>n_app := n_app (world el) + 1\<rparr>\<rparr>)"
  by (erule callbacks.cases) (auto simp: app_env_def env_over_def base_env_def demo_app_def fun_eq_iff getMonotonicUs_def)

lemma demo_serves: "serves (app_env demo_app 0) n_host 4097 1 None (\<lambda>w. 0 < n_app w)"
proof -
  have "0 < n_app (world (snd (run_poll (app_env demo_app 0) p el)))" if "0 < n_app (world el)" for p and el :: "(nat, unit, nat node) aeEventLoop"
    using that by (auto simp: app_env_def env_over_def settle_def aePoll_def aeApiPoll_def Let_def split: sum.splits)
  then have "cb_keep (app_env demo_app 0) (\<lambda>w. 0 < n_app w)"
    using demo_callbacks by (fastforce simp: cb_keep_def cb_closed_def)
  moreover have "0 < n_app (world (run_file (app_env demo_app 0) p fd d m el))" for p fd d m el
    by (simp add: app_env_def env_over_def demo_app_def)
  ultimately show ?thesis using demo_callbacks by (fastforce simp: serves_def)
qed


end
