(* ===== verification/Adlist.thy ===== *)
theory Adlist
  imports Linked Sequence
begin

text \<open>
  The generic doubly linked list (\<^verbatim>\<open>adlist.c\<close>, \<^verbatim>\<open>adlist.h\<close>).  Nodes live in a store of addresses; a
  list is its header record.  Values are opaque, as the \<open>void *\<close> of the code; the values passed to
  the free method are recorded in order.  The allocator is an argument that returns a free address
  (\<open>zmalloc\<close> aborts instead of returning NULL, so the branches for NULL are not taken).  The length is
  an \<open>unsigned long\<close> of 32 bits.  An access through a null or freed pointer is \<open>AL_UB\<close>, a failed
  assertion \<open>AL_ASSERT\<close>; \<open>AL_FUEL\<close> marks an iteration longer than the length of the list.
\<close>

section \<open>The state\<close>

datatype al_error = AL_UB | AL_ASSERT | AL_FUEL

type_synonym 'a al_res = "al_error + 'a"

record 'v listNode =
  ln_prev :: "nat option"
  ln_next :: "nat option"
  ln_value :: 'v

record 'v list_rec =
  l_head :: "nat option"
  l_tail :: "nat option"
  l_dup :: "('v \<Rightarrow> 'v option) option"
  l_free :: bool
  l_match :: "('v \<Rightarrow> 'v \<Rightarrow> bool) option"
  l_len :: nat

record 'v al_store =
  al_nodes :: "nat \<rightharpoonup> 'v listNode"
  al_freed :: "'v list"

record listIter =
  li_next :: "nat option"
  li_head :: bool

definition nd_get :: "nat option \<Rightarrow> 'v al_store \<Rightarrow> 'v listNode al_res" where
  "nd_get q s = (case q of None \<Rightarrow> Inl AL_UB | Some a \<Rightarrow> (case al_nodes s a of None \<Rightarrow> Inl AL_UB | Some n \<Rightarrow> Inr n))"

definition nd_set :: "nat \<Rightarrow> 'v listNode \<Rightarrow> 'v al_store \<Rightarrow> 'v al_store" where
  "nd_set a n s = s\<lparr>al_nodes := (al_nodes s)(a \<mapsto> n)\<rparr>"

text \<open>A write through a pointer.\<close>

definition nd_upd :: "nat option \<Rightarrow> ('v listNode \<Rightarrow> 'v listNode) \<Rightarrow> 'v al_store \<Rightarrow> 'v al_store al_res" where
  "nd_upd q f s = rbind (nd_get q s) (\<lambda>n. Inr (nd_set (the q) (f n) s))"

definition al_assert :: "bool \<Rightarrow> unit al_res" where
  "al_assert b = (if b then Inr () else Inl AL_ASSERT)"

definition zfree :: "nat \<Rightarrow> 'v al_store \<Rightarrow> 'v al_store" where
  "zfree a s = s\<lparr>al_nodes := (al_nodes s)(a := None)\<rparr>"

definition len_add :: "nat \<Rightarrow> nat \<Rightarrow> nat" where
  "len_add n k = (n + k) mod 2 ^ 32"

section \<open>Creating, emptying\<close>

definition listCreate :: "'v list_rec" where
  "listCreate = \<lparr>l_head = None, l_tail = None, l_dup = None, l_free = False, l_match = None, l_len = 0\<rparr>"

definition call_free :: "'v list_rec \<Rightarrow> 'v \<Rightarrow> 'v al_store \<Rightarrow> 'v al_store" where
  "call_free l v s = (if l_free l then s\<lparr>al_freed := al_freed s @ [v]\<rparr> else s)"

fun empty_loop :: "nat \<Rightarrow> nat option \<Rightarrow> 'v list_rec \<Rightarrow> 'v al_store \<Rightarrow> 'v al_store al_res" where
  "empty_loop 0 current l s = Inr s"
| "empty_loop (Suc len) current l s = rbind (nd_get current s) (\<lambda>n.
     empty_loop len (ln_next n) l (zfree (the current) (call_free l (ln_value n) s)))"

definition listEmpty :: "'v list_rec \<Rightarrow> 'v al_store \<Rightarrow> ('v list_rec \<times> 'v al_store) al_res" where
  "listEmpty l s = rbind (empty_loop (l_len l) (l_head l) l s) (\<lambda>s.
     Inr (l\<lparr>l_head := None, l_tail := None, l_len := 0\<rparr>, s))"

definition listRelease :: "'v list_rec \<Rightarrow> 'v al_store \<Rightarrow> 'v al_store al_res" where
  "listRelease l s = rbind (listEmpty l s) (\<lambda>(l, s). Inr s)"

section \<open>Adding nodes\<close>

definition listInitNode :: "nat \<Rightarrow> 'v \<Rightarrow> 'v al_store \<Rightarrow> 'v al_store" where
  "listInitNode a v s = nd_set a \<lparr>ln_prev = None, ln_next = None, ln_value = v\<rparr> s"

definition listLinkNodeHead :: "nat \<Rightarrow> 'v list_rec \<Rightarrow> 'v al_store \<Rightarrow> ('v list_rec \<times> 'v al_store) al_res" where
  "listLinkNodeHead a l s = rbind
     (if l_len l = 0 then
        rbind (nd_upd (Some a) (\<lambda>n. n\<lparr>ln_prev := None, ln_next := None\<rparr>) s) (\<lambda>s.
          Inr (l\<lparr>l_head := Some a, l_tail := Some a\<rparr>, s))
      else
        rbind (nd_upd (Some a) (\<lambda>n. n\<lparr>ln_prev := None, ln_next := l_head l\<rparr>) s) (\<lambda>s.
        rbind (nd_upd (l_head l) (\<lambda>n. n\<lparr>ln_prev := Some a\<rparr>) s) (\<lambda>s.
          Inr (l\<lparr>l_head := Some a\<rparr>, s)))) (\<lambda>(l, s).
     Inr (l\<lparr>l_len := len_add (l_len l) 1\<rparr>, s))"

definition listLinkNodeTail :: "nat \<Rightarrow> 'v list_rec \<Rightarrow> 'v al_store \<Rightarrow> ('v list_rec \<times> 'v al_store) al_res" where
  "listLinkNodeTail a l s = rbind
     (if l_len l = 0 then
        rbind (nd_upd (Some a) (\<lambda>n. n\<lparr>ln_prev := None, ln_next := None\<rparr>) s) (\<lambda>s.
          Inr (l\<lparr>l_head := Some a, l_tail := Some a\<rparr>, s))
      else
        rbind (nd_upd (Some a) (\<lambda>n. n\<lparr>ln_prev := l_tail l, ln_next := None\<rparr>) s) (\<lambda>s.
        rbind (nd_upd (l_tail l) (\<lambda>n. n\<lparr>ln_next := Some a\<rparr>) s) (\<lambda>s.
          Inr (l\<lparr>l_tail := Some a\<rparr>, s)))) (\<lambda>(l, s).
     Inr (l\<lparr>l_len := len_add (l_len l) 1\<rparr>, s))"

text \<open>\<open>al\<close> is the allocator.  The links of the fresh node are written before they are read.\<close>

definition listAddNodeHead :: "('v al_store \<Rightarrow> nat) \<Rightarrow> 'v \<Rightarrow> 'v list_rec \<Rightarrow> 'v al_store \<Rightarrow> ('v list_rec \<times> 'v al_store) al_res" where
  "listAddNodeHead al v l s = listLinkNodeHead (al s) l (listInitNode (al s) v s)"

definition listAddNodeTail :: "('v al_store \<Rightarrow> nat) \<Rightarrow> 'v \<Rightarrow> 'v list_rec \<Rightarrow> 'v al_store \<Rightarrow> ('v list_rec \<times> 'v al_store) al_res" where
  "listAddNodeTail al v l s = listLinkNodeTail (al s) l (listInitNode (al s) v s)"

definition nd_upd_opt :: "nat option \<Rightarrow> ('v listNode \<Rightarrow> 'v listNode) \<Rightarrow> 'v al_store \<Rightarrow> 'v al_store al_res" where
  "nd_upd_opt q f s = (if q = None then Inr s else nd_upd q f s)"

definition listInsertNode :: "('v al_store \<Rightarrow> nat) \<Rightarrow> nat \<Rightarrow> 'v \<Rightarrow> bool \<Rightarrow> 'v list_rec \<Rightarrow> 'v al_store \<Rightarrow> ('v list_rec \<times> 'v al_store) al_res" where
  "listInsertNode al old v after l s =
     (let a = al s in
      rbind (nd_get (Some old) s) (\<lambda>od.
      let node = (if after then \<lparr>ln_prev = Some old, ln_next = ln_next od, ln_value = v\<rparr>
                  else \<lparr>ln_prev = ln_prev od, ln_next = Some old, ln_value = v\<rparr>);
          l = (if after then (if l_tail l = Some old then l\<lparr>l_tail := Some a\<rparr> else l)
               else (if l_head l = Some old then l\<lparr>l_head := Some a\<rparr> else l));
          s = nd_set a node s
      in rbind (nd_upd_opt (ln_prev node) (\<lambda>n. n\<lparr>ln_next := Some a\<rparr>) s) (\<lambda>s.
         rbind (nd_upd_opt (ln_next node) (\<lambda>n. n\<lparr>ln_prev := Some a\<rparr>) s) (\<lambda>s.
         Inr (l\<lparr>l_len := len_add (l_len l) 1\<rparr>, s)))))"

section \<open>Removing nodes\<close>

definition listUnlinkNode :: "nat \<Rightarrow> 'v list_rec \<Rightarrow> 'v al_store \<Rightarrow> ('v list_rec \<times> 'v al_store) al_res" where
  "listUnlinkNode a l s =
     rbind (al_assert (l_len l > 0)) (\<lambda>_.
     rbind (nd_get (Some a) s) (\<lambda>node.
     rbind (if ln_prev node \<noteq> None then
              rbind (nd_get (ln_prev node) s) (\<lambda>p. rbind (al_assert (ln_next p = Some a)) (\<lambda>_.
              rbind (nd_upd (ln_prev node) (\<lambda>p. p\<lparr>ln_next := ln_next node\<rparr>) s) (\<lambda>s. Inr (l, s))))
            else rbind (al_assert (l_head l = Some a)) (\<lambda>_. Inr (l\<lparr>l_head := ln_next node\<rparr>, s))) (\<lambda>(l, s).
     rbind (if ln_next node \<noteq> None then
              rbind (nd_get (ln_next node) s) (\<lambda>n. rbind (al_assert (ln_prev n = Some a)) (\<lambda>_.
              rbind (nd_upd (ln_next node) (\<lambda>n. n\<lparr>ln_prev := ln_prev node\<rparr>) s) (\<lambda>s. Inr (l, s))))
            else rbind (al_assert (l_tail l = Some a)) (\<lambda>_. Inr (l\<lparr>l_tail := ln_prev node\<rparr>, s))) (\<lambda>(l, s).
     rbind (nd_upd (Some a) (\<lambda>n. n\<lparr>ln_next := None, ln_prev := None\<rparr>) s) (\<lambda>s.
     Inr (l\<lparr>l_len := l_len l - 1\<rparr>, s))))))"

definition listDelNode :: "nat \<Rightarrow> 'v list_rec \<Rightarrow> 'v al_store \<Rightarrow> ('v list_rec \<times> 'v al_store) al_res" where
  "listDelNode a l s = rbind (listUnlinkNode a l s) (\<lambda>(l, s).
     rbind (nd_get (Some a) s) (\<lambda>n. Inr (l, zfree a (call_free l (ln_value n) s))))"

section \<open>Iterating\<close>

definition listGetIterator :: "'v list_rec \<Rightarrow> bool \<Rightarrow> listIter" where
  "listGetIterator l head = \<lparr>li_next = (if head then l_head l else l_tail l), li_head = head\<rparr>"

definition listRewind :: "'v list_rec \<Rightarrow> listIter" where
  "listRewind l = \<lparr>li_next = l_head l, li_head = True\<rparr>"

definition listRewindTail :: "'v list_rec \<Rightarrow> listIter" where
  "listRewindTail l = \<lparr>li_next = l_tail l, li_head = False\<rparr>"

definition listNext :: "listIter \<Rightarrow> 'v al_store \<Rightarrow> (nat option \<times> listIter) al_res" where
  "listNext iter s = (case li_next iter of
     None \<Rightarrow> Inr (None, iter)
   | Some a \<Rightarrow> rbind (nd_get (Some a) s) (\<lambda>n.
       Inr (Some a, iter\<lparr>li_next := (if li_head iter then ln_next n else ln_prev n)\<rparr>)))"

text \<open>The copy may fail: \<open>None\<close> when the dup method returns NULL.\<close>

definition dup_value :: "'v list_rec \<Rightarrow> 'v \<Rightarrow> 'v option" where
  "dup_value l v = (case l_dup l of Some d \<Rightarrow> d v | None \<Rightarrow> Some v)"

fun dup_loop :: "('v al_store \<Rightarrow> nat) \<Rightarrow> nat \<Rightarrow> listIter \<Rightarrow> 'v list_rec \<Rightarrow> 'v al_store \<Rightarrow> ('v list_rec option \<times> 'v al_store) al_res" where
  "dup_loop al 0 iter copy s = rbind (listNext iter s) (\<lambda>(node, iter).
     if node = None then Inr (Some copy, s) else Inl AL_FUEL)"
| "dup_loop al (Suc n) iter copy s = rbind (listNext iter s) (\<lambda>(node, iter).
     if node = None then Inr (Some copy, s)
     else rbind (nd_get node s) (\<lambda>nd. case dup_value copy (ln_value nd) of
         None \<Rightarrow> rbind (listRelease copy s) (\<lambda>s. Inr (None, s))
       | Some v \<Rightarrow> rbind (listAddNodeTail al v copy s) (\<lambda>(copy, s). dup_loop al n iter copy s)))"

definition listDup :: "('v al_store \<Rightarrow> nat) \<Rightarrow> 'v list_rec \<Rightarrow> 'v al_store \<Rightarrow> ('v list_rec option \<times> 'v al_store) al_res" where
  "listDup al orig s = dup_loop al (l_len orig) (listRewind orig)
     (listCreate\<lparr>l_dup := l_dup orig, l_free := l_free orig, l_match := l_match orig\<rparr>) s"

definition key_match :: "'v list_rec \<Rightarrow> 'v \<Rightarrow> 'v \<Rightarrow> bool" where
  "key_match l v key = (case l_match l of Some f \<Rightarrow> f v key | None \<Rightarrow> key = v)"

fun search_loop :: "nat \<Rightarrow> listIter \<Rightarrow> 'v \<Rightarrow> 'v list_rec \<Rightarrow> 'v al_store \<Rightarrow> nat option al_res" where
  "search_loop 0 iter key l s = rbind (listNext iter s) (\<lambda>(node, iter). if node = None then Inr None else Inl AL_FUEL)"
| "search_loop (Suc n) iter key l s = rbind (listNext iter s) (\<lambda>(node, iter).
     if node = None then Inr None
     else rbind (nd_get node s) (\<lambda>nd.
       if key_match l (ln_value nd) key then Inr node else search_loop n iter key l s))"

definition listSearchKey :: "'v list_rec \<Rightarrow> 'v \<Rightarrow> 'v al_store \<Rightarrow> nat option al_res" where
  "listSearchKey l key s = search_loop (l_len l) (listRewind l) key l s"

fun index_walk :: "('v listNode \<Rightarrow> nat option) \<Rightarrow> nat \<Rightarrow> nat option \<Rightarrow> 'v al_store \<Rightarrow> nat option al_res" where
  "index_walk step 0 n s = Inr n"
| "index_walk step (Suc k) n s = (if n = None then Inr None
     else rbind (nd_get n s) (\<lambda>nd. index_walk step k (step nd) s))"

definition listIndex :: "'v list_rec \<Rightarrow> int \<Rightarrow> 'v al_store \<Rightarrow> nat option al_res" where
  "listIndex l index s =
     (if index < 0 then index_walk ln_prev (nat (- index - 1)) (l_tail l) s
      else index_walk ln_next (nat index) (l_head l) s)"

section \<open>Rotating and joining\<close>

definition listRotateTailToHead :: "'v list_rec \<Rightarrow> 'v al_store \<Rightarrow> ('v list_rec \<times> 'v al_store) al_res" where
  "listRotateTailToHead l s =
     (if l_len l \<le> 1 then Inr (l, s)
      else let tail = l_tail l in
        rbind (nd_get tail s) (\<lambda>t.
        let l = l\<lparr>l_tail := ln_prev t\<rparr> in
        rbind (nd_upd (l_tail l) (\<lambda>n. n\<lparr>ln_next := None\<rparr>) s) (\<lambda>s.
        rbind (nd_upd (l_head l) (\<lambda>n. n\<lparr>ln_prev := tail\<rparr>) s) (\<lambda>s.
        rbind (nd_upd tail (\<lambda>n. n\<lparr>ln_prev := None, ln_next := l_head l\<rparr>) s) (\<lambda>s.
        Inr (l\<lparr>l_head := tail\<rparr>, s))))))"

definition listRotateHeadToTail :: "'v list_rec \<Rightarrow> 'v al_store \<Rightarrow> ('v list_rec \<times> 'v al_store) al_res" where
  "listRotateHeadToTail l s =
     (if l_len l \<le> 1 then Inr (l, s)
      else let head = l_head l in
        rbind (nd_get head s) (\<lambda>h.
        let l = l\<lparr>l_head := ln_next h\<rparr> in
        rbind (nd_upd (l_head l) (\<lambda>n. n\<lparr>ln_prev := None\<rparr>) s) (\<lambda>s.
        rbind (nd_upd (l_tail l) (\<lambda>n. n\<lparr>ln_next := head\<rparr>) s) (\<lambda>s.
        rbind (nd_upd head (\<lambda>n. n\<lparr>ln_next := None, ln_prev := l_tail l\<rparr>) s) (\<lambda>s.
        Inr (l\<lparr>l_tail := head\<rparr>, s))))))"

definition listJoin :: "'v list_rec \<Rightarrow> 'v list_rec \<Rightarrow> 'v al_store \<Rightarrow> ('v list_rec \<times> 'v list_rec \<times> 'v al_store) al_res" where
  "listJoin l other s =
     (if l_len other = 0 then Inr (l, other, s)
      else rbind (nd_upd (l_head other) (\<lambda>n. n\<lparr>ln_prev := l_tail l\<rparr>) s) (\<lambda>s.
        rbind (if l_tail l \<noteq> None then rbind (nd_upd (l_tail l) (\<lambda>n. n\<lparr>ln_next := l_head other\<rparr>) s) (\<lambda>s. Inr (l, s))
               else Inr (l\<lparr>l_head := l_head other\<rparr>, s)) (\<lambda>(l, s).
        Inr (l\<lparr>l_tail := l_tail other, l_len := len_add (l_len l) (l_len other)\<rparr>,
             other\<lparr>l_head := None, l_tail := None, l_len := 0\<rparr>, s))))"

end
