(* ===== verification/Adlist_Rep.thy ===== *)
theory Adlist_Rep
  imports Adlist
begin

text \<open>
  Linked lists represent sequences: \<open>al_rep\<close> names the nodes of a list in order.  Every operation of
  \<^verbatim>\<open>adlist.c\<close> is described by its effect on that list and on the values; nodes of other lists are
  left alone.  The lists interpret the contract \<open>seq_store\<close>.
\<close>

section \<open>Representation\<close>

text \<open>The nodes of a list, in order.\<close>

definition al_rep :: "'v list_rec \<Rightarrow> 'v al_store \<Rightarrow> nat list \<Rightarrow> bool" where
  "al_rep l s as \<longleftrightarrow> dseg ln_prev ln_next (al_nodes s) None (l_head l) None as \<and> distinct as \<and> l_tail l = last_of None as
     \<and> l_len l = length as \<and> length as < 2 ^ 32"

definition al_val :: "'v al_store \<Rightarrow> nat \<Rightarrow> 'v option" where
  "al_val s a = map_option ln_value (al_nodes s a)"

definition al_vals :: "'v al_store \<Rightarrow> nat list \<Rightarrow> 'v list" where
  "al_vals s as = map (\<lambda>a. the (al_val s a)) as"

lemma al_vals_simps [simp]:
  "al_vals s [] = []" "al_vals s (a # as) = the (al_val s a) # al_vals s as" "al_vals s (as @ bs) = al_vals s as @ al_vals s bs"
  "length (al_vals s as) = length as"
  by (simp_all add: al_vals_def)

lemma al_vals_cong: "(\<And>a. a \<in> set as \<Longrightarrow> al_val s' a = al_val s a) \<Longrightarrow> al_vals s' as = al_vals s as"
  by (simp add: al_vals_def)

lemma nd_get_simps [simp]: "nd_get None s = Inl AL_UB" "al_nodes s a = Some n \<Longrightarrow> nd_get (Some a) s = Inr n"
  by (simp_all add: nd_get_def)

lemma nd_upd_simps [simp]: "al_nodes s a = Some n \<Longrightarrow> nd_upd (Some a) f s = Inr (nd_set a (f n) s)"
  by (simp add: nd_upd_def)

lemma nd_upd_opt_simps [simp]: "nd_upd_opt None f s = Inr s" "nd_upd_opt (Some a) f s = nd_upd (Some a) f s"
  by (simp_all add: nd_upd_opt_def)

lemma al_assert_simps [simp]: "al_assert True = Inr ()" "al_assert False = Inl AL_ASSERT"
  by (simp_all add: al_assert_def)

lemma nd_set_simps [simp]: "al_nodes (nd_set a n s) = (al_nodes s)(a \<mapsto> n)" "al_freed (nd_set a n s) = al_freed s"
  by (simp_all add: nd_set_def)

lemma al_rep_node:
  assumes "al_rep l s (xs @ a # ys)"
  obtains n where "al_nodes s a = Some n" "ln_prev n = last_of None xs" "dseg ln_prev ln_next (al_nodes s) (Some a) (ln_next n) None ys"
    "dseg ln_prev ln_next (al_nodes s) None (l_head l) (Some a) xs"
  using assms dseg_node [of ln_prev ln_next "al_nodes s" None "l_head l" None xs a ys] by (auto simp: al_rep_def)

text \<open>What a step leaves alone: the methods, the values, the nodes of other lists.\<close>

definition al_frame :: "nat set \<Rightarrow> 'v list_rec \<Rightarrow> 'v al_store \<Rightarrow> 'v list_rec \<Rightarrow> 'v al_store \<Rightarrow> bool" where
  "al_frame A l s l' s' \<longleftrightarrow> l_dup l' = l_dup l \<and> l_free l' = l_free l \<and> l_match l' = l_match l
     \<and> (\<forall>x. x \<notin> A \<longrightarrow> al_nodes s' x = al_nodes s x)"

text \<open>The two neighbours of a node.\<close>

lemma ends_cases:
  assumes "dseg ln_prev ln_next h None q (Some a) xs" "dseg ln_prev ln_next h (Some a) r None ys" "distinct (xs @ a # ys)"
  obtains (mid) us x tx y ty zs where "xs = us @ [x]" "ys = y # zs" "r = Some y" "h x = Some tx" "h y = Some ty" "ln_prev tx = last_of None us" "ln_next tx = Some a"
      "dseg ln_prev ln_next h None q (Some x) us" "ln_prev ty = Some a" "dseg ln_prev ln_next h (Some y) (ln_next ty) None zs" "x \<noteq> y"
    | (first) y ty zs where "xs = []" "q = Some a" "ys = y # zs" "r = Some y" "h y = Some ty" "ln_prev ty = Some a" "dseg ln_prev ln_next h (Some y) (ln_next ty) None zs"
    | (final) us x tx where "ys = []" "r = None" "xs = us @ [x]" "h x = Some tx" "ln_prev tx = last_of None us" "ln_next tx = Some a" "dseg ln_prev ln_next h None q (Some x) us"
    | (only) "xs = []" "ys = []" "q = Some a" "r = None"
proof (cases xs rule: rev_cases)
  case Nil
  then show ?thesis using assms that(2,4) by (cases ys) (auto split: option.splits)
next
  case (snoc us x)
  then obtain tx where "h x = Some tx" "ln_prev tx = last_of None us" "ln_next tx = Some a" "dseg ln_prev ln_next h None q (Some x) us"
    using assms(1) by (auto simp: dseg_append split: option.splits)
  then show ?thesis using snoc assms that(1,3) by (cases ys) (auto split: option.splits)
qed

lemma listUnlinkNode_rep:
  assumes "al_rep l s (xs @ a # ys)"
  shows "\<exists>l' s'. listUnlinkNode a l s = Inr (l', s') \<and> al_rep l' s' (xs @ ys) \<and> al_frame (set (xs @ a # ys)) l s l' s' \<and>
    (\<forall>x. al_val s' x = al_val s x) \<and> al_freed s' = al_freed s"
proof -
  obtain n where n: "al_nodes s a = Some n" "ln_prev n = last_of None xs" "dseg ln_prev ln_next (al_nodes s) (Some a) (ln_next n) None ys"
    "dseg ln_prev ln_next (al_nodes s) None (l_head l) (Some a) xs" using al_rep_node [OF assms] by blast
  have r: "distinct (xs @ a # ys)" "l_tail l = last_of None (xs @ a # ys)" "l_len l = length (xs @ a # ys)" "length (xs @ a # ys) < 2 ^ 32"
    using assms by (simp_all add: al_rep_def)
  from n(4,3) r(1) show ?thesis
  proof (cases rule: ends_cases)
    case (mid us x tx y ty zs)
    then show ?thesis using n r by (auto simp: listUnlinkNode_def al_rep_def al_frame_def al_val_def dseg_append last_of_def)
  next
    case (first y ty zs)
    then show ?thesis using n r by (auto simp: listUnlinkNode_def al_rep_def al_frame_def al_val_def last_of_def)
  next
    case (final us x tx)
    then show ?thesis using n r by (auto simp: listUnlinkNode_def al_rep_def al_frame_def al_val_def dseg_append last_of_def)
  next
    case only
    then show ?thesis using n r by (auto simp: listUnlinkNode_def al_rep_def al_frame_def al_val_def last_of_def)
  qed
qed

lemma zfree_simps [simp]: "al_nodes (zfree a s) = (al_nodes s)(a := None)" "al_freed (zfree a s) = al_freed s"
  by (simp_all add: zfree_def)

lemma call_free_simps [simp]: "al_nodes (call_free l v s) = al_nodes s" "al_freed (call_free l v s) = al_freed s @ (if l_free l then [v] else [])"
  by (simp_all add: call_free_def)

lemma al_rep_dom: "al_rep l s as \<Longrightarrow> set as \<subseteq> dom (al_nodes s)"
  unfolding al_rep_def using dseg_dom by blast

lemma al_rep_store: "al_rep l s as \<Longrightarrow> (\<And>x. x \<in> set as \<Longrightarrow> al_nodes s' x = al_nodes s x) \<Longrightarrow> al_rep l s' as"
  unfolding al_rep_def using dseg_cong [of ln_prev ln_next "al_nodes s" None "l_head l" None as "al_nodes s'"] by auto

lemma listDelNode_rep:
  assumes "al_rep l s (xs @ a # ys)"
  shows "\<exists>l' s'. listDelNode a l s = Inr (l', s') \<and> al_rep l' s' (xs @ ys) \<and> al_frame (set (xs @ a # ys)) l s l' s' \<and>
    al_nodes s' a = None \<and> (\<forall>x. x \<noteq> a \<longrightarrow> al_val s' x = al_val s x) \<and> al_freed s' = al_freed s @ (if l_free l then [the (al_val s a)] else [])"
proof -
  obtain l1 s1 where u: "listUnlinkNode a l s = Inr (l1, s1)" "al_rep l1 s1 (xs @ ys)" "al_frame (set (xs @ a # ys)) l s l1 s1"
    "\<And>x. al_val s1 x = al_val s x" "al_freed s1 = al_freed s" using listUnlinkNode_rep [OF assms] by blast
  have a: "a \<notin> set (xs @ ys)" "a \<in> dom (al_nodes s)" using assms al_rep_dom [OF assms] by (auto simp: al_rep_def)
  then obtain n where n: "al_nodes s1 a = Some n" using u(4) [of a] by (auto simp: al_val_def)
  let ?s = "zfree a (call_free l1 (ln_value n) s1)"
  have "listDelNode a l s = Inr (l1, ?s)" using u(1) n by (simp add: listDelNode_def)
  moreover have "al_rep l1 ?s (xs @ ys)" by (rule al_rep_store [OF u(2)]) (use a in auto)
  moreover have "al_val s a = Some (ln_value n)" using n unfolding u(4) [symmetric] by (simp add: al_val_def)
  ultimately show ?thesis using u(3-5) by (auto simp: al_frame_def al_val_def)
qed

text \<open>Linking a node that is not in the list.\<close>

definition al_added :: "nat \<Rightarrow> 'v \<Rightarrow> nat list \<Rightarrow> nat list \<Rightarrow> 'v list_rec \<Rightarrow> 'v al_store \<Rightarrow> 'v list_rec \<Rightarrow> 'v al_store \<Rightarrow> bool" where
  "al_added a v as as' l s l' s' \<longleftrightarrow> al_rep l' s' as' \<and> al_frame (set (a # as)) l s l' s' \<and> al_val s' a = Some v
     \<and> (\<forall>x. x \<noteq> a \<longrightarrow> al_val s' x = al_val s x) \<and> al_freed s' = al_freed s"

lemma listInit_rep:
  assumes "al_rep l s as" "a \<notin> set as"
  shows "al_rep l (listInitNode a v s) as" "al_nodes (listInitNode a v s) a = Some \<lparr>ln_prev = None, ln_next = None, ln_value = v\<rparr>"
  using assms by (auto simp: listInitNode_def intro: al_rep_store)

lemma listLinkNodeHead_rep:
  assumes "al_rep l s as" "a \<notin> set as" "al_nodes s a = Some n" "length as + 1 < 2 ^ 32"
  shows "\<exists>l' s'. listLinkNodeHead a l s = Inr (l', s') \<and> al_added a (ln_value n) as (a # as) l s l' s'"
proof (cases as)
  case Nil
  then show ?thesis using assms by (auto simp: listLinkNodeHead_def al_added_def al_rep_def al_frame_def al_val_def len_add_def)
next
  case (Cons b bs)
  then obtain tb where b: "al_nodes s b = Some tb" "dseg ln_prev ln_next (al_nodes s) (Some b) (ln_next tb) None bs" "l_head l = Some b"
    using assms(1) by (auto simp: al_rep_def split: option.splits)
  then show ?thesis using Cons assms by (auto simp: listLinkNodeHead_def al_added_def al_rep_def al_frame_def al_val_def len_add_def last_of_def)
qed

lemma listLinkNodeTail_rep:
  assumes "al_rep l s as" "a \<notin> set as" "al_nodes s a = Some n" "length as + 1 < 2 ^ 32"
  shows "\<exists>l' s'. listLinkNodeTail a l s = Inr (l', s') \<and> al_added a (ln_value n) as (as @ [a]) l s l' s'"
proof (cases as rule: rev_cases)
  case Nil
  then show ?thesis using assms by (auto simp: listLinkNodeTail_def al_added_def al_rep_def al_frame_def al_val_def len_add_def)
next
  case (snoc bs b)
  then obtain tb where b: "al_nodes s b = Some tb" "ln_prev tb = last_of None bs" "dseg ln_prev ln_next (al_nodes s) None (l_head l) (Some b) bs" "l_tail l = Some b"
    using assms(1) by (auto simp: al_rep_def dseg_append split: option.splits)
  then show ?thesis using snoc assms by (auto simp: listLinkNodeTail_def al_added_def al_rep_def al_frame_def al_val_def len_add_def dseg_append last_of_def)
qed

text \<open>Adding at the ends, with a fresh node.\<close>

lemma al_added_init:
  "a \<notin> dom (al_nodes s) \<Longrightarrow> al_added a v as as' l (listInitNode a v s) l' s' \<Longrightarrow> al_added a v as as' l s l' s'"
  by (auto simp: al_added_def al_frame_def listInitNode_def al_val_def split: if_splits)

lemma listAddNode_rep:
  assumes "al_rep l s as" "al s \<notin> dom (al_nodes s)" "length as + 1 < 2 ^ 32"
  shows "\<exists>l' s'. listAddNodeHead al v l s = Inr (l', s') \<and> al_added (al s) v as (al s # as) l s l' s'"
    and "\<exists>l' s'. listAddNodeTail al v l s = Inr (l', s') \<and> al_added (al s) v as (as @ [al s]) l s l' s'"
proof -
  have a: "al s \<notin> set as" using assms al_rep_dom by blast
  note i = listInit_rep [OF assms(1) a, of v]
  show "\<exists>l' s'. listAddNodeHead al v l s = Inr (l', s') \<and> al_added (al s) v as (al s # as) l s l' s'"
    using listLinkNodeHead_rep [OF i(1) a i(2) assms(3)] al_added_init [OF assms(2)] by (auto simp: listAddNodeHead_def)
  show "\<exists>l' s'. listAddNodeTail al v l s = Inr (l', s') \<and> al_added (al s) v as (as @ [al s]) l s l' s'"
    using listLinkNodeTail_rep [OF i(1) a i(2) assms(3)] al_added_init [OF assms(2)] by (auto simp: listAddNodeTail_def)
qed

lemma listInsertNode_rep:
  assumes "al_rep l s (xs @ a # ys)" "al s \<notin> dom (al_nodes s)" "length (xs @ a # ys) + 1 < 2 ^ 32"
  shows "\<exists>l' s'. listInsertNode al a v after l s = Inr (l', s') \<and>
    al_added (al s) v (xs @ a # ys) (if after then xs @ a # al s # ys else xs @ al s # a # ys) l s l' s'"
proof -
  obtain n where n: "al_nodes s a = Some n" "ln_prev n = last_of None xs" "dseg ln_prev ln_next (al_nodes s) (Some a) (ln_next n) None ys"
    "dseg ln_prev ln_next (al_nodes s) None (l_head l) (Some a) xs" using al_rep_node [OF assms(1)] by blast
  have r: "distinct (xs @ a # ys)" "l_tail l = last_of None (xs @ a # ys)" "l_len l = length (xs @ a # ys)"
    using assms by (simp_all add: al_rep_def)
  have f: "al s \<notin> set (xs @ a # ys)" "al_nodes s (al s) = None" using assms(2) al_rep_dom [OF assms(1)] by auto
  note defs = listInsertNode_def al_added_def al_rep_def al_frame_def al_val_def len_add_def last_of_def Let_def
  from n(4,3) r(1) show ?thesis
  proof (cases rule: ends_cases)
    case (mid us x tx y ty zs)
    have "l_tail l \<noteq> Some a" "l_head l \<noteq> Some a" using mid r n(4) by (auto simp: last_of_def) (cases us; auto)+
    then show ?thesis using mid n r f assms(3) by (cases after) (auto simp: defs dseg_append)
  next
    case (first y ty zs)
    then show ?thesis using n r f assms(3) by (cases after) (auto simp: defs)
  next
    case (final us x tx)
    have "l_head l \<noteq> Some a" using final r n(4) by (cases us) auto
    then show ?thesis using final n r f assms(3) by (cases after) (auto simp: defs dseg_append)
  next
    case only
    then show ?thesis using n r f assms(3) by (cases after) (auto simp: defs)
  qed
qed

section \<open>Walking\<close>

lemma index_walk_forward:
  "dseg ln_prev ln_next (al_nodes s) p q None as \<Longrightarrow> index_walk ln_next k q s = Inr (if k < length as then Some (as ! k) else None)"
proof (induction as arbitrary: p q k)
  case Nil
  then show ?case by (cases k) auto
next
  case (Cons a as)
  then show ?case by (cases k) (auto split: option.splits)
qed

lemma index_walk_backward:
  "dseg ln_prev ln_next (al_nodes s) None q r as \<Longrightarrow>
   index_walk ln_prev k (last_of None as) s = Inr (if k < length as then Some (as ! (length as - 1 - k)) else None)"
proof (induction as arbitrary: r k rule: rev_induct)
  case Nil
  then show ?case by (cases k) auto
next
  case (snoc a as)
  then obtain t where t: "al_nodes s a = Some t" "ln_prev t = last_of None as" "dseg ln_prev ln_next (al_nodes s) None q (Some a) as"
    by (auto simp: dseg_append split: option.splits)
  show ?case using t snoc.IH [OF t(3)] by (cases k) (auto simp: nth_append)
qed

lemma listIndex_rep:
  assumes "al_rep l s as"
  shows "listIndex l i s = Inr (if 0 \<le> i \<and> i < int (length as) then Some (as ! nat i)
    else if i < 0 \<and> - int (length as) \<le> i then Some (as ! nat (int (length as) + i)) else None)"
proof (cases "0 \<le> i")
  case True
  then show ?thesis using index_walk_forward [of s None "l_head l" as "nat i"] assms by (auto simp: listIndex_def al_rep_def nat_less_iff)
next
  case False
  have e: "length as - 1 - nat (- i - 1) = nat (int (length as) + i)" if "nat (- i - 1) < length as" using False that by linarith
  show ?thesis using index_walk_backward [of s "l_head l" None as "nat (- i - 1)"] assms False e
    by (auto simp: listIndex_def al_rep_def)
qed

lemma listNext_None [simp]: "li_next it = None \<Longrightarrow> listNext it s = Inr (None, it)"
  by (simp add: listNext_def)

lemma listNext_Some: "li_next it = Some a \<Longrightarrow> al_nodes s a = Some n \<Longrightarrow>
  listNext it s = Inr (Some a, it\<lparr>li_next := (if li_head it then ln_next n else ln_prev n)\<rparr>)"
  by (simp add: listNext_def)

text \<open>Where an iterator stands when the nodes \<open>todo\<close> are to come: at the first of them from the head,
  at the last of them from the tail.\<close>

definition li_at :: "listIter \<Rightarrow> nat list \<Rightarrow> bool" where
  "li_at it todo \<longleftrightarrow> li_next it = (if li_head it then (if todo = [] then None else Some (hd todo)) else last_of None todo)"

definition li_list :: "listIter \<Rightarrow> nat list \<Rightarrow> nat list \<Rightarrow> nat list" where
  "li_list it past todo = (if li_head it then past @ todo else todo @ past)"

lemma listNext_head:
  assumes "al_rep l s (past @ a # todo)" "li_head it" "li_next it = Some a"
  obtains it' where "listNext it s = Inr (Some a, it')" "li_head it'" "li_at it' todo"
proof -
  obtain n where n: "al_nodes s a = Some n" "dseg ln_prev ln_next (al_nodes s) (Some a) (ln_next n) None todo"
    using al_rep_node [OF assms(1)] by blast
  have "ln_next n = (if todo = [] then None else Some (hd todo))" using n(2) by (cases todo) auto
  then show ?thesis using that [of "it\<lparr>li_next := ln_next n\<rparr>"] listNext_Some [OF assms(3) n(1)] assms(2) by (simp add: li_at_def)
qed

lemma listNext_tail:
  assumes "al_rep l s (todo @ a # past)" "\<not> li_head it" "li_next it = Some a"
  obtains it' where "listNext it s = Inr (Some a, it')" "\<not> li_head it'" "li_at it' todo"
proof -
  obtain n where n: "al_nodes s a = Some n" "ln_prev n = last_of None todo" using al_rep_node [OF assms(1)] by blast
  then show ?thesis using that [of "it\<lparr>li_next := ln_prev n\<rparr>"] listNext_Some [OF assms(3) n(1)] assms(2) by (simp add: li_at_def)
qed

text \<open>A search stops at the first match.\<close>

lemma search_loop_find:
  assumes "al_rep l s (xs @ as)" "li_head it" "li_at it as" "length as \<le> n"
  shows "search_loop n it key l s = Inr (find (\<lambda>a. key_match l (the (al_val s a)) key) as)"
  using assms
proof (induction as arbitrary: xs it n)
  case Nil
  then show ?case by (cases n) (auto simp: li_at_def)
next
  case (Cons a as)
  obtain it' where it: "listNext it s = Inr (Some a, it')" "li_head it'" "li_at it' as"
    using listNext_head [OF Cons.prems(1,2)] Cons.prems(2,3) by (auto simp: li_at_def)
  obtain m where m: "n = Suc m" "length as \<le> m" using Cons.prems(4) by (cases n) auto
  obtain nd where nd: "al_nodes s a = Some nd" using al_rep_node [OF Cons.prems(1)] by blast
  show ?case using it m nd Cons.IH [of "xs @ [a]" it' m] Cons.prems(1) by (simp add: al_val_def)
qed

lemma listRewind_at: "al_rep l s as \<Longrightarrow> li_at (listRewind l) as" "al_rep l s as \<Longrightarrow> li_at (listRewindTail l) as"
  by (cases as, auto simp: li_at_def listRewind_def listRewindTail_def al_rep_def)

lemma listSearchKey_rep: "al_rep l s as \<Longrightarrow> listSearchKey l key s = Inr (find (\<lambda>a. key_match l (the (al_val s a)) key) as)"
  unfolding listSearchKey_def using search_loop_find [of l s "[]" as "listRewind l" "l_len l" key] listRewind_at(1) [of l s as]
  by (auto simp: listRewind_def al_rep_def)

section \<open>Emptying\<close>

lemma empty_loop_rep:
  assumes "dseg ln_prev ln_next (al_nodes s) p q None as" "distinct as"
  shows "\<exists>s'. empty_loop (length as) q l s = Inr s' \<and> al_nodes s' = (\<lambda>x. if x \<in> set as then None else al_nodes s x) \<and>
    al_freed s' = al_freed s @ (if l_free l then al_vals s as else [])"
  using assms
proof (induction as arbitrary: p q s)
  case (Cons a as)
  then obtain n where n: "q = Some a" "al_nodes s a = Some n" "dseg ln_prev ln_next (al_nodes s) (Some a) (ln_next n) None as" by (auto split: option.splits)
  let ?s = "zfree a (call_free l (ln_value n) s)"
  have v: "al_vals ?s as = al_vals s as" by (rule al_vals_cong) (use Cons.prems(2) in \<open>auto simp: al_val_def\<close>)
  have d: "dseg ln_prev ln_next (al_nodes ?s) (Some a) (ln_next n) None as" using n(3) Cons.prems(2) by simp
  obtain s' where s': "empty_loop (length as) (ln_next n) l ?s = Inr s'" "al_nodes s' = (\<lambda>x. if x \<in> set as then None else al_nodes ?s x)"
    "al_freed s' = al_freed ?s @ (if l_free l then al_vals ?s as else [])" using Cons.IH [OF d] Cons.prems(2) by auto
  have "al_nodes s' = (\<lambda>x. if x \<in> set (a # as) then None else al_nodes s x)" by (auto simp: s'(2))
  moreover have "al_freed s' = al_freed s @ (if l_free l then al_vals s (a # as) else [])" using n(2) v s'(3) by (simp add: al_val_def)
  ultimately show ?case using s'(1) n by simp
qed auto

lemma listEmpty_rep:
  assumes "al_rep l s as"
  shows "\<exists>s'. listEmpty l s = Inr (l\<lparr>l_head := None, l_tail := None, l_len := 0\<rparr>, s') \<and> al_rep (l\<lparr>l_head := None, l_tail := None, l_len := 0\<rparr>) s' [] \<and>
    al_nodes s' = (\<lambda>x. if x \<in> set as then None else al_nodes s x) \<and> al_freed s' = al_freed s @ (if l_free l then al_vals s as else [])"
  using empty_loop_rep [of s None "l_head l" as l] assms by (auto simp: listEmpty_def al_rep_def)

section \<open>Rotating and joining\<close>

lemma listRotateTailToHead_rep:
  assumes "al_rep l s (as @ [a])"
  shows "\<exists>l' s'. listRotateTailToHead l s = Inr (l', s') \<and> al_rep l' s' (a # as) \<and> (\<forall>x. al_val s' x = al_val s x)"
proof (cases as)
  case Nil
  then show ?thesis using assms by (auto simp: listRotateTailToHead_def al_rep_def)
next
  case (Cons b bs)
  have r: "distinct (as @ [a])" "l_tail l = Some a" "l_len l = length (as @ [a])" "length (as @ [a]) < 2 ^ 32" using assms by (simp_all add: al_rep_def)
  have d: "dseg ln_prev ln_next (al_nodes s) None (l_head l) (Some a) as" "l_head l = Some b"
    using assms Cons by (auto simp: al_rep_def dseg_append split: option.splits)
  obtain ta where a: "al_nodes s a = Some ta" "ln_prev ta = last_of None as" using al_rep_node [OF assms] by blast
  obtain tb where b: "al_nodes s b = Some tb" "ln_prev tb = None" "dseg ln_prev ln_next (al_nodes s) (Some b) (ln_next tb) (Some a) bs"
    using d Cons by (auto split: option.splits)
  show ?thesis
  proof (cases bs rule: rev_cases)
    case Nil
    then show ?thesis using r d a b Cons by (auto simp: listRotateTailToHead_def Let_def al_rep_def al_val_def)
  next
    case (snoc cs c)
    obtain tc where c: "al_nodes s c = Some tc" "ln_prev tc = last_of (Some b) cs" "dseg ln_prev ln_next (al_nodes s) (Some b) (ln_next tb) (Some c) cs"
      using snoc b(3) by (auto simp: dseg_append split: option.splits)
    show ?thesis using r d a b c Cons snoc by (auto simp: listRotateTailToHead_def Let_def al_rep_def al_val_def dseg_append last_of_def)
  qed
qed

lemma listRotateHeadToTail_rep:
  assumes "al_rep l s (a # as)"
  shows "\<exists>l' s'. listRotateHeadToTail l s = Inr (l', s') \<and> al_rep l' s' (as @ [a]) \<and> (\<forall>x. al_val s' x = al_val s x)"
proof (cases as)
  case Nil
  then show ?thesis using assms by (auto simp: listRotateHeadToTail_def al_rep_def)
next
  case (Cons b bs)
  have r: "distinct (a # as)" "l_tail l = last_of (Some a) as" "l_len l = length (a # as)" "length (a # as) < 2 ^ 32" "l_head l = Some a"
    using assms by (simp_all add: al_rep_def)
  obtain ta tb where a: "al_nodes s a = Some ta" "ln_prev ta = None" "ln_next ta = Some b" "al_nodes s b = Some tb" "ln_prev tb = Some a"
    "dseg ln_prev ln_next (al_nodes s) (Some b) (ln_next tb) None bs" using assms Cons by (auto simp: al_rep_def split: option.splits)
  show ?thesis
  proof (cases bs rule: rev_cases)
    case Nil
    then show ?thesis using r a Cons by (auto simp: listRotateHeadToTail_def Let_def al_rep_def al_val_def)
  next
    case (snoc cs c)
    obtain tc where c: "al_nodes s c = Some tc" "ln_prev tc = last_of (Some b) cs" "dseg ln_prev ln_next (al_nodes s) (Some b) (ln_next tb) (Some c) cs"
      using snoc a(6) by (auto simp: dseg_append split: option.splits)
    show ?thesis using r a c Cons snoc by (auto simp: listRotateHeadToTail_def Let_def al_rep_def al_val_def dseg_append last_of_def)
  qed
qed

lemma listJoin_rep:
  assumes "al_rep l s as" "al_rep other s bs" "set as \<inter> set bs = {}" "length as + length bs < 2 ^ 32"
  shows "\<exists>l' other' s'. listJoin l other s = Inr (l', other', s') \<and> al_rep l' s' (as @ bs) \<and> al_rep other' s' [] \<and>
    (\<forall>x. al_val s' x = al_val s x)"
proof (cases bs)
  case Nil
  then show ?thesis using assms by (auto simp: listJoin_def al_rep_def)
next
  case (Cons b cs)
  have r: "l_len l = length as" "l_len other = length bs" "distinct (as @ bs)" "l_tail l = last_of None as" "l_tail other = last_of None bs" "l_head other = Some b"
    "dseg ln_prev ln_next (al_nodes s) None (l_head l) None as"
    using assms Cons by (auto simp: al_rep_def)
  obtain tb where b: "al_nodes s b = Some tb" "dseg ln_prev ln_next (al_nodes s) (Some b) (ln_next tb) None cs"
    using assms(2) Cons by (auto simp: al_rep_def split: option.splits)
  show ?thesis
  proof (cases as rule: rev_cases)
    case Nil
    then show ?thesis using r b Cons assms(4) by (auto simp: listJoin_def al_rep_def al_val_def len_add_def last_of_def)
  next
    case (snoc us x)
    obtain tx where x: "al_nodes s x = Some tx" "ln_prev tx = last_of None us" "dseg ln_prev ln_next (al_nodes s) None (l_head l) (Some x) us"
      using r(7) snoc by (auto simp: dseg_append split: option.splits)
    show ?thesis using r b x Cons snoc assms(4) by (auto simp: listJoin_def al_rep_def al_val_def len_add_def dseg_append last_of_def)
  qed
qed

section \<open>Copying\<close>

definition al_fresh :: "('v al_store \<Rightarrow> nat) \<Rightarrow> bool" where
  "al_fresh al \<longleftrightarrow> (\<forall>s. finite (dom (al_nodes s)) \<longrightarrow> al s \<notin> dom (al_nodes s))"

lemma al_added_dom:
  assumes "al_added a v as as' l s l' s'" "al_rep l s as"
  shows "dom (al_nodes s') = insert a (dom (al_nodes s))"
proof (rule set_eqI)
  fix x
  show "x \<in> dom (al_nodes s') \<longleftrightarrow> x \<in> insert a (dom (al_nodes s))"
  proof (cases "x = a")
    case True
    then show ?thesis using assms(1) by (auto simp: al_added_def al_val_def)
  next
    case False
    then have "al_val s' x = al_val s x" using assms(1) by (simp add: al_added_def)
    then show ?thesis using False by (cases "al_nodes s' x"; cases "al_nodes s x") (auto simp: al_val_def)
  qed
qed

text \<open>The state of the copy: its nodes \<open>bs\<close> are new, everything else is as in the store \<open>h\<close>.\<close>

definition copying :: "(nat \<rightharpoonup> 'v listNode) \<Rightarrow> 'v list_rec \<Rightarrow> 'v al_store \<Rightarrow> nat list \<Rightarrow> bool" where
  "copying h copy s bs \<longleftrightarrow> al_rep copy s bs \<and> set bs \<inter> dom h = {} \<and> (\<forall>x. x \<notin> set bs \<longrightarrow> al_nodes s x = h x) \<and> finite (dom (al_nodes s))"

lemma copying_step:
  assumes "copying h copy s bs" "al_fresh al" "length bs + 1 < 2 ^ 32"
  obtains copy' s' where "listAddNodeTail al v copy s = Inr (copy', s')" "copying h copy' s' (bs @ [al s])"
    "al_vals s' (bs @ [al s]) = al_vals s bs @ [v]" "l_dup copy' = l_dup copy" "l_free copy' = l_free copy" "l_match copy' = l_match copy"
proof -
  have c: "al_rep copy s bs" "finite (dom (al_nodes s))" "set bs \<inter> dom h = {}" "\<And>x. x \<notin> set bs \<Longrightarrow> al_nodes s x = h x" using assms(1) by (auto simp: copying_def)
  have a: "al s \<notin> dom (al_nodes s)" "al s \<notin> set bs" using assms(2) c(2) al_rep_dom [OF c(1)] by (auto simp: al_fresh_def)
  obtain copy' s' where r: "listAddNodeTail al v copy s = Inr (copy', s')" "al_added (al s) v bs (bs @ [al s]) copy s copy' s'"
    using listAddNode_rep(2) [where al = al, OF c(1) a(1) assms(3)] by blast
  have "al_val s' x = al_val s x" if "x \<in> set bs" for x using r(2) a(2) that unfolding al_added_def by metis
  then have "al_vals s' bs = al_vals s bs" by (rule al_vals_cong)
  moreover have "copying h copy' s' (bs @ [al s])"
    using r(2) al_added_dom [OF r(2) c(1)] c a by (auto simp: copying_def al_added_def al_frame_def domIff)
  ultimately show ?thesis using that r by (auto simp: al_added_def al_frame_def)
qed

lemma copying_drop:
  assumes "copying h copy s bs"
  shows "\<exists>s'. listRelease copy s = Inr s' \<and> al_nodes s' = h \<and> al_freed s' = al_freed s @ (if l_free copy then al_vals s bs else [])"
  using listEmpty_rep [of copy s bs] assms by (auto simp: copying_def listRelease_def fun_eq_iff domIff disjoint_iff)

lemma dup_loop_rep:
  assumes "al_rep orig s0 (past @ todo)" "li_head it" "li_at it todo" "copying (al_nodes s0) copy s bs" "al_fresh al"
    "length bs + length todo < 2 ^ 32" "length todo \<le> n"
  shows "if \<exists>a \<in> set todo. dup_value copy (the (al_val s0 a)) = None
    then \<exists>s'. dup_loop al n it copy s = Inr (None, s') \<and> al_nodes s' = al_nodes s0
    else \<exists>copy' s' bs'. dup_loop al n it copy s = Inr (Some copy', s') \<and> copying (al_nodes s0) copy' s' bs' \<and>
      al_vals s' bs' = al_vals s bs @ map (\<lambda>v. the (dup_value copy v)) (al_vals s0 todo) \<and>
      l_dup copy' = l_dup copy \<and> l_free copy' = l_free copy \<and> l_match copy' = l_match copy"
  using assms
proof (induction todo arbitrary: past it copy s bs n)
  case Nil
  then show ?case by (cases n) (auto simp: li_at_def)
next
  case (Cons a todo)
  obtain nd where nd: "al_nodes s0 a = Some nd" using al_rep_node [OF Cons.prems(1)] by blast
  have "a \<notin> set bs" using nd Cons.prems(4) by (auto simp: copying_def)
  then have s: "al_nodes s a = Some nd" using Cons.prems(4) nd by (simp add: copying_def)
  have o: "al_rep orig s (past @ a # todo)"
    by (rule al_rep_store [OF Cons.prems(1)]) (use Cons.prems(4) al_rep_dom [OF Cons.prems(1)] in \<open>auto simp: copying_def\<close>)
  obtain it' where it: "listNext it s = Inr (Some a, it')" "li_head it'" "li_at it' todo"
    using listNext_head [OF o Cons.prems(2)] Cons.prems(2,3) by (auto simp: li_at_def)
  obtain m where m: "n = Suc m" "length todo \<le> m" using Cons.prems(7) by (cases n) auto
  have v: "the (al_val s0 a) = ln_value nd" using nd by (simp add: al_val_def)
  show ?case
  proof (cases "dup_value copy (ln_value nd)")
    case None
    then show ?thesis using copying_drop [OF Cons.prems(4)] it s m v by auto
  next
    case (Some w)
    obtain copy' s' where c: "listAddNodeTail al w copy s = Inr (copy', s')" "copying (al_nodes s0) copy' s' (bs @ [al s])"
      "al_vals s' (bs @ [al s]) = al_vals s bs @ [w]" "l_dup copy' = l_dup copy" "l_free copy' = l_free copy" "l_match copy' = l_match copy"
      using copying_step [OF Cons.prems(4,5)] Cons.prems(6) by (metis (no_types, lifting) add.assoc add_lessD1 le_add_same_cancel1 length_Cons plus_1_eq_Suc)
    have d: "dup_value copy' = dup_value copy" using c(4) by (simp add: dup_value_def fun_eq_iff)
    have loop: "dup_loop al n it copy s = dup_loop al m it' copy' s'" using it s m Some c(1) by simp
    have p: "al_rep orig s0 ((past @ [a]) @ todo)" "length (bs @ [al s]) + length todo < 2 ^ 32" using Cons.prems(1,6) by simp_all
    show ?thesis
      using Cons.IH [OF p(1) it(2,3) c(2) Cons.prems(5) p(2) m(2)] loop d c(3-6) v Some by (auto split: if_splits)
  qed
qed

lemma listDup_rep:
  assumes "al_rep orig s as" "finite (dom (al_nodes s))" "al_fresh al"
  shows "if \<exists>v \<in> set (al_vals s as). dup_value orig v = None
    then \<exists>s'. listDup al orig s = Inr (None, s') \<and> al_nodes s' = al_nodes s
    else \<exists>copy s' bs. listDup al orig s = Inr (Some copy, s') \<and> copying (al_nodes s) copy s' bs \<and>
      al_vals s' bs = map (\<lambda>v. the (dup_value orig v)) (al_vals s as) \<and>
      l_dup copy = l_dup orig \<and> l_free copy = l_free orig \<and> l_match copy = l_match orig"
proof -
  let ?copy = "listCreate\<lparr>l_dup := l_dup orig, l_free := l_free orig, l_match := l_match orig\<rparr>"
  have d: "dup_value ?copy = dup_value orig" by (simp add: dup_value_def fun_eq_iff)
  have "copying (al_nodes s) ?copy s []" using assms(2) by (simp add: copying_def al_rep_def listCreate_def)
  moreover have "length as < 2 ^ 32" "l_len orig = length as" using assms(1) by (simp_all add: al_rep_def)
  ultimately show ?thesis
    using dup_loop_rep [of orig s "[]" as "listRewind orig" ?copy s "[]" al "l_len orig"] listRewind_at(1) [OF assms(1)] assms d
    by (auto simp: listDup_def listRewind_def al_vals_def split: if_splits)
qed

section \<open>Removing while iterating\<close>

text \<open>The usage pattern of the comment of \<open>listNext\<close>: every element is visited, and the current one may be
  removed.\<close>

fun sweep :: "('v \<Rightarrow> bool) \<Rightarrow> nat \<Rightarrow> listIter \<Rightarrow> 'v list_rec \<Rightarrow> 'v al_store \<Rightarrow> ('v list_rec \<times> 'v al_store) al_res" where
  "sweep P 0 it l s = rbind (listNext it s) (\<lambda>(node, it). if node = None then Inr (l, s) else Inl AL_FUEL)"
| "sweep P (Suc n) it l s = rbind (listNext it s) (\<lambda>(node, it).
     if node = None then Inr (l, s)
     else rbind (nd_get node s) (\<lambda>nd.
       if P (ln_value nd) then sweep P n it l s
       else rbind (listDelNode (the node) l s) (\<lambda>(l, s). sweep P n it l s)))"

definition visit_order :: "listIter \<Rightarrow> nat list \<Rightarrow> nat list" where
  "visit_order it todo = (if li_head it then todo else rev todo)"

lemma li_cases:
  assumes "li_at it todo" "todo \<noteq> []"
  obtains a rest where "li_next it = Some a" "todo = (if li_head it then a # rest else rest @ [a])"
proof (cases "li_head it")
  case True
  then show ?thesis using that [of "hd todo" "tl todo"] assms by (simp add: li_at_def)
next
  case False
  then show ?thesis using that [of "last todo" "butlast todo"] assms by (simp add: li_at_def last_of_def)
qed

text \<open>One step of an iteration, in either direction.\<close>

lemma li_step:
  assumes "al_rep l s (li_list it past todo)" "li_at it todo" "todo \<noteq> []"
  obtains a rest xs ys it' nd where "todo = (if li_head it then a # rest else rest @ [a])" "li_list it past todo = xs @ a # ys"
    "xs @ ys = li_list it past rest" "a \<notin> set rest" "listNext it s = Inr (Some a, it')" "li_head it' = li_head it" "li_at it' rest"
    "al_nodes s a = Some nd"
proof -
  obtain a rest where a: "li_next it = Some a" "todo = (if li_head it then a # rest else rest @ [a])" using li_cases [OF assms(2,3)] by blast
  obtain xs ys where xy: "li_list it past todo = xs @ a # ys" "xs @ ys = li_list it past rest" "a \<notin> set rest"
    using that [of past rest] that [of rest past] a(2) assms(1) by (auto simp: li_list_def al_rep_def split: if_splits)
  obtain it' where it: "listNext it s = Inr (Some a, it')" "li_head it' = li_head it" "li_at it' rest"
  proof (cases "li_head it")
    case True
    then show ?thesis using that listNext_head [of l s past a rest it] a assms(1) by (auto simp: li_list_def)
  next
    case False
    then show ?thesis using that listNext_tail [of l s rest a past it] a assms(1) by (auto simp: li_list_def)
  qed
  obtain nd where "al_nodes s a = Some nd" using al_rep_node [of l s xs a ys] assms(1) xy(1) by auto
  then show ?thesis using that a(2) xy it by blast
qed

lemma sweep_rep:
  assumes "al_rep l s (li_list it past todo)" "li_at it todo" "length todo \<le> n"
  shows "\<exists>l' s'. sweep P n it l s = Inr (l', s') \<and> al_rep l' s' (li_list it past (filter (\<lambda>a. P (the (al_val s a))) todo)) \<and>
    (\<forall>x. x \<notin> set todo \<or> P (the (al_val s x)) \<longrightarrow> al_val s' x = al_val s x) \<and>
    al_freed s' = al_freed s @ (if l_free l then filter (\<lambda>v. \<not> P v) (al_vals s (visit_order it todo)) else [])"
  using assms
proof (induction n arbitrary: it past todo l s)
  case 0
  then show ?case by (auto simp: li_at_def visit_order_def last_of_def)
next
  case (Suc n)
  show ?case
  proof (cases "todo = []")
    case True
    then show ?thesis using Suc.prems by (auto simp: li_at_def visit_order_def)
  next
    case False
    obtain a rest xs ys it' nd where a: "todo = (if li_head it then a # rest else rest @ [a])" and xy: "li_list it past todo = xs @ a # ys"
      "xs @ ys = li_list it past rest" "a \<notin> set rest" and it: "listNext it s = Inr (Some a, it')" "li_head it' = li_head it" "li_at it' rest"
      and nd: "al_nodes s a = Some nd" using li_step [OF Suc.prems(1,2) False] by blast
    have lists: "li_list it' p r = li_list it p r" "visit_order it' r = visit_order it r" for p r using it(2) by (simp_all add: li_list_def visit_order_def)
    have v: "the (al_val s a) = ln_value nd" using nd by (simp add: al_val_def)
    have len: "length rest \<le> n" using a Suc.prems(3) by (simp split: if_splits)
    show ?thesis
    proof (cases "P (ln_value nd)")
      case True
      define p' where "p' = (if li_head it then past @ [a] else a # past)"
      have "al_rep l s (li_list it' p' rest)" unfolding lists using Suc.prems(1) a by (auto simp: p'_def li_list_def split: if_splits)
      from Suc.IH [OF this it(3) len, unfolded lists] show ?thesis
        using True it(1) nd v a xy(3) by (auto simp: p'_def li_list_def visit_order_def split: if_splits)
    next
      case False
      have "al_rep l s (xs @ a # ys)" using Suc.prems(1) xy(1) by simp
      from listDelNode_rep [OF this] obtain l1 s1 where d: "listDelNode a l s = Inr (l1, s1)" "al_rep l1 s1 (xs @ ys)" "l_free l1 = l_free l"
        "\<And>x. x \<noteq> a \<Longrightarrow> al_val s1 x = al_val s x" "al_freed s1 = al_freed s @ (if l_free l then [ln_value nd] else [])" unfolding v al_frame_def by blast
      have "al_rep l1 s1 (li_list it' past rest)" using d(2) xy(2) by (simp add: lists)
      from Suc.IH [OF this it(3) len] obtain l' s' where r: "sweep P n it' l1 s1 = Inr (l', s')"
        "al_rep l' s' (li_list it past (filter (\<lambda>a. P (the (al_val s1 a))) rest))" "\<And>x. x \<notin> set rest \<or> P (the (al_val s1 x)) \<Longrightarrow> al_val s' x = al_val s1 x"
        "al_freed s' = al_freed s1 @ (if l_free l1 then filter (\<lambda>v. \<not> P v) (al_vals s1 (visit_order it rest)) else [])" unfolding lists by blast
      have f: "filter (\<lambda>a. P (the (al_val s1 a))) rest = filter (\<lambda>a. P (the (al_val s a))) todo"
      proof -
        have "al_val s1 x = al_val s x" if "x \<in> set rest" for x using that xy(3) d(4) by metis
        then have "filter (\<lambda>a. P (the (al_val s1 a))) rest = filter (\<lambda>a. P (the (al_val s a))) rest" by (simp cong: filter_cong)
        then show ?thesis using False v a by simp
      qed
      have w: "al_vals s1 (visit_order it rest) = al_vals s (visit_order it rest)"
      proof (rule al_vals_cong)
        show "al_val s1 x = al_val s x" if "x \<in> set (visit_order it rest)" for x using that xy(3) d(4) by (metis set_rev visit_order_def)
      qed
      have keep: "al_val s' x = al_val s x" if "x \<notin> set todo \<or> P (the (al_val s x))" for x
        using that r(3) [of x] d(4) [of x] False v a by (auto split: if_splits)
      have "al_freed s' = al_freed s @ (if l_free l then filter (\<lambda>v. \<not> P v) (al_vals s (visit_order it todo)) else [])"
        using r(4) d(3,5) w False v a by (simp add: visit_order_def)
      then show ?thesis using r(1,2) f keep d(1) it(1) nd False by auto
    qed
  qed
qed

section \<open>The contract of a sequence\<close>

definition al_at :: "int \<Rightarrow> (nat \<Rightarrow> 'v list_rec \<Rightarrow> 'v al_store \<Rightarrow> ('v list_rec \<times> 'v al_store) al_res) \<Rightarrow> 'v list_rec \<times> 'v al_store \<Rightarrow> ('v list_rec \<times> 'v al_store) al_res" where
  "al_at i f ls = (case ls of (l, s) \<Rightarrow> rbind (listIndex l i s) (\<lambda>n. case n of None \<Rightarrow> Inr (l, s) | Some a \<Rightarrow> f a l s))"

fun al_exec :: "('v al_store \<Rightarrow> nat) \<Rightarrow> 'v seq_op \<Rightarrow> 'v list_rec \<times> 'v al_store \<Rightarrow> ('v list_rec \<times> 'v al_store) al_res" where
  "al_exec al (PushBack v) (l, s) = listAddNodeTail al v l s"
| "al_exec al (PushFront v) (l, s) = listAddNodeHead al v l s"
| "al_exec al (InsertAt i v) ls = al_at (int i) (\<lambda>a. listInsertNode al a v False) ls"
| "al_exec al (DeleteAt i) ls = al_at (int i) listDelNode ls"

definition al_get :: "'v list_rec \<times> 'v al_store \<Rightarrow> nat \<Rightarrow> 'v option al_res" where
  "al_get ls i = (case ls of (l, s) \<Rightarrow> rbind (listIndex l (int i) s) (\<lambda>n. case n of
     None \<Rightarrow> Inr None | Some a \<Rightarrow> rbind (nd_get (Some a) s) (\<lambda>nd. Inr (Some (ln_value nd)))))"

definition al_seq :: "'v list_rec \<times> 'v al_store \<Rightarrow> 'v list \<Rightarrow> bool" where
  "al_seq ls xs \<longleftrightarrow> (case ls of (l, s) \<Rightarrow> finite (dom (al_nodes s)) \<and> (\<exists>as. al_rep l s as \<and> al_vals s as = xs))"

lemma al_added_seq:
  assumes "al_added a v as as' l s l' s'" "al_rep l s as" "finite (dom (al_nodes s))" "a \<notin> set (xs @ ys)" "as' = xs @ a # ys"
  shows "al_seq (l', s') (al_vals s xs @ v # al_vals s ys)"
proof -
  have "al_val s' x = al_val s x" if "x \<in> set (xs @ ys)" for x using assms(1,4) that unfolding al_added_def by metis
  then have "al_vals s' xs = al_vals s xs" "al_vals s' ys = al_vals s ys" by (auto intro: al_vals_cong)
  then show ?thesis
    using assms al_added_dom [OF assms(1,2)] by (auto simp: al_seq_def al_added_def intro!: exI [of _ as'])
qed

lemma nth_split: "i < length as \<Longrightarrow> as = take i as @ as ! i # drop (Suc i) as"
  by (rule id_take_nth_drop)

lemma al_vals_part:
  assumes "al_vals s as = xs"
  shows "al_vals s (take i as) = take i xs" "al_vals s (drop i as) = drop i xs"
  unfolding assms [symmetric] by (simp_all add: al_vals_def take_map drop_map)

lemma al_insert_seq:
  assumes r: "al_rep l s as" "finite (dom (al_nodes s))" "al_vals s as = xs" and a: "al s \<notin> dom (al_nodes s)" and i: "i < length as" "length as + 1 < 2 ^ 32"
  shows "\<exists>ls. listInsertNode al (as ! i) v False l s = Inr ls \<and> al_seq ls (take i xs @ v # drop i xs)"
proof -
  have e: "take i as @ as ! i # drop (Suc i) as = as" using nth_split [OF i(1)] by simp
  then have sp: "al_rep l s (take i as @ as ! i # drop (Suc i) as)" using r(1) by simp
  obtain l' s' where n: "listInsertNode al (as ! i) v False l s = Inr (l', s')" "al_added (al s) v as (take i as @ al s # as ! i # drop (Suc i) as) l s l' s'"
    using listInsertNode_rep [where al = al and after = False and v = v, OF sp a, unfolded e] i(2) by auto
  have "al s \<notin> set as" using a al_rep_dom [OF r(1)] by blast
  then have "al_seq (l', s') (al_vals s (take i as) @ v # al_vals s (drop i as))"
    by (intro al_added_seq [OF n(2) r(1,2)]) (use i(1) in \<open>auto simp: Cons_nth_drop_Suc dest: in_set_takeD in_set_dropD\<close>)
  then show ?thesis using n(1) al_vals_part [OF r(3)] by simp
qed

lemma al_delete_seq:
  assumes r: "al_rep l s as" "finite (dom (al_nodes s))" "al_vals s as = xs" and i: "i < length as"
  shows "\<exists>ls. listDelNode (as ! i) l s = Inr ls \<and> al_seq ls (take i xs @ drop (Suc i) xs)"
proof -
  let ?as = "take i as @ drop (Suc i) as"
  have sp: "al_rep l s (take i as @ as ! i # drop (Suc i) as)" using r(1) nth_split [OF i] by simp
  obtain l' s' where d: "listDelNode (as ! i) l s = Inr (l', s')" "al_rep l' s' ?as" "al_nodes s' (as ! i) = None"
    "\<And>x. x \<noteq> as ! i \<Longrightarrow> al_val s' x = al_val s x" using listDelNode_rep [OF sp] by blast
  have "al_val s' x = al_val s x" if "x \<in> set ?as" for x using d(4) [of x] that sp by (auto simp: al_rep_def)
  then have "al_vals s' ?as = al_vals s ?as" by (rule al_vals_cong)
  then have v: "al_vals s' ?as = take i xs @ drop (Suc i) xs" using al_vals_part [OF r(3)] by simp
  have "dom (al_nodes s') \<subseteq> dom (al_nodes s)"
  proof
    show "x \<in> dom (al_nodes s)" if "x \<in> dom (al_nodes s')" for x
      using that d(3) d(4) [of x] by (cases "x = as ! i"; cases "al_nodes s x") (auto simp: al_val_def)
  qed
  then show ?thesis using d(1,2) v r(2) by (auto simp: al_seq_def intro: finite_subset)
qed

lemma al_exec_seq:
  assumes f: "al_fresh al" and s: "al_seq ls xs" "length (seq_spec op xs) < 2 ^ 32"
  shows "\<exists>ls'. al_exec al op ls = Inr ls' \<and> al_seq ls' (seq_spec op xs)"
proof -
  obtain l st as where r: "ls = (l, st)" "finite (dom (al_nodes st))" "al_rep l st as" "al_vals st as = xs" using s(1) by (cases ls) (auto simp: al_seq_def)
  have a: "al st \<notin> dom (al_nodes st)" "al st \<notin> set as" using f r(2) al_rep_dom [OF r(3)] by (auto simp: al_fresh_def)
  have len: "length xs = length as" using r(4) by auto
  note at = listIndex_rep [OF r(3), of "int _"]
  show ?thesis
  proof (cases op)
    case (PushBack v)
    then show ?thesis using listAddNode_rep(2) [where al = al, OF r(3) a(1)] al_added_seq [where xs = as and ys = "[]"] r a s(2) len by fastforce
  next
    case (PushFront v)
    then show ?thesis using listAddNode_rep(1) [where al = al, OF r(3) a(1)] al_added_seq [where xs = "[]" and ys = as] r a s(2) len by fastforce
  next
    case (InsertAt i v)
    then show ?thesis using al_insert_seq [where al = al, OF r(3,2,4) a(1), of i v] at [of i] r(1) s len by (cases "i < length as") (simp_all add: al_at_def)
  next
    case (DeleteAt i)
    then show ?thesis using al_delete_seq [OF r(3,2,4), of i] at [of i] r(1) s(1) len by (cases "i < length as") (simp_all add: al_at_def)
  qed
qed

lemma al_get_seq: "al_seq ls xs \<Longrightarrow> al_get ls i = Inr (if i < length xs then Some (xs ! i) else None)"
proof -
  assume "al_seq ls xs"
  then obtain l st as where r: "ls = (l, st)" "al_rep l st as" "al_vals st as = xs" by (cases ls) (auto simp: al_seq_def)
  show ?thesis
  proof (cases "i < length as")
    case True
    obtain nd where "al_nodes st (as ! i) = Some nd" using al_rep_dom [OF r(2)] nth_mem [OF True] by blast
    then show ?thesis using True r listIndex_rep [OF r(2), of "int i"] by (auto simp: al_get_def al_vals_def al_val_def)
  next
    case False
    then show ?thesis using r listIndex_rep [OF r(2), of "int i"] by (auto simp: al_get_def)
  qed
qed

lemma al_seq_store: "al_fresh al \<Longrightarrow> seq_store al_seq (\<lambda>xs. length xs < 2 ^ 32) (al_exec al) al_get"
  by unfold_locales (rule al_exec_seq, assumption+, rule al_get_seq, assumption)

definition lowest_free :: "'v al_store \<Rightarrow> nat" where
  "lowest_free s = (LEAST a. a \<notin> dom (al_nodes s))"

lemma lowest_free_fresh: "al_fresh lowest_free"
  by (simp add: al_fresh_def lowest_free_def least_free)

interpretation als: seq_store al_seq "\<lambda>xs. length xs < 2 ^ 32" "al_exec lowest_free" al_get
  by (rule al_seq_store [OF lowest_free_fresh])

section \<open>Properties\<close>

text \<open>C19: The linked list implements a sequence, for every allocator that returns free addresses: pushes
  at both ends, insertions and deletions by index keep the links, the ends and the length right, no
  assertion fails, and reading by index gives the elements.\<close>

theorem adlist_refines_list:
  assumes "al_fresh al" "\<forall>k \<le> length ops. length (fold seq_spec (take k ops) []) < 2 ^ 32"
  shows "\<exists>ls. seq_run (al_exec al) ops (listCreate, \<lparr>al_nodes = Map.empty, al_freed = []\<rparr>) = Inr ls \<and>
    l_len (fst ls) = length (fold seq_spec ops []) \<and>
    (\<forall>i. al_get ls i = Inr (if i < length (fold seq_spec ops []) then Some (fold seq_spec ops [] ! i) else None))"
proof -
  have "al_seq (listCreate, \<lparr>al_nodes = Map.empty, al_freed = []\<rparr>) []" by (simp add: al_seq_def al_rep_def listCreate_def)
  from seq_store.run_get [OF al_seq_store [OF assms(1)] this assms(2)] obtain ls where
    ls: "seq_run (al_exec al) ops (listCreate, \<lparr>al_nodes = Map.empty, al_freed = []\<rparr>) = Inr ls" "al_seq ls (fold seq_spec ops [])"
      "\<forall>i. al_get ls i = Inr (if i < length (fold seq_spec ops []) then Some (fold seq_spec ops [] ! i) else None)" by blast
  have "l_len (fst ls) = length (fold seq_spec ops [])" using ls(2) by (cases ls) (auto simp: al_seq_def al_rep_def dest: arg_cong [of _ _ length])
  then show ?thesis using ls by blast
qed

theorem adlist_refines_list_witness:
  "\<exists>ls. seq_run (al_exec lowest_free) [PushBack (1 :: nat), PushFront 0, InsertAt 1 7, DeleteAt 0] (listCreate, \<lparr>al_nodes = Map.empty, al_freed = []\<rparr>) = Inr ls \<and>
    al_get ls 0 = Inr (Some 7) \<and> al_get ls 2 = Inr None"
  using adlist_refines_list [OF lowest_free_fresh, of "[PushBack (1 :: nat), PushFront 0, InsertAt 1 7, DeleteAt 0]"]
  by (auto simp: le_Suc_eq)

text \<open>C20: An iterator visits every element once, from either end, and the element just returned may be
  deleted: removing every element that fails \<open>P\<close> on the way leaves exactly the others, in order, and
  passes exactly the removed values to the free method, in the order of the visit.\<close>

theorem adlist_sweep:
  assumes "al_rep l s as"
  shows "\<exists>l' s'. sweep P (l_len l) (if head then listRewind l else listRewindTail l) l s = Inr (l', s') \<and>
    al_rep l' s' (filter (\<lambda>a. P (the (al_val s a))) as) \<and>
    al_vals s' (filter (\<lambda>a. P (the (al_val s a))) as) = filter P (al_vals s as) \<and>
    al_freed s' = al_freed s @ (if l_free l then filter (\<lambda>v. \<not> P v) (if head then al_vals s as else rev (al_vals s as)) else [])"
proof -
  let ?it = "if head then listRewind l else listRewindTail l" and ?f = "filter (\<lambda>a. P (the (al_val s a))) as"
  have it: "li_head ?it = head" "li_at ?it as" "l_len l = length as" using listRewind_at [OF assms] assms by (auto simp: listRewind_def listRewindTail_def al_rep_def)
  have "al_rep l s (li_list ?it [] as)" using assms by (simp add: li_list_def)
  from sweep_rep [OF this it(2), of "l_len l" P] it(1,3) obtain l' s' where r: "sweep P (l_len l) ?it l s = Inr (l', s')" "al_rep l' s' ?f"
    "\<And>x. P (the (al_val s x)) \<Longrightarrow> al_val s' x = al_val s x" "al_freed s' = al_freed s @ (if l_free l then filter (\<lambda>v. \<not> P v) (al_vals s (visit_order ?it as)) else [])"
    by (auto simp: li_list_def)
  have "al_vals s' ?f = al_vals s ?f" by (rule al_vals_cong) (use r(3) in simp)
  also have "\<dots> = filter P (al_vals s as)" by (simp add: al_vals_def filter_map comp_def)
  finally show ?thesis using r it(1) by (simp add: visit_order_def al_vals_def rev_map)
qed

definition three_nodes :: "nat al_store" where
  "three_nodes = \<lparr>al_nodes = [5 \<mapsto> \<lparr>ln_prev = None, ln_next = Some 6, ln_value = 10\<rparr>,
     6 \<mapsto> \<lparr>ln_prev = Some 5, ln_next = Some 7, ln_value = 11\<rparr>, 7 \<mapsto> \<lparr>ln_prev = Some 6, ln_next = None, ln_value = 12\<rparr>], al_freed = []\<rparr>"

definition three_list :: "nat list_rec" where
  "three_list = \<lparr>l_head = Some 5, l_tail = Some 7, l_dup = None, l_free = True, l_match = None, l_len = 3\<rparr>"

lemma three_rep: "al_rep three_list three_nodes [5, 6, 7]"
  by (simp add: al_rep_def three_list_def three_nodes_def)

theorem adlist_sweep_witness:
  "\<exists>l' s'. sweep even (l_len three_list) (listRewindTail three_list) three_list three_nodes = Inr (l', s') \<and>
    al_rep l' s' [5, 7] \<and> al_vals s' [5, 7] = [10, 12] \<and> al_freed s' = [11]"
  using adlist_sweep [OF three_rep, of even False] by (simp add: three_list_def three_nodes_def al_val_def al_vals_def)

text \<open>C21: A copy has the duplicated values in order and its own nodes; the original and every other node are
  as before.  When the dup method fails for some value, NULL is returned and no node is left behind.\<close>

theorem adlist_dup:
  assumes "al_rep orig s as" "finite (dom (al_nodes s))" "al_fresh al"
  shows "if \<exists>v \<in> set (al_vals s as). dup_value orig v = None
    then \<exists>s'. listDup al orig s = Inr (None, s') \<and> al_nodes s' = al_nodes s
    else \<exists>copy s' bs. listDup al orig s = Inr (Some copy, s') \<and> al_rep copy s' bs \<and> al_rep orig s' as \<and>
      al_vals s' bs = map (\<lambda>v. the (dup_value orig v)) (al_vals s as) \<and> set bs \<inter> dom (al_nodes s) = {} \<and>
      (\<forall>x. x \<notin> set bs \<longrightarrow> al_nodes s' x = al_nodes s x)"
proof -
  have "al_rep orig s' as" if "copying (al_nodes s) copy s' bs" for copy s' bs
    by (rule al_rep_store [OF assms(1)]) (use that al_rep_dom [OF assms(1)] in \<open>auto simp: copying_def\<close>)
  then show ?thesis using listDup_rep [OF assms] by (auto simp: copying_def split: if_splits)
qed

theorem adlist_dup_witness:
  "\<exists>copy s' bs. listDup lowest_free three_list three_nodes = Inr (Some copy, s') \<and> al_rep copy s' bs \<and> al_vals s' bs = [10, 11, 12]"
proof -
  have "finite (dom (al_nodes three_nodes))" "al_vals three_nodes [5, 6, 7] = [10, 11, 12]" "dup_value three_list v = Some v" for v
    by (simp_all add: three_list_def three_nodes_def al_val_def dup_value_def)
  then show ?thesis using adlist_dup [OF three_rep _ lowest_free_fresh] by (simp del: al_vals_simps) blast
qed

end
