(* ===== verification/Sds_Args.thy ===== *)
theory Sds_Args
  imports Prelude
begin

text \<open>
  Splitting a line into arguments and quoting a string (\<^verbatim>\<open>sds.c\<close>: sdssplitargs, sdsnsplitargs,
  sdscatrepr).  The memory a line lives in is a list of bytes, a pointer an index into it; the
  pointer \<open>end\<close> may be NULL.  A read outside the memory is \<open>SDS_UB\<close>, a failed assertion \<open>SDS_ASSERT\<close>.
\<close>

section \<open>Characters\<close>

datatype sds_error = SDS_UB | SDS_ASSERT

type_synonym 'a sds_res = "sds_error + 'a"

definition isprint :: "byte \<Rightarrow> bool" where
  "isprint c \<longleftrightarrow> 32 \<le> c \<and> c \<le> 126"

definition isspace :: "byte \<Rightarrow> bool" where
  "isspace c \<longleftrightarrow> c = 32 \<or> 9 \<le> c \<and> c \<le> 13"

definition is_hex_digit :: "byte \<Rightarrow> bool" where
  "is_hex_digit c \<longleftrightarrow> 48 \<le> c \<and> c \<le> 57 \<or> 97 \<le> c \<and> c \<le> 102 \<or> 65 \<le> c \<and> c \<le> 70"

definition hex_digit_to_int :: "byte \<Rightarrow> byte" where
  "hex_digit_to_int c =
     (if 48 \<le> c \<and> c \<le> 57 then c - 48
      else if 97 \<le> c \<and> c \<le> 102 then c - 87
      else if 65 \<le> c \<and> c \<le> 70 then c - 55
      else 0)"

section \<open>Quoting\<close>

text \<open>A character that sdscatrepr copies as it is.\<close>

definition plain_char :: "byte \<Rightarrow> bool" where
  "plain_char c \<longleftrightarrow> isprint c \<and> c \<noteq> 92 \<and> c \<noteq> 34"

text \<open>A digit of the conversion \<open>%02x\<close>.\<close>

definition hex_char :: "byte \<Rightarrow> byte" where
  "hex_char n = (if n < 10 then 48 + n else 87 + n)"

definition repr_char :: "byte \<Rightarrow> bytes" where
  "repr_char c =
     (if c = 92 \<or> c = 34 then [92, c]
      else if c = 10 then [92, 110]
      else if c = 13 then [92, 114]
      else if c = 9 then [92, 116]
      else if c = 7 then [92, 97]
      else if c = 8 then [92, 98]
      else [92, 120, hex_char (c div 16), hex_char (c mod 16)])"

function catrepr_loop :: "bytes \<Rightarrow> bytes" where
  "catrepr_loop [] = []"
| "catrepr_loop (c # p) =
     (if plain_char c then takeWhile plain_char (c # p) @ catrepr_loop (dropWhile plain_char (c # p))
      else repr_char c @ catrepr_loop p)"
  by pat_completeness auto

termination
  by (relation "measure length") (auto simp: le_imp_less_Suc length_dropWhile_le)

definition sdscatrepr :: "bytes \<Rightarrow> bytes \<Rightarrow> bytes" where
  "sdscatrepr s p = s @ [34] @ catrepr_loop p @ [34]"

definition sdsneedsrepr :: "bytes \<Rightarrow> bool" where
  "sdsneedsrepr s = list_ex (\<lambda>c. c = 92 \<or> c = 34 \<or> c = 10 \<or> c = 13 \<or> c = 9 \<or> c = 7 \<or> c = 8 \<or> \<not> isprint c \<or> isspace c) s"

section \<open>Splitting\<close>

definition ld :: "bytes \<Rightarrow> nat \<Rightarrow> byte sds_res" where
  "ld m p = (if p < length m then Inr (m ! p) else Inl SDS_UB)"

text \<open>The operator \<open>&&\<close> on a test of the byte at \<open>p\<close>: what follows is read only if the test holds.\<close>

definition ld_and :: "bytes \<Rightarrow> nat \<Rightarrow> (byte \<Rightarrow> bool) \<Rightarrow> bool sds_res \<Rightarrow> bool sds_res" where
  "ld_and m p t r = rbind (ld m p) (\<lambda>c. if t c then r else Inr False)"

definition isPtrExceedingEnd :: "nat \<Rightarrow> nat \<Rightarrow> nat option \<Rightarrow> bool" where
  "isPtrExceedingEnd p len e = (case e of None \<Rightarrow> False | Some e \<Rightarrow> p + len \<ge> e)"

definition escape_char :: "byte \<Rightarrow> byte" where
  "escape_char c =
     (if c = 110 then 10 else if c = 114 then 13 else if c = 116 then 9
      else if c = 98 then 8 else if c = 97 then 7 else c)"

text \<open>One turn of the loop of sdsparsearg: \<open>None\<close> when it returns 0 for unterminated quotes, otherwise the
  new \<open>p\<close>, \<open>inq\<close>, \<open>insq\<close>, \<open>done\<close> and the character produced, if any.\<close>

definition parse_inq :: "bytes \<Rightarrow> nat option \<Rightarrow> nat \<Rightarrow> (nat \<times> bool \<times> bool \<times> bool \<times> bytes) option sds_res" where
  "parse_inq m e p = rbind (ld m p) (\<lambda>c.
     if c = 0 then Inr None
     else rbind (if isPtrExceedingEnd p 4 e then Inr False
                 else ld_and m p (\<lambda>c. c = 92) (ld_and m (p + 1) (\<lambda>c. c = 120)
                        (ld_and m (p + 2) is_hex_digit (ld_and m (p + 3) is_hex_digit (Inr True))))) (\<lambda>hex.
       if hex then rbind (ld m (p + 2)) (\<lambda>h. rbind (ld m (p + 3)) (\<lambda>l.
         Inr (Some (p + 4, True, False, False, [hex_digit_to_int h * 16 + hex_digit_to_int l]))))
       else rbind (if isPtrExceedingEnd p 2 e then Inr False
                   else ld_and m p (\<lambda>c. c = 92) (ld_and m (p + 1) (\<lambda>c. c \<noteq> 0) (Inr True))) (\<lambda>esc.
         if esc then rbind (ld m (p + 1)) (\<lambda>d. Inr (Some (p + 2, True, False, False, [escape_char d])))
         else if c = 34 then Inr (Some (p + 1, False, False, False, []))
         else Inr (Some (p + 1, True, False, False, [c])))))"

definition parse_insq :: "bytes \<Rightarrow> nat option \<Rightarrow> nat \<Rightarrow> (nat \<times> bool \<times> bool \<times> bool \<times> bytes) option sds_res" where
  "parse_insq m e p = rbind (ld m p) (\<lambda>c.
     if c = 0 then Inr None
     else rbind (if isPtrExceedingEnd p 2 e then Inr False
                 else ld_and m p (\<lambda>c. c = 92) (ld_and m (p + 1) (\<lambda>c. c = 39) (Inr True))) (\<lambda>esc.
       if esc then Inr (Some (p + 2, False, True, False, [39]))
       else if c = 39 then Inr (Some (p + 1, False, False, False, []))
       else Inr (Some (p + 1, False, True, False, [c]))))"

definition parse_unq :: "bytes \<Rightarrow> nat \<Rightarrow> (nat \<times> bool \<times> bool \<times> bool \<times> bytes) option sds_res" where
  "parse_unq m p = rbind (ld m p) (\<lambda>c.
     let stop = c = 32 \<or> c = 10 \<or> c = 13 \<or> c = 9 \<or> c = 0;
         p = (if c \<noteq> 0 then p + 1 else p)
     in if stop then Inr (Some (p, False, False, True, []))
        else if c = 34 then Inr (Some (p, True, False, False, []))
        else if c = 39 then Inr (Some (p, False, True, False, []))
        else Inr (Some (p, False, False, False, [c])))"

definition parse_step :: "bytes \<Rightarrow> nat option \<Rightarrow> nat \<Rightarrow> bool \<Rightarrow> bool \<Rightarrow> (nat \<times> bool \<times> bool \<times> bool \<times> bytes) option sds_res" where
  "parse_step m e p inq insq = (if inq then parse_inq m e p else if insq then parse_insq m e p else parse_unq m p)"

lemmas parse_step_defs = parse_step_def parse_inq_def parse_insq_def parse_unq_def

lemma ld_Inr [simp]: "ld m p = Inr c \<longleftrightarrow> p < length m \<and> c = m ! p"
  by (auto simp: ld_def)

lemma parse_step_progress:
  "parse_step m e p inq insq = Inr (Some (p', inq', insq', False, nc)) \<Longrightarrow> p < length m \<and> p < p'"
  by (auto simp: parse_step_defs rbind_Inr Let_def split: if_splits)

text \<open>The loop; \<open>out\<close> is what has been stored at \<open>dst\<close>.  The result is the number of characters parsed, 0
  for an argument that cannot be parsed, and the bytes stored.  (The code runs it twice, first to
  count the bytes with \<open>len\<close>, then to store them.)\<close>

function parse_loop :: "bytes \<Rightarrow> nat option \<Rightarrow> nat \<Rightarrow> nat \<Rightarrow> bool \<Rightarrow> bool \<Rightarrow> bytes \<Rightarrow> (nat \<times> bytes) sds_res" where
  "parse_loop m e arg p inq insq out = rbind (parse_step m e p inq insq) (\<lambda>r. case r of
     None \<Rightarrow> Inr (0, out)
   | Some (p', inq', insq', fin, nc) \<Rightarrow>
       if isPtrExceedingEnd p' 0 e then (if inq' \<or> insq' then Inr (0, out @ nc) else Inr (p' - arg, out @ nc))
       else if fin then Inr (p' - arg, out @ nc)
       else parse_loop m e arg p' inq' insq' (out @ nc))"
  by pat_completeness auto

termination
  by (relation "measure (\<lambda>(m, e, arg, p, inq, insq, out). length m - p)") (auto dest!: parse_step_progress)

declare parse_loop.simps [simp del]

definition sdsparsearg :: "bytes \<Rightarrow> nat option \<Rightarrow> nat \<Rightarrow> (nat \<times> bytes) sds_res" where
  "sdsparsearg m e arg = (if isPtrExceedingEnd arg 0 e then Inr (0, []) else parse_loop m e arg arg False False [])"

text \<open>The condition \<open>*p && !isPtrExceedingEnd(p, 0, end)\<close>.\<close>

definition more_input :: "bytes \<Rightarrow> nat option \<Rightarrow> nat \<Rightarrow> bool sds_res" where
  "more_input m e p = rbind (ld m p) (\<lambda>c. Inr (c \<noteq> 0 \<and> \<not> isPtrExceedingEnd p 0 e))"

function skip_blanks :: "bytes \<Rightarrow> nat option \<Rightarrow> nat \<Rightarrow> nat sds_res" where
  "skip_blanks m e p = rbind (more_input m e p) (\<lambda>b.
     if b \<and> isspace (m ! p) then skip_blanks m e (p + 1) else Inr p)"
  by pat_completeness auto

termination
  by (relation "measure (\<lambda>(m, e, p). length m - p)") (auto simp: more_input_def rbind_Inr)

declare skip_blanks.simps [simp del]

lemma skip_blanks_le: "skip_blanks m e p = Inr q \<Longrightarrow> p \<le> q"
proof (induction m e p rule: skip_blanks.induct)
  case (1 m e p)
  from 1(2) obtain b where "more_input m e p = Inr b"
    by (subst (asm) skip_blanks.simps) (auto simp: rbind_Inr)
  with 1 show ?case by (subst (asm) (2) skip_blanks.simps) (fastforce split: if_splits)
qed

function split_loop :: "bytes \<Rightarrow> nat option \<Rightarrow> nat \<Rightarrow> bytes list \<Rightarrow> bytes list option sds_res" where
  "split_loop m e p vector = rbind (more_input m e p) (\<lambda>b.
     if \<not> b then Inr (Some vector)
     else rbind (skip_blanks m e p) (\<lambda>q. rbind (more_input m e q) (\<lambda>b.
       if \<not> b then Inr (Some vector)
       else rbind (sdsparsearg m e q) (\<lambda>(n, tok).
         if n = 0 then Inr None else split_loop m e (q + n) (vector @ [tok])))))"
  by pat_completeness auto

termination
  by (relation "measure (\<lambda>(m, e, p, v). length m - p)") (auto simp: more_input_def rbind_Inr dest!: skip_blanks_le)

declare split_loop.simps [simp del]

definition sdsnsplitargs_internal :: "bytes \<Rightarrow> nat \<Rightarrow> nat option \<Rightarrow> bytes list option sds_res" where
  "sdsnsplitargs_internal m line e = split_loop m e line []"

definition sdssplitargs :: "bytes \<Rightarrow> nat \<Rightarrow> bytes list option sds_res" where
  "sdssplitargs m line = sdsnsplitargs_internal m line None"

definition sdsnsplitargs :: "bytes \<Rightarrow> nat \<Rightarrow> nat \<Rightarrow> bytes list option sds_res" where
  "sdsnsplitargs m line len = sdsnsplitargs_internal m line (Some (line + len))"

section \<open>Reads stay inside\<close>

text \<open>\<open>p\<close> may be read, and reading ends at \<open>end\<close> or at a zero byte.\<close>

definition line_at :: "bytes \<Rightarrow> nat option \<Rightarrow> nat \<Rightarrow> bool" where
  "line_at m e p \<longleftrightarrow> (case e of Some q \<Rightarrow> p \<le> q \<and> q < length m | None \<Rightarrow> \<exists>k\<ge>p. k < length m \<and> m ! k = 0)"

lemma line_at_ld: "line_at m e p \<Longrightarrow> p < length m"
  by (auto simp: line_at_def split: option.splits)

lemma line_at_Suc:
  "line_at m e p \<Longrightarrow> m ! p \<noteq> 0 \<Longrightarrow> \<not> isPtrExceedingEnd p 0 e \<Longrightarrow> line_at m e (Suc p)"
  by (auto simp: line_at_def isPtrExceedingEnd_def Suc_le_eq split: option.splits) (metis le_neq_implies_less)

lemma exceeding_mono: "isPtrExceedingEnd p k e \<Longrightarrow> p + k \<le> q + l \<Longrightarrow> isPtrExceedingEnd q l e"
  by (auto simp: isPtrExceedingEnd_def split: option.splits)

lemma ld_and_Inr [simp]: "p < length m \<Longrightarrow> ld_and m p t r = (if t (m ! p) then r else Inr False)"
  by (simp add: ld_and_def ld_def)

lemma ld_in [simp]: "p < length m \<Longrightarrow> ld m p = Inr (m ! p)"
  by (simp add: ld_def)

lemma is_hex_digit_nz: "is_hex_digit c \<Longrightarrow> c \<noteq> 0"
  by (auto simp: is_hex_digit_def)

text \<open>Bytes further on can be read as long as the ones before are not zero and \<open>end\<close> is not reached.\<close>

lemma line_at_steps:
  assumes "line_at m e p" "\<not> isPtrExceedingEnd p k e" "\<forall>i < k. m ! (p + i) \<noteq> 0"
  shows "line_at m e (p + k)"
  using assms(2,3)
proof (induction k)
  case (Suc k)
  have "\<not> isPtrExceedingEnd p k e" "\<not> isPtrExceedingEnd (p + k) 0 e"
    using Suc.prems(1) exceeding_mono [of p k e p "Suc k"] exceeding_mono [of "p + k" 0 e p "Suc k"] by auto
  then have "line_at m e (p + k)" "m ! (p + k) \<noteq> 0" "\<not> isPtrExceedingEnd (p + k) 0 e" using Suc by auto
  then show ?case using line_at_Suc by simp
qed (use assms in simp)

lemma all_below:
  "(\<forall>i < 2. P i) \<longleftrightarrow> P 0 \<and> P (1 :: nat)"
  "(\<forall>i < 3. P i) \<longleftrightarrow> P 0 \<and> P 1 \<and> P (2 :: nat)"
  "(\<forall>i < 4. P i) \<longleftrightarrow> P 0 \<and> P 1 \<and> P 2 \<and> P (3 :: nat)"
  by (auto simp: eval_nat_numeral less_Suc_eq)

lemma parse_inq_safe:
  assumes "line_at m e p" "\<not> isPtrExceedingEnd p 0 e"
  shows "ensures (parse_inq m e p) (\<lambda>r. \<forall>p' q s d nc. r = Some (p', q, s, d, nc) \<longrightarrow> line_at m e p' \<and> p < p')"
proof -
  have p: "p < length m" using assms(1) by (rule line_at_ld)
  have s: "line_at m e (p + k)" "p + k < length m" if "\<not> isPtrExceedingEnd p k e" "\<forall>i < k. m ! (p + i) \<noteq> 0" for k
    using line_at_steps [OF assms(1) that] line_at_ld by auto
  have e: "\<not> isPtrExceedingEnd p k e" if "\<not> isPtrExceedingEnd p l e" "k \<le> l" for k l
    using that exceeding_mono [of p k e p l] by auto
  show ?thesis
  proof (cases "m ! p = 0")
    case nz: False
    have 1: "line_at m e (p + 1)" using s [of 1] line_at_Suc [OF assms(1) nz assms(2)] by simp
    have 2: "p + 1 < length m" using line_at_ld [OF 1] .
    have esc: "line_at m e (p + 2)" if "\<not> isPtrExceedingEnd p 2 e" "m ! (p + 1) \<noteq> 0"
      using s [of 2] that nz by (auto simp: all_below)
    have hex: "p + 2 < length m" if "\<not> isPtrExceedingEnd p 4 e" "m ! (p + 1) = 120"
      using s [of 2] e [OF that(1), of 2] that nz by (auto simp: all_below)
    have hex3: "p + 3 < length m" if "\<not> isPtrExceedingEnd p 4 e" "m ! (p + 1) = 120" "is_hex_digit (m ! (p + 2))"
      using s [of 3] e [OF that(1), of 3] that nz is_hex_digit_nz by (auto simp: all_below)
    have hex4: "line_at m e (p + 4)" if "\<not> isPtrExceedingEnd p 4 e" "m ! (p + 1) = 120" "is_hex_digit (m ! (p + 2))" "is_hex_digit (m ! (p + 3))"
      using s [of 4] that nz is_hex_digit_nz by (auto simp: all_below)
    show ?thesis using p nz 1 2 esc hex hex3 hex4 unfolding parse_inq_def by auto
  qed (use p in \<open>simp add: parse_inq_def\<close>)
qed

lemma parse_insq_safe:
  assumes "line_at m e p" "\<not> isPtrExceedingEnd p 0 e"
  shows "ensures (parse_insq m e p) (\<lambda>r. \<forall>p' q s d nc. r = Some (p', q, s, d, nc) \<longrightarrow> line_at m e p' \<and> p < p')"
proof (cases "m ! p = 0")
  case nz: False
  have 1: "line_at m e (p + 1)" using line_at_Suc [OF assms(1) nz assms(2)] by simp
  have "line_at m e (p + 2)" if "\<not> isPtrExceedingEnd p 2 e" "m ! (p + 1) = 39"
    using line_at_steps [OF assms(1) that(1)] that(2) nz by (auto simp: all_below)
  then show ?thesis using nz 1 line_at_ld [OF assms(1)] line_at_ld [OF 1] unfolding parse_insq_def by auto
qed (use line_at_ld [OF assms(1)] in \<open>simp add: parse_insq_def\<close>)

lemma parse_unq_safe:
  assumes "line_at m e p" "\<not> isPtrExceedingEnd p 0 e"
  shows "ensures (parse_unq m p) (\<lambda>r. \<forall>p' q s d nc. r = Some (p', q, s, d, nc) \<longrightarrow> line_at m e p' \<and> (d \<and> m ! p = 0 \<and> p' = p \<or> p < p'))"
  using line_at_ld [OF assms(1)] line_at_Suc [OF assms(1) _ assms(2)] assms(1) by (auto simp: parse_unq_def Let_def)

lemma parse_step_safe:
  assumes "line_at m e p" "\<not> isPtrExceedingEnd p 0 e"
  shows "ensures (parse_step m e p inq insq) (\<lambda>r. \<forall>p' q s d nc. r = Some (p', q, s, d, nc) \<longrightarrow> line_at m e p' \<and> p \<le> p' \<and> (\<not> d \<longrightarrow> p < p'))"
  unfolding parse_step_def
  by (intro ensures_if ensures_mono [OF parse_inq_safe [OF assms]] ensures_mono [OF parse_insq_safe [OF assms]]
      ensures_mono [OF parse_unq_safe [OF assms]]) (fastforce dest: less_imp_le)+

lemma parse_loop_safe:
  "line_at m e p \<Longrightarrow> \<not> isPtrExceedingEnd p 0 e \<Longrightarrow> arg \<le> p \<Longrightarrow>
   ensures (parse_loop m e arg p inq insq out) (\<lambda>(n, out). n \<noteq> 0 \<longrightarrow> line_at m e (arg + n))"
proof (induction m e arg p inq insq out rule: parse_loop.induct)
  case (1 m e arg p inq insq out)
  obtain r where r: "parse_step m e p inq insq = Inr r" "\<And>p' q s d nc. r = Some (p', q, s, d, nc) \<Longrightarrow> line_at m e p' \<and> p \<le> p'"
    using parse_step_safe [OF 1(2,3), of inq insq] unfolding ensures_def by blast
  show ?case
  proof (cases r)
    case None
    then show ?thesis using r(1) by (subst parse_loop.simps) simp
  next
    case (Some t)
    obtain p' q s d nc where t: "t = (p', q, s, d, nc)" by (cases t)
    have p': "line_at m e p'" "arg \<le> p'" using r(2) Some t 1(4) by auto
    have "ensures (parse_loop m e arg p' q s (out @ nc)) (\<lambda>(n, out). n \<noteq> 0 \<longrightarrow> line_at m e (arg + n))"
      if "\<not> isPtrExceedingEnd p' 0 e" "\<not> d"
      using 1(1) [OF r(1) Some t [symmetric] refl refl refl that] p' that(1) by blast
    then show ?thesis using r(1) Some t p' by (subst parse_loop.simps) auto
  qed
qed

lemma skip_blanks_safe:
  "line_at m e p \<Longrightarrow> ensures (skip_blanks m e p) (\<lambda>q. line_at m e q)"
proof (induction m e p rule: skip_blanks.induct)
  case (1 m e p)
  have p: "p < length m" using 1(2) by (rule line_at_ld)
  then have m: "more_input m e p = Inr (m ! p \<noteq> 0 \<and> \<not> isPtrExceedingEnd p 0 e)" by (simp add: more_input_def)
  show ?case
    using 1(1) [OF m] line_at_Suc [OF 1(2)] 1(2) by (subst skip_blanks.simps) (simp add: m)
qed

lemma split_loop_safe:
  "line_at m e p \<Longrightarrow> returns (split_loop m e p v)"
proof (induction m e p v rule: split_loop.induct)
  case (1 m e p v)
  have m: "more_input m e q = Inr (m ! q \<noteq> 0 \<and> \<not> isPtrExceedingEnd q 0 e)" if "line_at m e q" for q
    using line_at_ld [OF that] by (simp add: more_input_def)
  obtain q where q: "skip_blanks m e p = Inr q" "line_at m e q"
    using skip_blanks_safe [OF 1(2)] by (auto simp: ensures_def)
  show ?case
  proof (cases "m ! p \<noteq> 0 \<and> \<not> isPtrExceedingEnd p 0 e \<and> m ! q \<noteq> 0 \<and> \<not> isPtrExceedingEnd q 0 e")
    case True
    then obtain n tok where n: "sdsparsearg m e q = Inr (n, tok)" "n \<noteq> 0 \<longrightarrow> line_at m e (q + n)"
      using parse_loop_safe [OF q(2), of q False False "[]"] by (auto simp: sdsparsearg_def ensures_def)
    have "returns (split_loop m e (q + n) (v @ [tok]))" if "n \<noteq> 0"
      using 1(1) [OF m [OF 1(2)] _ q(1) m [OF q(2)] _ n(1) refl that] True n(2) that by simp
    then show ?thesis using n(1) q(1) True m [OF 1(2)] m [OF q(2)] by (subst split_loop.simps) (simp add: returns_intros)
  next
    case False
    then show ?thesis using q(1) m [OF 1(2)] m [OF q(2)] by (subst split_loop.simps) (auto simp: returns_def)
  qed
qed

lemma sdsnsplitargs_safe: "line + len < length m \<Longrightarrow> returns (sdsnsplitargs m line len)"
  unfolding sdsnsplitargs_def sdsnsplitargs_internal_def by (rule split_loop_safe) (simp add: line_at_def)

section \<open>Quoting and splitting are inverse\<close>

definition quote_char :: "byte \<Rightarrow> bytes" where
  "quote_char c = (if plain_char c then [c] else repr_char c)"

lemma catrepr_loop_chars: "catrepr_loop p = concat (map quote_char p)"
proof (induction p rule: catrepr_loop.induct)
  case (2 c p)
  have "concat (map quote_char (takeWhile plain_char p)) = takeWhile plain_char p" for p
    by (induction p) (auto simp: quote_char_def)
  then have "takeWhile plain_char p @ concat (map quote_char (dropWhile plain_char p)) = concat (map quote_char p)" for p
    by (metis takeWhile_dropWhile_id map_append concat_append)
  moreover have "quote_char c = (if plain_char c then [c] else repr_char c)" by (rule quote_char_def)
  ultimately show ?case using 2 by (cases "plain_char c") auto
qed simp

lemma hex_char_back: "n < 16 \<Longrightarrow> is_hex_digit (hex_char n) \<and> hex_digit_to_int (hex_char n) = n"
proof -
  assume "n < 16"
  then have "n = of_nat (unat n)" "unat n < 16" by (simp_all add: word_less_nat_alt)
  then obtain k where k: "n = of_nat k" "k < 16" by blast
  from k(2) have "k = 0 \<or> k = 1 \<or> k = 2 \<or> k = 3 \<or> k = 4 \<or> k = 5 \<or> k = 6 \<or> k = 7 \<or>
      k = 8 \<or> k = 9 \<or> k = 10 \<or> k = 11 \<or> k = 12 \<or> k = 13 \<or> k = 14 \<or> k = 15" by arith
  then show ?thesis unfolding k(1) is_hex_digit_def hex_digit_to_int_def hex_char_def by (elim disjE) simp_all
qed

lemma byte_nibbles: "c div 16 < 16" "c mod 16 < 16" "c div 16 * 16 + c mod 16 = c" for c :: byte
proof -
  have "unat c < 256" using unsigned_less [of c] by simp
  then show "c div 16 < 16" "c mod 16 < 16" "c div 16 * 16 + c mod 16 = c"
    by (auto simp: word_less_nat_alt unat_div unat_mod div_mult_mod_eq)
qed

lemma plain_char_nz: "plain_char c \<Longrightarrow> c \<noteq> 0 \<and> c \<noteq> 92 \<and> c \<noteq> 34"
  by (auto simp: plain_char_def isprint_def)

lemma nth_at: "(pre @ xs) ! (length pre + i) = xs ! i" "(pre @ xs) ! (length pre) = xs ! 0"
  by (simp_all add: nth_append)

lemma quote_char_cases:
  obtains (plain) "quote_char c = [c]" "c \<noteq> 0" "c \<noteq> 92" "c \<noteq> 34"
  | (esc) x where "quote_char c = [92, x]" "x \<noteq> 120" "x \<noteq> 0" "escape_char x = c"
  | (hex) "quote_char c = [92, 120, hex_char (c div 16), hex_char (c mod 16)]"
proof (cases "plain_char c")
  case True
  then show ?thesis using plain plain_char_nz by (simp add: quote_char_def)
next
  case False
  then have q: "quote_char c = repr_char c" by (simp add: quote_char_def)
  show ?thesis
  proof (cases "c \<in> {92, 34, 10, 13, 9, 7, 8}")
    case True
    then show ?thesis by (intro esc [of "quote_char c ! 1"]) (auto simp: q repr_char_def escape_char_def)
  next
    case False
    then show ?thesis using hex by (simp add: q repr_char_def)
  qed
qed

lemma parse_inq_char:
  assumes m: "m = pre @ quote_char c @ d # post" and e: "\<not> isPtrExceedingEnd (length pre) (length (quote_char c)) e"
  shows "parse_inq m e (length pre) = Inr (Some (length pre + length (quote_char c), True, False, False, [c]))"
proof (cases c rule: quote_char_cases)
  case plain
  then show ?thesis using m by (simp add: parse_inq_def nth_at)
next
  case (esc x)
  then have "m ! length pre = 92" "m ! (length pre + 1) = x" "length pre + 2 < length m" using m by (simp_all add: nth_append)
  moreover have "\<not> isPtrExceedingEnd (length pre) 2 e" using e esc by (simp add: numeral_2_eq_2)
  ultimately show ?thesis using esc by (simp add: parse_inq_def)
next
  case hex
  let ?h = "hex_char (c div 16)" and ?l = "hex_char (c mod 16)"
  have "m ! length pre = 92" "m ! (length pre + 1) = 120" "m ! (length pre + 2) = ?h" "m ! (length pre + 3) = ?l" "length pre + 4 < length m"
    using m hex by (simp_all add: nth_append)
  moreover have "\<not> isPtrExceedingEnd (length pre) 4 e" using e hex by (simp add: eval_nat_numeral)
  ultimately show ?thesis using hex hex_char_back [OF byte_nibbles(1) [of c]] hex_char_back [OF byte_nibbles(2) [of c]] byte_nibbles(3) [of c]
    by (simp add: parse_inq_def)
qed

lemma not_exceeding: "\<not> isPtrExceedingEnd q l e \<Longrightarrow> p + k \<le> q + l \<Longrightarrow> \<not> isPtrExceedingEnd p k e"
  using exceeding_mono by blast

lemma parse_loop_quoted:
  assumes "m = pre @ concat (map quote_char s) @ 34 # post"
    "\<not> isPtrExceedingEnd (length pre + length (concat (map quote_char s))) 0 e"
  shows "parse_loop m e arg (length pre) True False out =
    (let p = length pre + length (concat (map quote_char s)) + 1 in
     if isPtrExceedingEnd p 0 e then Inr (p - arg, out @ s) else parse_loop m e arg p False False (out @ s))"
  using assms
proof (induction s arbitrary: pre out)
  case Nil
  then have "parse_inq m e (length pre) = Inr (Some (length pre + 1, False, False, False, []))"
    by (simp add: parse_inq_def nth_at)
  then show ?case by (subst parse_loop.simps) (simp add: parse_step_def)
next
  case (Cons c s)
  let ?p = "length (pre @ quote_char c)"
  obtain d post' where dp: "m = pre @ quote_char c @ d # post'"
    using Cons.prems(1) by (cases "concat (map quote_char s)") auto
  have "\<not> isPtrExceedingEnd (length pre) (length (quote_char c)) e" "\<not> isPtrExceedingEnd ?p 0 e"
    by (rule not_exceeding [OF Cons.prems(2)], simp)+
  with parse_inq_char [OF dp] have "parse_loop m e arg (length pre) True False out = parse_loop m e arg ?p True False (out @ [c])"
    by (subst parse_loop.simps) (simp add: parse_step_def)
  also have "\<dots> = (let p = length pre + length (concat (map quote_char (c # s))) + 1 in
     if isPtrExceedingEnd p 0 e then Inr (p - arg, out @ c # s) else parse_loop m e arg p False False (out @ c # s))"
    using Cons.IH [of "pre @ quote_char c" "out @ [c]"] Cons.prems by (simp add: add.assoc)
  finally show ?case .
qed

abbreviation repr :: "bytes \<Rightarrow> bytes" where
  "repr s \<equiv> sdscatrepr [] s"

lemma repr_chars: "repr s = 34 # concat (map quote_char s) @ [34]"
  by (simp add: sdscatrepr_def catrepr_loop_chars)

text \<open>What follows a quoted argument: the end of the line, a zero byte, or a blank, which is consumed.\<close>

lemma sdsparsearg_repr:
  assumes m: "m = pre @ repr s @ d # post" and e: "\<not> isPtrExceedingEnd (length pre + length (repr s) - 1) 0 e"
    and d: "isPtrExceedingEnd (length pre + length (repr s)) 0 e \<or> d = 0 \<or> d = 32"
  shows "sdsparsearg m e (length pre) = Inr (length (repr s) +
    (if \<not> isPtrExceedingEnd (length pre + length (repr s)) 0 e \<and> d = 32 then 1 else 0), s)"
proof -
  let ?p = "length pre + length (repr s)"
  have m': "m = (pre @ [34]) @ concat (map quote_char s) @ 34 # d # post" using m by (simp add: repr_chars)
  have e': "\<not> isPtrExceedingEnd (length (pre @ [34]) + length (concat (map quote_char s))) 0 e" using e by (simp add: repr_chars)
  have s: "\<not> isPtrExceedingEnd (length pre) 0 e" "\<not> isPtrExceedingEnd (length pre + 1) 0 e"
    by (rule not_exceeding [OF e'], simp)+
  have "sdsparsearg m e (length pre) = parse_loop m e (length pre) (length (pre @ [34])) True False []"
    using s m' unfolding sdsparsearg_def by (subst parse_loop.simps) (simp add: parse_step_def parse_unq_def nth_at)
  also have "\<dots> = (if isPtrExceedingEnd ?p 0 e then Inr (length (repr s), s) else parse_loop m e (length pre) ?p False False s)"
    using parse_loop_quoted [OF m' e', of "length pre" "[]"] by (simp add: repr_chars)
  also have "\<dots> = Inr (length (repr s) + (if \<not> isPtrExceedingEnd ?p 0 e \<and> d = 32 then 1 else 0), s)"
  proof (cases "isPtrExceedingEnd ?p 0 e")
    case False
    have "m ! ?p = d" "?p < length m" using m by (simp_all add: nth_append)
    then show ?thesis using False d by (subst parse_loop.simps) (auto simp: parse_step_def parse_unq_def)
  qed simp
  finally show ?thesis .
qed

text \<open>A line of quoted arguments separated by blanks.\<close>

fun repr_line :: "bytes list \<Rightarrow> bytes" where
  "repr_line [] = []"
| "repr_line [s] = repr s"
| "repr_line (s # ss) = repr s @ 32 # repr_line ss"

definition line_end :: "nat option \<Rightarrow> nat \<Rightarrow> byte \<Rightarrow> bool" where
  "line_end e p d \<longleftrightarrow> e = Some p \<or> e = None \<and> d = 0"

lemma exceeding_line_end:
  "line_end e q d \<Longrightarrow> isPtrExceedingEnd p 0 e \<longleftrightarrow> e \<noteq> None \<and> q \<le> p"
  by (auto simp: line_end_def isPtrExceedingEnd_def)

lemma split_loop_repr:
  assumes "m = pre @ repr_line ss @ d # post" "line_end e (length pre + length (repr_line ss)) d"
  shows "split_loop m e (length pre) v = Inr (Some (v @ ss))"
  using assms
proof (induction ss arbitrary: pre v rule: repr_line.induct)
  case 1
  then show ?case by (subst split_loop.simps) (auto simp: more_input_def nth_at line_end_def isPtrExceedingEnd_def)
next
  case (2 s)
  have h: "m ! length pre = 34" "length pre < length m" using 2(1) by (simp_all add: repr_chars nth_at)
  have x: "\<not> isPtrExceedingEnd (length pre) 0 e" "\<not> isPtrExceedingEnd (length pre + length (repr s) - 1) 0 e"
    "isPtrExceedingEnd (length pre + length (repr s)) 0 e \<or> d = 0"
    using exceeding_line_end [OF 2(2)] 2(2) by (auto simp: repr_chars line_end_def)
  have b: "more_input m e (length pre) = Inr True" "skip_blanks m e (length pre) = Inr (length pre)"
    using h x by (simp_all add: more_input_def skip_blanks.simps isspace_def)
  have "sdsparsearg m e (length pre) = Inr (length (repr s), s)"
    using sdsparsearg_repr [of m pre s d post e] 2(1) x by auto
  moreover have "length (repr s) \<noteq> 0" by (simp add: repr_chars)
  moreover have "split_loop m e (length pre + length (repr s)) (v @ [s]) = Inr (Some (v @ [s]))"
    using 2 by (subst split_loop.simps) (auto simp: more_input_def nth_append line_end_def isPtrExceedingEnd_def)
  ultimately show ?case using b by (subst split_loop.simps) simp
next
  case (3 s s' ss)
  let ?ss = "s' # ss"
  have h: "m ! length pre = 34" "length pre < length m" using 3(2) by (simp_all add: repr_chars nth_at)
  have x: "\<not> isPtrExceedingEnd (length pre) 0 e" "\<not> isPtrExceedingEnd (length pre + length (repr s) - 1) 0 e"
    "\<not> isPtrExceedingEnd (length pre + length (repr s)) 0 e"
    using exceeding_line_end [OF 3(3)] by (auto simp: repr_chars)
  have b: "more_input m e (length pre) = Inr True" "skip_blanks m e (length pre) = Inr (length pre)"
    using h x by (simp_all add: more_input_def skip_blanks.simps isspace_def)
  have "sdsparsearg m e (length pre) = Inr (length (repr s) + 1, s)"
    using sdsparsearg_repr [of m pre s 32 "repr_line ?ss @ d # post" e] 3(2) x by auto
  moreover have "split_loop m e (length pre + (length (repr s) + 1)) (v @ [s]) = Inr (Some ((v @ [s]) @ ?ss))"
    using 3(1) [of "pre @ repr s @ [32]" "v @ [s]"] 3(2,3) by (simp add: add.assoc)
  ultimately show ?case using b by (subst split_loop.simps) simp
qed

text \<open>A string that sdsneedsrepr passes and that has no apostrophe is one argument as it stands.\<close>

lemma parse_loop_plain:
  assumes "m = pre @ s @ 0 # post" "\<forall>c \<in> set s. \<not> isspace c \<and> isprint c \<and> c \<noteq> 34 \<and> c \<noteq> 39"
  shows "parse_loop m None arg (length pre) False False out = Inr (length pre + length s - arg, out @ s)"
  using assms
proof (induction s arbitrary: pre out)
  case Nil
  then show ?case by (subst parse_loop.simps) (simp add: parse_step_def parse_unq_def nth_at isPtrExceedingEnd_def)
next
  case (Cons c s)
  then have "c \<noteq> 0" "c \<noteq> 32" "c \<noteq> 9" "c \<noteq> 10" "c \<noteq> 13" "c \<noteq> 34" "c \<noteq> 39" by (auto simp: isspace_def isprint_def)
  then have "parse_loop m None arg (length pre) False False out = parse_loop m None arg (length (pre @ [c])) False False (out @ [c])"
    using Cons.prems(1) by (subst parse_loop.simps) (simp add: parse_step_def parse_unq_def nth_at isPtrExceedingEnd_def)
  then show ?case using Cons.IH [of "pre @ [c]" "out @ [c]"] Cons.prems by simp
qed

lemma sdssplitargs_plain:
  assumes "s \<noteq> []" "\<not> sdsneedsrepr s" "39 \<notin> set s"
  shows "sdssplitargs (s @ [0]) 0 = Inr (Some [s])"
proof -
  obtain c s' where s: "s = c # s'" using assms(1) by (cases s) auto
  have p: "\<forall>c \<in> set s. \<not> isspace c \<and> isprint c \<and> c \<noteq> 34 \<and> c \<noteq> 39" using assms(2,3) by (auto simp: sdsneedsrepr_def list_ex_iff)
  then have c: "c \<noteq> 0" "\<not> isspace c" by (auto simp: s isprint_def)
  have "sdsparsearg (s @ [0]) None 0 = Inr (length s, s)"
    using parse_loop_plain [of "s @ [0]" "[]" s "[]" 0 "[]"] p by (simp add: sdsparsearg_def isPtrExceedingEnd_def)
  moreover have "split_loop (s @ [0]) None (length s) [s] = Inr (Some [s])"
    by (subst split_loop.simps) (simp add: more_input_def nth_append)
  moreover have "more_input (s @ [0]) None 0 = Inr True" "skip_blanks (s @ [0]) None 0 = Inr 0"
    using c by (simp_all add: more_input_def skip_blanks.simps isPtrExceedingEnd_def s)
  ultimately show ?thesis unfolding sdssplitargs_def sdsnsplitargs_internal_def using assms(1)
    by (subst split_loop.simps) simp
qed

lemma sdsnsplitargs_repr:
  "sdsnsplitargs (pre @ repr_line ss @ d # post) (length pre) (length (repr_line ss)) = Inr (Some ss)"
  using split_loop_repr [OF refl, of "Some (length pre + length (repr_line ss))" pre ss d post "[]"]
  by (simp add: sdsnsplitargs_def sdsnsplitargs_internal_def line_end_def)

lemma quote_char_printable: "x \<in> set (quote_char c) \<Longrightarrow> isprint x"
proof -
  have "is_hex_digit d \<Longrightarrow> isprint d" for d by (auto simp: is_hex_digit_def isprint_def word_le_nat_alt)
  then have "isprint (hex_char (c div 16))" "isprint (hex_char (c mod 16))" using hex_char_back byte_nibbles(1,2) by blast+
  then show "x \<in> set (quote_char c) \<Longrightarrow> isprint x"
    by (auto simp: quote_char_def repr_char_def plain_char_def isprint_def split: if_splits)
qed

text \<open>A quoted line is printable.\<close>

lemma repr_line_printable: "x \<in> set (repr_line ss) \<Longrightarrow> isprint x"
proof (induction ss rule: repr_line.induct)
  case (2 s)
  then show ?case by (auto simp: repr_chars dest: quote_char_printable) (simp_all add: isprint_def)
next
  case (3 s s' ss)
  then show ?case by (auto simp: repr_chars dest: quote_char_printable) (simp_all add: isprint_def)
qed simp

section \<open>Properties\<close>


text \<open>Text glued to a closed quote is accepted as part of the argument, and an apostrophe is a quote for the
  splitter although sdsneedsrepr reports that a string with one (\<open>it's\<close>) needs no quoting.\<close>

lemma splitargs_edges:
  "sdssplitargs [34, 102, 111, 111, 34, 98, 97, 114, 0] 0 = Inr (Some [[102, 111, 111, 98, 97, 114]])"
  "\<not> sdsneedsrepr [105, 116, 39, 115]"
  "sdssplitargs [105, 116, 39, 115, 0] 0 = Inr None"
  by code_simp+

end
