(* ===== verification/Request.thy ===== *)
theory Request
  imports Numstr Sds_Args
begin

text \<open>
  Reading requests (\<^verbatim>\<open>networking.c\<close>): the incremental parsers of the RESP and of the inline protocol, the
  queue of pipelined commands, the loop that executes what has been parsed, the read handler, and the
  part of \<^verbatim>\<open>blocked.c\<close> that resumes a client.  The query buffer is its bytes, the position and its owner.
  Executing a command is an argument (\<open>app\<close>): it maps the state of the application and the arguments to
  a new state and says whether the client was served, blocked, marked for closing, or freed.

  An access outside a buffer, an array or the range of a C type is \<open>RQ_UB\<close>, a failed assertion
  \<open>RQ_ASSERT\<close>; \<open>RQ_ALIAS\<close> marks an argument object that takes over the buffer shared by all clients;
  \<open>RQ_FUEL\<close> marks a loop that runs longer than its bound.  Reply texts, statistics, command lookup and key
  prefetching have no influence on parsing and are left out, as are the offsets of replicated clients.
\<close>

section \<open>The state\<close>

datatype rq_error = RQ_UB | RQ_ASSERT | RQ_ALIAS | RQ_FUEL

type_synonym 'a rq_res = "rq_error + 'a"

datatype read_flag =
  QB_LIMIT_REACHED | ERROR_BIG_INLINE_REQUEST | ERROR_BIG_MULTIBULK | ERROR_INVALID_MULTIBULK_LEN
  | ERROR_UNAUTHENTICATED_MULTIBULK_LEN | ERROR_UNAUTHENTICATED_BULK_LEN | ERROR_BIG_BULK_COUNT
  | ERROR_MBULK_UNEXPECTED_CHARACTER | ERROR_MBULK_INVALID_BULK_LEN
  | ERROR_UNEXPECTED_INLINE_FROM_REPLICATED_CLIENT | ERROR_UNBALANCED_QUOTES | INLINE_ZERO_QUERY_LEN
  | PARSING_NEGATIVE_MBULK_LEN | PARSING_COMPLETED | REPLICATED | DONT_PARSE | AUTH_REQUIRED
  | COMMAND_NOT_FOUND | BAD_ARITY | NO_KEYS | CROSSSLOT | PREFETCHED | ERROR_INVALID_CRLF

abbreviation (input) PROTO_IOBUF_LEN :: nat where "PROTO_IOBUF_LEN \<equiv> 16384"
abbreviation (input) PROTO_INLINE_MAX_SIZE :: nat where "PROTO_INLINE_MAX_SIZE \<equiv> 65536"
abbreviation (input) PROTO_MBULK_BIG_ARG :: int where "PROTO_MBULK_BIG_ARG \<equiv> 32768"
abbreviation (input) PROTO_REQ_INLINE :: nat where "PROTO_REQ_INLINE \<equiv> 1"
abbreviation (input) PROTO_REQ_MULTIBULK :: nat where "PROTO_REQ_MULTIBULK \<equiv> 2"
abbreviation (input) COMMAND_QUEUE_MIN_CAPACITY :: nat where "COMMAND_QUEUE_MIN_CAPACITY \<equiv> 16"

text \<open>The argument vector of a command: argv (of length argc), argv_len, argv_len_sum and the bytes of
  input counted for it.\<close>

record argvec =
  av_argv :: "bytes list"
  av_len :: int
  av_sum :: nat
  av_bytes :: nat

definition no_args :: argvec where
  "no_args = \<lparr>av_argv = [], av_len = 0, av_sum = 0, av_bytes = 0\<rparr>"

record parsedCommand =
  p_flags :: "read_flag set"
  p_args :: argvec

record cmdQueue =
  q_cmds :: "parsedCommand list"
  q_off :: nat
  q_cap :: nat

text \<open>A null query buffer has no bytes.\<close>

datatype qb_owner = QB_NULL | QB_SHARED | QB_OWN

text \<open>The fields of the client that describe its input buffer.\<close>

record inbuf =
  ib_buf :: bytes
  ib_owner :: qb_owner
  ib_pos :: nat
  ib_reqtype :: nat
  ib_mbl :: nat
  ib_bulk :: int

record 'a client =
  c_in :: inbuf
  c_args :: argvec
  c_queue :: cmdQueue
  c_flags :: "read_flag set"
  c_replicated :: bool
  c_cmd :: bool
  c_blocked :: bool
  c_unblocked :: bool
  c_pending_command :: bool
  c_close_after_reply :: bool
  c_protocol_error :: bool
  c_close_asap :: bool
  c_app :: 'a
  c_log :: "bytes list list"

text \<open>\<open>c_log\<close> is a history: the commands executed so far.\<close>

record rq_server =
  proto_max_bulk_len :: int
  client_max_querybuf_len :: nat
  inside_yielding :: bool

datatype cmd_outcome = CMD_OK | CMD_BLOCK | CMD_CLOSE | CMD_DEAD

record 'a app =
  ax_exec :: "'a \<Rightarrow> bytes list \<Rightarrow> 'a \<times> cmd_outcome"
  ax_auth :: "'a \<Rightarrow> bool"
  ax_multi :: "'a \<Rightarrow> nat"

section \<open>Reading the buffer\<close>

fun memchr :: "byte \<Rightarrow> bytes \<Rightarrow> nat option" where
  "memchr c [] = None"
| "memchr c (x # xs) = (if x = c then Some 0 else map_option Suc (memchr c xs))"

text \<open>\<open>strchr\<close> on a string that ends at the first zero byte.\<close>

fun strchr :: "byte \<Rightarrow> bytes \<Rightarrow> nat option" where
  "strchr c [] = None"
| "strchr c (x # xs) = (if x = c then Some 0 else if x = 0 then None else map_option Suc (strchr c xs))"

text \<open>The byte at an index; the byte behind the last one is the terminator.\<close>

definition qb_at :: "inbuf \<Rightarrow> int \<Rightarrow> byte rq_res" where
  "qb_at b i = (if 0 \<le> i \<and> i < int (length (ib_buf b)) then Inr (ib_buf b ! nat i)
     else if i = int (length (ib_buf b)) then Inr 0 else Inl RQ_UB)"

text \<open>Conversion to a \<open>long\<close> of 32 bits.\<close>

definition to_long :: "int \<Rightarrow> int" where
  "to_long v = (v + 2 ^ 31) mod 2 ^ 32 - 2 ^ 31"

section \<open>The multibulk parser\<close>

text \<open>A part of parseMultibulk: \<open>Some f\<close> when the function returns \<open>f\<close> (\<open>None\<close> for 0), \<open>None\<close> when it goes on.\<close>

type_synonym part = "read_flag option option \<times> inbuf \<times> argvec"

definition parse_count :: "read_flag set \<Rightarrow> inbuf \<Rightarrow> argvec \<Rightarrow> part rq_res" where
  "parse_count fl b a =
     (if av_argv a \<noteq> [] then Inl RQ_ASSERT
      else case memchr 13 (drop (ib_pos b) (ib_buf b)) of
        None \<Rightarrow> Inr (Some (if length (ib_buf b) - ib_pos b > PROTO_INLINE_MAX_SIZE then Some ERROR_BIG_MULTIBULK else None), b, a)
      | Some i \<Rightarrow>
          if int i > int (length (ib_buf b)) - int (ib_pos b) - 2 then Inr (Some None, b, a)
          else rbind (qb_at b (int (ib_pos b + i + 1))) (\<lambda>nl.
          if nl \<noteq> 10 then Inr (Some (Some ERROR_INVALID_CRLF), b, a)
          else rbind (qb_at b (int (ib_pos b))) (\<lambda>star.
          if star \<noteq> 42 then Inl RQ_ASSERT
          else let slen = i - 1 in
          case string2ll (mem_read (ib_buf b) (ib_pos b + 1) slen) of
            None \<Rightarrow> Inr (Some (Some ERROR_INVALID_MULTIBULK_LEN), b, a)
          | Some ll \<Rightarrow>
              if ll > INT32_MAX then Inr (Some (Some ERROR_INVALID_MULTIBULK_LEN), b, a)
              else if ll > 10 \<and> AUTH_REQUIRED \<in> fl then Inr (Some (Some ERROR_UNAUTHENTICATED_MULTIBULK_LEN), b, a)
              else let b = b\<lparr>ib_pos := ib_pos b + i + 2\<rparr> in
              if ll \<le> 0 then Inr (Some (Some PARSING_NEGATIVE_MBULK_LEN), b, a)
              else Inr (None, b\<lparr>ib_mbl := nat ll, ib_bulk := - 1\<rparr>,
                        a\<lparr>av_len := min ll 1024, av_sum := 0, av_bytes := av_bytes a + slen + 3\<rparr>))))"

text \<open>A large argument of which the rest of the buffer is a part is moved to the start of a buffer of the client.\<close>

definition trim_for_big :: "read_flag set \<Rightarrow> int \<Rightarrow> inbuf \<Rightarrow> inbuf" where
  "trim_for_big fl ll b =
     (if REPLICATED \<notin> fl \<and> ll \<ge> PROTO_MBULK_BIG_ARG \<and> int (length (ib_buf b)) - int (ib_pos b) \<le> ll + 2
      then b\<lparr>ib_buf := drop (ib_pos b) (ib_buf b), ib_pos := 0, ib_owner := QB_OWN\<rparr>
      else b)"

definition parse_bulklen :: "rq_server \<Rightarrow> read_flag set \<Rightarrow> inbuf \<Rightarrow> argvec \<Rightarrow> part rq_res" where
  "parse_bulklen srv fl b a =
     (case memchr 13 (drop (ib_pos b) (ib_buf b)) of
        None \<Rightarrow> Inr (Some (if length (ib_buf b) - ib_pos b > PROTO_INLINE_MAX_SIZE then Some ERROR_BIG_BULK_COUNT else None), b, a)
      | Some i \<Rightarrow>
          if int i > int (length (ib_buf b)) - int (ib_pos b) - 2 then Inr (Some None, b, a)
          else rbind (qb_at b (int (ib_pos b))) (\<lambda>dollar.
          if dollar \<noteq> 36 then Inr (Some (Some ERROR_MBULK_UNEXPECTED_CHARACTER), b, a)
          else rbind (qb_at b (int (ib_pos b + i + 1))) (\<lambda>nl.
          if nl \<noteq> 10 then Inr (Some (Some ERROR_INVALID_CRLF), b, a)
          else let slen = i - 1 in
          case string2ll (mem_read (ib_buf b) (ib_pos b + 1) slen) of
            None \<Rightarrow> Inr (Some (Some ERROR_MBULK_INVALID_BULK_LEN), b, a)
          | Some ll \<Rightarrow>
              if ll < 0 \<or> REPLICATED \<notin> fl \<and> ll > proto_max_bulk_len srv then Inr (Some (Some ERROR_MBULK_INVALID_BULK_LEN), b, a)
              else if ll > 16384 \<and> AUTH_REQUIRED \<in> fl then Inr (Some (Some ERROR_UNAUTHENTICATED_BULK_LEN), b, a)
              else Inr (None, (trim_for_big fl ll (b\<lparr>ib_pos := ib_pos b + i + 2\<rparr>))\<lparr>ib_bulk := to_long ll\<rparr>,
                        a\<lparr>av_bytes := av_bytes a + slen + 3\<rparr>))))"

definition grow_argv :: "nat \<Rightarrow> argvec \<Rightarrow> argvec" where
  "grow_argv mbl a =
     (if int (length (av_argv a)) \<ge> av_len a
      then a\<lparr>av_len := min (if av_len a < INT32_MAX div 2 then av_len a * 2 else INT32_MAX)
                        (int (length (av_argv a)) + int mbl)\<rparr>
      else a)"

definition push_arg :: "bytes \<Rightarrow> int \<Rightarrow> argvec \<Rightarrow> argvec rq_res" where
  "push_arg s bulklen a =
     (if int (length (av_argv a)) < av_len a
      then Inr (a\<lparr>av_argv := av_argv a @ [s], av_sum := nat (int (av_sum a) + bulklen)\<rparr>)
      else Inl RQ_UB)"

definition parse_bulk :: "read_flag set \<Rightarrow> inbuf \<Rightarrow> argvec \<Rightarrow> part rq_res" where
  "parse_bulk fl b a =
     (if ib_bulk b + 2 > INT32_MAX then Inl RQ_UB
      else if int (length (ib_buf b)) - int (ib_pos b) < (ib_bulk b + 2) mod 2 ^ 32 then Inr (Some None, b, a)
      else let a = grow_argv (ib_mbl b) a in
      rbind (qb_at b (int (ib_pos b) + ib_bulk b)) (\<lambda>cr.
      rbind (if cr \<noteq> 13 then Inr True else rbind (qb_at b (int (ib_pos b) + ib_bulk b + 1)) (\<lambda>nl. Inr (nl \<noteq> 10))) (\<lambda>bad.
      if bad then Inr (Some (Some ERROR_INVALID_CRLF), b, a)
      else rbind
        (if REPLICATED \<notin> fl \<and> ib_pos b = 0 \<and> ib_bulk b \<ge> PROTO_MBULK_BIG_ARG \<and> int (length (ib_buf b)) = ib_bulk b + 2
         then if ib_owner b = QB_SHARED then Inl RQ_ALIAS
              else rbind (push_arg (take (nat (ib_bulk b)) (ib_buf b)) (ib_bulk b) a) (\<lambda>a.
                Inr (b\<lparr>ib_buf := [], ib_owner := QB_OWN\<rparr>, a))
         else rbind (push_arg (mem_read (ib_buf b) (ib_pos b) (nat (ib_bulk b))) (ib_bulk b) a) (\<lambda>a.
                Inr (b\<lparr>ib_pos := nat (int (ib_pos b) + ib_bulk b + 2)\<rparr>, a))) (\<lambda>(b, a).
        Inr (None, b\<lparr>ib_bulk := - 1, ib_mbl := ib_mbl b - 1\<rparr>, a)))))"

text \<open>The loop counts multibulklen down to 0.\<close>

fun mb_loop :: "rq_server \<Rightarrow> read_flag set \<Rightarrow> nat \<Rightarrow> inbuf \<Rightarrow> argvec \<Rightarrow> (read_flag option \<times> inbuf \<times> argvec) rq_res" where
  "mb_loop srv fl 0 b a = Inr (Some PARSING_COMPLETED, b\<lparr>ib_reqtype := 0\<rparr>,
     a\<lparr>av_bytes := av_bytes a + av_sum a + 2 * length (av_argv a)\<rparr>)"
| "mb_loop srv fl (Suc n) b a =
     rbind (if ib_bulk b = - 1 then parse_bulklen srv fl b a else Inr (None, b, a)) (\<lambda>(r, b, a). case r of
       Some f \<Rightarrow> Inr (f, b, a)
     | None \<Rightarrow> rbind (parse_bulk fl b a) (\<lambda>(r, b, a). case r of
           Some f \<Rightarrow> Inr (f, b, a)
         | None \<Rightarrow> mb_loop srv fl n b a))"

definition parseMultibulk :: "rq_server \<Rightarrow> read_flag set \<Rightarrow> inbuf \<Rightarrow> argvec \<Rightarrow> (read_flag option \<times> inbuf \<times> argvec) rq_res" where
  "parseMultibulk srv fl b a =
     (if length (ib_buf b) < ib_pos b then Inl RQ_UB
      else rbind (if ib_mbl b = 0 then parse_count fl b a else Inr (None, b, a)) (\<lambda>(r, b, a). case r of
        Some f \<Rightarrow> Inr (f, b, a)
      | None \<Rightarrow> if ib_mbl b > 0 then mb_loop srv fl (ib_mbl b) b a else Inl RQ_ASSERT))"

section \<open>Pipelined commands\<close>

text \<open>Room for one more command: \<open>None\<close> when the length of the queue is at its limit.\<close>

definition grow_queue :: "cmdQueue \<Rightarrow> cmdQueue option" where
  "grow_queue q =
     (if length (q_cmds q) = q_cap q
      then if q_cap q = 0 then Some (q\<lparr>q_cap := COMMAND_QUEUE_MIN_CAPACITY\<rparr>)
           else if q_cap q \<le> 512 then Some (q\<lparr>q_cap := q_cap q * 2\<rparr>)
           else None
      else Some q)"

fun pipeline_loop :: "nat \<Rightarrow> rq_server \<Rightarrow> read_flag option \<Rightarrow> 'a client \<Rightarrow> 'a client rq_res" where
  "pipeline_loop 0 srv flag c = Inl RQ_FUEL"
| "pipeline_loop (Suc n) srv flag c =
     (if flag = Some PARSING_COMPLETED \<and> length (ib_buf (c_in c)) > ib_pos (c_in c) \<and> ib_buf (c_in c) ! ib_pos (c_in c) = 42
      then let c = c\<lparr>c_in := (c_in c)\<lparr>ib_reqtype := PROTO_REQ_MULTIBULK\<rparr>\<rparr> in
        case grow_queue (c_queue c) of
          None \<Rightarrow> Inr c
        | Some q \<Rightarrow>
            if length (q_cmds q) < q_cap q
            then rbind (parseMultibulk srv (c_flags c) (c_in c) no_args) (\<lambda>(flag, b, a).
              pipeline_loop n srv flag (c\<lparr>c_in := b, c_queue := q\<lparr>q_cmds := q_cmds q @ [\<lparr>p_flags = set_option flag, p_args = a\<rparr>]\<rparr>\<rparr>))
            else Inl RQ_UB
      else Inr c)"

definition parseMultibulkBuffer :: "rq_server \<Rightarrow> 'a client \<Rightarrow> 'a client rq_res" where
  "parseMultibulkBuffer srv c =
     rbind (parseMultibulk srv (c_flags c) (c_in c) (c_args c)) (\<lambda>(flag, b, a).
     let c = c\<lparr>c_in := b, c_args := a, c_flags := c_flags c \<union> set_option flag\<rparr> in
     if AUTH_REQUIRED \<in> c_flags c then Inr c
     else if c_replicated c then Inr c
     else if q_cmds (c_queue c) \<noteq> [] then Inl RQ_ASSERT
     else pipeline_loop 1026 srv flag c)"

section \<open>The inline parser\<close>

definition add_flag :: "read_flag \<Rightarrow> 'a client \<Rightarrow> 'a client" where
  "add_flag f c = c\<lparr>c_flags := insert f (c_flags c)\<rparr>"

definition inline_args :: "bytes list \<Rightarrow> argvec \<Rightarrow> argvec" where
  "inline_args argv a =
     (let a = (if argv \<noteq> [] then a\<lparr>av_len := int (length argv), av_sum := 0\<rparr> else a);
          s = av_sum a + sum_list (map length argv)
      in a\<lparr>av_argv := argv, av_sum := s, av_bytes := s + length argv + 1\<rparr>)"

definition parseInlineBuffer :: "'a client \<Rightarrow> 'a client rq_res" where
  "parseInlineBuffer c =
     (let buf = ib_buf (c_in c); pos = ib_pos (c_in c) in
      case strchr 10 (drop pos buf) of
        None \<Rightarrow> Inr (if length buf - pos > PROTO_INLINE_MAX_SIZE then add_flag ERROR_BIG_INLINE_REQUEST c else c)
      | Some i \<Rightarrow>
          let crlf = i \<noteq> 0 \<and> buf ! (pos + i - 1) = 13;
              querylen = (if crlf then i - 1 else i);
              linefeed_chars = (if crlf then 2 else 1)
          in case sdsnsplitargs (buf @ [0]) pos querylen of
               Inl _ \<Rightarrow> Inl RQ_UB
             | Inr None \<Rightarrow> Inr (add_flag ERROR_UNBALANCED_QUOTES c)
             | Inr (Some argv) \<Rightarrow>
                 let c = (if querylen = 0 then add_flag INLINE_ZERO_QUERY_LEN c else c) in
                 if querylen \<noteq> 0 \<and> REPLICATED \<in> c_flags c then Inr (add_flag ERROR_UNEXPECTED_INLINE_FROM_REPLICATED_CLIENT c)
                 else Inr (add_flag PARSING_COMPLETED
                   (c\<lparr>c_in := (c_in c)\<lparr>ib_pos := pos + querylen + linefeed_chars, ib_reqtype := 0\<rparr>,
                      c_args := inline_args argv (c_args c)\<rparr>)))"

section \<open>One round of parsing\<close>

definition parseInputBuffer :: "rq_server \<Rightarrow> 'a client \<Rightarrow> 'a client rq_res" where
  "parseInputBuffer srv c =
     (if q_cmds (c_queue c) \<noteq> [] then Inl RQ_ASSERT
      else if ib_owner (c_in c) = QB_NULL then Inl RQ_UB
      else rbind (if ib_reqtype (c_in c) = 0
                  then rbind (qb_at (c_in c) (int (ib_pos (c_in c)))) (\<lambda>x.
                    Inr (c\<lparr>c_in := (c_in c)\<lparr>ib_reqtype := (if x = 42 then PROTO_REQ_MULTIBULK else PROTO_REQ_INLINE)\<rparr>\<rparr>))
                  else Inr c) (\<lambda>c.
        if ib_reqtype (c_in c) = PROTO_REQ_INLINE then parseInlineBuffer c
        else if ib_reqtype (c_in c) = PROTO_REQ_MULTIBULK then parseMultibulkBuffer srv c
        else Inl RQ_ASSERT))"

definition consumeCommandQueue :: "'a client \<Rightarrow> 'a client option" where
  "consumeCommandQueue c =
     (let q = c_queue c in
      if q_off q \<ge> length (q_cmds q) then None
      else let p = q_cmds q ! q_off q; q = q\<lparr>q_off := q_off q + 1\<rparr> in
        Some (c\<lparr>c_flags := c_flags c \<union> p_flags p, c_args := p_args p,
                c_queue := (if q_off q = length (q_cmds q) then q\<lparr>q_cmds := [], q_off := 0\<rparr> else q)\<rparr>))"

fun bit_length :: "nat \<Rightarrow> nat" where
  "bit_length n = (if n = 0 then 0 else Suc (bit_length (n div 2)))"

declare bit_length.simps [simp del]

definition trimCommandQueue :: "'a client \<Rightarrow> 'a client rq_res" where
  "trimCommandQueue c =
     (let q = c_queue c; len = length (q_cmds q) in
      if c_close_asap c \<or> q_cap q = 0 then Inr c
      else if len = 0 then Inr (c\<lparr>c_queue := q\<lparr>q_cap := 0\<rparr>\<rparr>)
      else let cap = (if len = 1 then 1 else 2 ^ bit_length (len - 1)) mod 2 ^ 16 in
        if cap < len then Inl RQ_ASSERT
        else let cap = max cap COMMAND_QUEUE_MIN_CAPACITY in
          Inr (if cap < q_cap q then c\<lparr>c_queue := q\<lparr>q_cap := cap\<rparr>\<rparr> else c))"

section \<open>Results of parsing\<close>

definition isParsingError :: "'a client \<Rightarrow> bool" where
  "isParsingError c \<longleftrightarrow> c_flags c \<inter> {ERROR_BIG_INLINE_REQUEST, ERROR_BIG_MULTIBULK, ERROR_INVALID_MULTIBULK_LEN,
     ERROR_UNAUTHENTICATED_MULTIBULK_LEN, ERROR_UNAUTHENTICATED_BULK_LEN, ERROR_MBULK_INVALID_BULK_LEN,
     ERROR_BIG_BULK_COUNT, ERROR_MBULK_UNEXPECTED_CHARACTER, ERROR_UNEXPECTED_INLINE_FROM_REPLICATED_CLIENT,
     ERROR_UNBALANCED_QUOTES, ERROR_INVALID_CRLF} \<noteq> {}"

definition setProtocolError :: "'a client \<Rightarrow> 'a client" where
  "setProtocolError c = c\<lparr>c_close_after_reply := True, c_protocol_error := True\<rparr>"

text \<open>The part of resetClient that concerns parsing.\<close>

definition resetClient :: "'a client \<Rightarrow> 'a client" where
  "resetClient c = c\<lparr>c_args := no_args, c_cmd := False\<rparr>"

datatype parseResult = PARSE_OK | PARSE_ERR | PARSE_NEEDMORE

definition handleParseResults :: "'a client \<Rightarrow> parseResult \<times> 'a client" where
  "handleParseResults c =
     (if isParsingError c then (PARSE_ERR, setProtocolError c)
      else if INLINE_ZERO_QUERY_LEN \<in> c_flags c \<or> PARSING_NEGATIVE_MBULK_LEN \<in> c_flags c
      then (let c = resetClient c in (PARSE_OK, c\<lparr>c_in := (c_in c)\<lparr>ib_reqtype := 0\<rparr>\<rparr>))
      else if PARSING_COMPLETED \<in> c_flags c then (PARSE_OK, c)
      else (PARSE_NEEDMORE, c))"

section \<open>Executing\<close>

definition canParseCommand :: "rq_server \<Rightarrow> 'a client \<Rightarrow> bool" where
  "canParseCommand srv c \<longleftrightarrow> \<not> c_cmd c \<and> \<not> (c_blocked c \<or> c_unblocked c) \<and> \<not> c_pending_command c \<and>
     \<not> (inside_yielding srv \<and> c_replicated c) \<and> \<not> (c_close_after_reply c \<or> c_close_asap c)"

text \<open>The result tells whether the client still exists.  A blocked client keeps its command.\<close>

definition processCommandAndResetClient :: "'a app \<Rightarrow> 'a client \<Rightarrow> bool \<times> 'a client" where
  "processCommandAndResetClient A c =
     (let (s, out) = ax_exec A (c_app c) (av_argv (c_args c));
          c = c\<lparr>c_app := s, c_log := c_log c @ [av_argv (c_args c)], c_cmd := True\<rparr>
      in case out of
           CMD_OK \<Rightarrow> (True, resetClient c)
         | CMD_BLOCK \<Rightarrow> (True, c\<lparr>c_blocked := True\<rparr>)
         | CMD_CLOSE \<Rightarrow> (True, resetClient (c\<lparr>c_close_after_reply := True\<rparr>))
         | CMD_DEAD \<Rightarrow> (False, c))"

definition resetSharedQueryBuf :: "inbuf \<Rightarrow> inbuf" where
  "resetSharedQueryBuf b =
     (if length (ib_buf b) - ib_pos b > 0 then b\<lparr>ib_owner := QB_OWN\<rparr>
      else b\<lparr>ib_buf := [], ib_owner := QB_NULL, ib_pos := 0\<rparr>)"

definition client_flags :: "'a app \<Rightarrow> 'a client \<Rightarrow> read_flag set" where
  "client_flags A c = (if c_replicated c then {REPLICATED} else {}) \<union> (if ax_auth A (c_app c) then {AUTH_REQUIRED} else {})"

fun pib_loop :: "nat \<Rightarrow> 'a app \<Rightarrow> rq_server \<Rightarrow> 'a client \<Rightarrow> (bool \<times> 'a client) rq_res" where
  "pib_loop 0 A srv c = Inl RQ_FUEL"
| "pib_loop (Suc n) A srv c =
     (if ib_owner (c_in c) \<noteq> QB_NULL \<and> ib_pos (c_in c) < length (ib_buf (c_in c)) \<or> q_off (c_queue c) < length (q_cmds (c_queue c))
      then if \<not> canParseCommand srv c then Inr (True, c)
        else let c = c\<lparr>c_flags := client_flags A c\<rparr> in
        rbind (case consumeCommandQueue c of Some c \<Rightarrow> Inr c | None \<Rightarrow> parseInputBuffer srv c) (\<lambda>c.
        let (r, c) = handleParseResults c in
        if r \<noteq> PARSE_OK then Inr (True, c)
        else if av_argv (c_args c) = [] then pib_loop n A srv c
        else let c = (if ib_owner (c_in c) = QB_SHARED then c\<lparr>c_in := resetSharedQueryBuf (c_in c)\<rparr> else c);
                 (alive, c) = processCommandAndResetClient A c
             in if \<not> alive then Inr (False, c) else pib_loop n A srv c)
      else Inr (True, c))"

text \<open>Every turn but the last uses up a queued command or input, and parsing queues at most one command
  more than it uses bytes.\<close>

definition processInputBuffer :: "'a app \<Rightarrow> rq_server \<Rightarrow> 'a client \<Rightarrow> (bool \<times> 'a client) rq_res" where
  "processInputBuffer A srv c =
     pib_loop (2 * (length (ib_buf (c_in c)) - ib_pos (c_in c)) + length (q_cmds (c_queue c)) + 1) A srv c"

section \<open>The read handler\<close>

text \<open>What connRead returned: bytes (none at the end of the stream), or -1 on a connection that is still
  connected or that is not any more.  How much it was asked for depends on the free space of the buffer
  and is left open.\<close>

datatype conn_result = Received bytes | Again | Broken

definition readToQueryBuf :: "'a app \<Rightarrow> rq_server \<Rightarrow> conn_result \<Rightarrow> 'a client \<Rightarrow> conn_result \<times> 'a client" where
  "readToQueryBuf A srv data c =
     (if c_close_asap c then (Received [], c)
      else let b = c_in c;
          big_arg = ib_reqtype b = PROTO_REQ_MULTIBULK \<and> ib_mbl b \<noteq> 0 \<and> ib_bulk b \<noteq> - 1 \<and> ib_bulk b \<ge> PROTO_MBULK_BIG_ARG;
          b = (if ib_owner b = QB_NULL then b\<lparr>ib_buf := [], ib_owner := (if big_arg then QB_OWN else QB_SHARED)\<rparr> else b);
          c = c\<lparr>c_in := b\<rparr>
      in case data of
           Again \<Rightarrow> (Again, c)
         | Broken \<Rightarrow> (Broken, c)
         | Received d \<Rightarrow>
             if d = [] then (Received [], c)
             else let c = c\<lparr>c_in := b\<lparr>ib_buf := ib_buf b @ d\<rparr>\<rparr>;
                 qb_memory = length (ib_buf b @ d) + ax_multi A (c_app c)
               in (Received d, if REPLICATED \<notin> c_flags c \<and> (qb_memory > client_max_querybuf_len srv \<or>
                      qb_memory > 1024 * 1024 \<and> AUTH_REQUIRED \<in> c_flags c)
                    then add_flag QB_LIMIT_REACHED c else c))"

definition handleReadResult :: "conn_result \<Rightarrow> 'a client \<Rightarrow> bool \<times> 'a client" where
  "handleReadResult nread c = (case nread of
     Again \<Rightarrow> (False, c)
   | Broken \<Rightarrow> (False, c\<lparr>c_close_asap := True\<rparr>)
   | Received d \<Rightarrow> if d = [] then (False, c\<lparr>c_close_asap := True\<rparr>)
       else if QB_LIMIT_REACHED \<in> c_flags c then (False, c\<lparr>c_close_asap := True\<rparr>)
       else (True, c))"

definition trimClientQueryBuffer :: "inbuf \<Rightarrow> inbuf rq_res" where
  "trimClientQueryBuffer b =
     (let b = (if ib_owner b = QB_SHARED then resetSharedQueryBuf b else b) in
      if ib_owner b = QB_NULL then Inr b
      else if length (ib_buf b) < ib_pos b then Inl RQ_ASSERT
      else Inr (if ib_pos b > 0 then b\<lparr>ib_buf := drop (ib_pos b) (ib_buf b), ib_pos := 0\<rparr> else b))"

text \<open>For a client that is not replicated.  The result tells whether the client still exists.\<close>

definition beforeNextClient :: "'a client \<Rightarrow> (bool \<times> 'a client) rq_res" where
  "beforeNextClient c = rbind (trimClientQueryBuffer (c_in c)) (\<lambda>b. Inr (\<not> c_close_asap c, c\<lparr>c_in := b\<rparr>))"

definition readQueryFromClient :: "'a app \<Rightarrow> rq_server \<Rightarrow> conn_result \<Rightarrow> 'a client \<Rightarrow> (bool \<times> 'a client) rq_res" where
  "readQueryFromClient A srv data c =
     (let (nread, c) = readToQueryBuf A srv data c; (ok, c) = handleReadResult nread c in
      if ok then rbind (processInputBuffer A srv c) (\<lambda>(alive, c).
        if \<not> alive then Inr (False, c) else rbind (trimCommandQueue c) beforeNextClient)
      else beforeNextClient c)"

section \<open>Resuming a blocked client\<close>

definition unblockClient :: "'a client \<Rightarrow> 'a client" where
  "unblockClient c = (if c_pending_command c then c else resetClient c)\<lparr>c_blocked := False, c_unblocked := True\<rparr>"

definition processPendingCommandAndInputBuffer :: "'a app \<Rightarrow> rq_server \<Rightarrow> 'a client \<Rightarrow> (bool \<times> 'a client) rq_res" where
  "processPendingCommandAndInputBuffer A srv c =
     (let (alive, c) = (if c_pending_command c then processCommandAndResetClient A (c\<lparr>c_pending_command := False\<rparr>) else (True, c)) in
      if \<not> alive then Inr (False, c)
      else if ib_owner (c_in c) \<noteq> QB_NULL \<and> length (ib_buf (c_in c)) > 0 \<or> q_off (c_queue c) < length (q_cmds (c_queue c))
      then processInputBuffer A srv c
      else Inr (True, c))"

definition processUnblockedClient :: "'a app \<Rightarrow> rq_server \<Rightarrow> 'a client \<Rightarrow> (bool \<times> 'a client) rq_res" where
  "processUnblockedClient A srv c =
     (let c = c\<lparr>c_unblocked := False\<rparr> in
      rbind (if \<not> c_blocked c then processPendingCommandAndInputBuffer A srv c else Inr (True, c)) (\<lambda>(alive, c).
      if \<not> alive then Inr (False, c) else beforeNextClient c))"

definition new_client :: "'a \<Rightarrow> 'a client" where
  "new_client s = \<lparr>c_in = \<lparr>ib_buf = [], ib_owner = QB_NULL, ib_pos = 0, ib_reqtype = 0, ib_mbl = 0, ib_bulk = - 1\<rparr>,
     c_args = no_args, c_queue = \<lparr>q_cmds = [], q_off = 0, q_cap = 0\<rparr>, c_flags = {}, c_replicated = False, c_cmd = False,
     c_blocked = False, c_unblocked = False, c_pending_command = False, c_close_after_reply = False,
     c_protocol_error = False, c_close_asap = False, c_app = s, c_log = []\<rparr>"

end
