(* ===== verification/Request_Safe.thy ===== *)
theory Request_Safe
  imports Request
begin

text \<open>
  The request parsers on arbitrary input: no read or write leaves its buffer, no assertion fails, every
  loop ends within its bound, and the invariant \<open>cl_ok\<close> of the client is kept.
\<close>

section \<open>Invariant of the input buffer\<close>

definition rq_errors :: "read_flag set" where
  "rq_errors = {ERROR_BIG_INLINE_REQUEST, ERROR_BIG_MULTIBULK, ERROR_INVALID_MULTIBULK_LEN,
     ERROR_UNAUTHENTICATED_MULTIBULK_LEN, ERROR_UNAUTHENTICATED_BULK_LEN, ERROR_MBULK_INVALID_BULK_LEN,
     ERROR_BIG_BULK_COUNT, ERROR_MBULK_UNEXPECTED_CHARACTER, ERROR_UNEXPECTED_INLINE_FROM_REPLICATED_CLIENT,
     ERROR_UNBALANCED_QUOTES, ERROR_INVALID_CRLF}"

lemma in_rq_errors [simp]:
  "ERROR_BIG_INLINE_REQUEST \<in> rq_errors" "ERROR_BIG_MULTIBULK \<in> rq_errors" "ERROR_INVALID_MULTIBULK_LEN \<in> rq_errors"
  "ERROR_UNAUTHENTICATED_MULTIBULK_LEN \<in> rq_errors" "ERROR_UNAUTHENTICATED_BULK_LEN \<in> rq_errors"
  "ERROR_MBULK_INVALID_BULK_LEN \<in> rq_errors" "ERROR_BIG_BULK_COUNT \<in> rq_errors" "ERROR_MBULK_UNEXPECTED_CHARACTER \<in> rq_errors"
  "ERROR_UNEXPECTED_INLINE_FROM_REPLICATED_CLIENT \<in> rq_errors" "ERROR_UNBALANCED_QUOTES \<in> rq_errors" "ERROR_INVALID_CRLF \<in> rq_errors"
  "PARSING_COMPLETED \<notin> rq_errors" "PARSING_NEGATIVE_MBULK_LEN \<notin> rq_errors" "INLINE_ZERO_QUERY_LEN \<notin> rq_errors"
  "REPLICATED \<notin> rq_errors" "AUTH_REQUIRED \<notin> rq_errors"
  by (simp_all add: rq_errors_def)

text \<open>The limit fits a \<open>long\<close> of 32 bits with room for the two bytes that end an argument.\<close>

definition srv_ok :: "rq_server \<Rightarrow> bool" where
  "srv_ok srv \<longleftrightarrow> 0 \<le> proto_max_bulk_len srv \<and> proto_max_bulk_len srv \<le> INT32_MAX - 2"

definition buf_ok :: "inbuf \<Rightarrow> bool" where
  "buf_ok b \<longleftrightarrow> ib_pos b \<le> length (ib_buf b) \<and> (ib_owner b = QB_NULL \<longrightarrow> ib_buf b = [])"

definition in_ok :: "rq_server \<Rightarrow> inbuf \<Rightarrow> bool" where
  "in_ok srv b \<longleftrightarrow> srv_ok srv \<and> buf_ok b \<and> ib_reqtype b \<le> PROTO_REQ_MULTIBULK \<and>
     (0 < ib_mbl b \<longrightarrow> ib_reqtype b = PROTO_REQ_MULTIBULK \<and> - 1 \<le> ib_bulk b \<and> ib_bulk b \<le> proto_max_bulk_len srv \<and>
        (PROTO_MBULK_BIG_ARG \<le> ib_bulk b \<longrightarrow> ib_owner b \<noteq> QB_SHARED))"

text \<open>What has been parsed of an incomplete command.\<close>

definition args_ok :: "inbuf \<Rightarrow> argvec \<Rightarrow> bool" where
  "args_ok b a \<longleftrightarrow> (if ib_mbl b = 0 then av_argv a = []
     else 1 \<le> av_len a \<and> int (length (av_argv a)) \<le> av_len a \<and> int (length (av_argv a)) + int (ib_mbl b) \<le> INT32_MAX)"

text \<open>A multibulk request that has not begun begins with an asterisk.\<close>

definition star_ok :: "inbuf \<Rightarrow> bool" where
  "star_ok b \<longleftrightarrow> (ib_reqtype b = PROTO_REQ_MULTIBULK \<and> ib_mbl b = 0 \<longrightarrow> ib_pos b < length (ib_buf b) \<and> ib_buf b ! ib_pos b = 42)"

abbreviation rem :: "inbuf \<Rightarrow> nat" where
  "rem b \<equiv> length (ib_buf b) - ib_pos b"

lemma memchr_Some: "memchr c xs = Some i \<Longrightarrow> i < length xs \<and> xs ! i = c \<and> c \<notin> set (take i xs)"
  by (induction xs arbitrary: i) (auto split: if_splits)

lemma memchr_None: "memchr c xs = None \<longleftrightarrow> c \<notin> set xs"
  by (induction xs) auto

lemma memchr_append: "c \<notin> set xs \<Longrightarrow> memchr c (xs @ c # ys) = Some (length xs)"
  by (induction xs) auto

lemma strchr_Some: "strchr c xs = Some i \<Longrightarrow> i < length xs \<and> xs ! i = c"
  by (induction xs arbitrary: i) (auto split: if_splits)

lemma qb_at_in [simp]: "i < length (ib_buf b) \<Longrightarrow> qb_at b (int i) = Inr (ib_buf b ! i)"
  by (simp add: qb_at_def)

lemma to_long_id: "- 2147483648 \<le> v \<Longrightarrow> v \<le> INT32_MAX \<Longrightarrow> to_long v = v"
  by (simp add: to_long_def)

lemma newline_bounds:
  assumes "memchr 13 (drop (ib_pos b) (ib_buf b)) = Some i" "\<not> int i > int (length (ib_buf b)) - int (ib_pos b) - 2" "ib_pos b \<le> length (ib_buf b)"
  shows "ib_pos b + i + 1 < length (ib_buf b)" "ib_pos b + i + 2 \<le> length (ib_buf b)" "ib_pos b < length (ib_buf b)"
  using assms memchr_Some [OF assms(1)] by linarith+

lemma parse_count_safe:
  assumes "in_ok srv b" "ib_mbl b = 0" "args_ok b a" "star_ok b" "ib_reqtype b = PROTO_REQ_MULTIBULK"
  shows "ensures (parse_count fl b a) (\<lambda>(r, b', a'). case r of
      None \<Rightarrow> in_ok srv b' \<and> 0 < ib_mbl b' \<and> args_ok b' a' \<and> ib_bulk b' = - 1 \<and> rem b' < rem b \<and> 0 < ib_pos b'
    | Some None \<Rightarrow> b' = b \<and> a' = a
    | Some (Some f) \<Rightarrow> in_ok srv b' \<and> (f = PARSING_NEGATIVE_MBULK_LEN \<and> ib_mbl b' = 0 \<and> rem b' < rem b \<or> f \<in> rq_errors) \<and> rem b' \<le> rem b)"
proof (cases "memchr 13 (drop (ib_pos b) (ib_buf b))")
  case None
  then show ?thesis using assms by (auto simp: parse_count_def args_ok_def)
next
  case (Some i)
  have a: "av_argv a = []" and p: "ib_pos b \<le> length (ib_buf b)" using assms by (auto simp: args_ok_def in_ok_def buf_ok_def)
  show ?thesis
  proof (cases "int i > int (length (ib_buf b)) - int (ib_pos b) - 2")
    case False
    note n = newline_bounds [OF Some False p]
    have s: "ib_buf b ! ib_pos b = 42" using assms n(3) by (simp add: star_ok_def)
    have r: "qb_at b (int (ib_pos b + i + 1)) = Inr (ib_buf b ! (ib_pos b + i + 1))" "qb_at b (int (ib_pos b)) = Inr 42"
      using qb_at_in [OF n(1)] qb_at_in [OF n(3)] s by simp_all
    show ?thesis
    proof (cases "string2ll (mem_read (ib_buf b) (ib_pos b + 1) (i - 1))")
      case None
      then show ?thesis using Some False r a assms(1) by (simp add: parse_count_def)
    next
      case ll: (Some ll)
      then show ?thesis using Some False r a n assms by (auto simp: parse_count_def in_ok_def buf_ok_def srv_ok_def args_ok_def Let_def)
    qed
  qed (use Some a in \<open>simp add: parse_count_def\<close>)
qed

lemma trim_for_big_ok:
  "ib_pos b \<le> length (ib_buf b) \<Longrightarrow> ib_pos (trim_for_big fl ll b) \<le> length (ib_buf (trim_for_big fl ll b)) \<and> rem (trim_for_big fl ll b) = rem b \<and>
   ib_mbl (trim_for_big fl ll b) = ib_mbl b \<and> ib_reqtype (trim_for_big fl ll b) = ib_reqtype b"
  by (auto simp: trim_for_big_def)

text \<open>Between the two halves of a turn a large argument may still be in the shared buffer, if all of it is there.\<close>

definition bulk_ok :: "rq_server \<Rightarrow> inbuf \<Rightarrow> bool" where
  "bulk_ok srv b \<longleftrightarrow> srv_ok srv \<and> buf_ok b \<and> ib_reqtype b = PROTO_REQ_MULTIBULK \<and>
     0 \<le> ib_bulk b \<and> ib_bulk b \<le> proto_max_bulk_len srv \<and>
     (PROTO_MBULK_BIG_ARG \<le> ib_bulk b \<longrightarrow> ib_owner b \<noteq> QB_SHARED \<or> 0 < ib_pos b \<and> ib_bulk b + 2 < int (rem b))"

lemma parse_bulklen_safe:
  assumes "in_ok srv b" "0 < ib_mbl b" "args_ok b a" "REPLICATED \<notin> fl"
  shows "ensures (parse_bulklen srv fl b a) (\<lambda>(r, b', a'). case r of
      None \<Rightarrow> bulk_ok srv b' \<and> ib_mbl b' = ib_mbl b \<and> args_ok b' a' \<and> rem b' < rem b
    | Some f \<Rightarrow> b' = b \<and> a' = a \<and> (f \<noteq> None \<longrightarrow> the f \<in> rq_errors))"
proof (cases "memchr 13 (drop (ib_pos b) (ib_buf b))")
  case None
  then show ?thesis using assms by (auto simp: parse_bulklen_def)
next
  case (Some i)
  have p: "ib_pos b \<le> length (ib_buf b)" using assms by (auto simp: in_ok_def buf_ok_def)
  show ?thesis
  proof (cases "int i > int (length (ib_buf b)) - int (ib_pos b) - 2")
    case False
    note n = newline_bounds [OF Some False p]
    have r: "qb_at b (int (ib_pos b + i + 1)) = Inr (ib_buf b ! (ib_pos b + i + 1))" "qb_at b (int (ib_pos b)) = Inr (ib_buf b ! ib_pos b)"
      using qb_at_in [OF n(1)] qb_at_in [OF n(3)] by simp_all
    show ?thesis
    proof (cases "string2ll (mem_read (ib_buf b) (ib_pos b + 1) (i - 1))")
      case None
      then show ?thesis using Some False r by (simp add: parse_bulklen_def)
    next
      case ll: (Some ll)
      let ?b = "trim_for_big fl ll (b\<lparr>ib_pos := ib_pos b + i + 2\<rparr>)"
      have t: "ib_pos ?b \<le> length (ib_buf ?b)" "rem ?b = rem (b\<lparr>ib_pos := ib_pos b + i + 2\<rparr>)" "ib_mbl ?b = ib_mbl b" "ib_reqtype ?b = 2"
        using trim_for_big_ok [of "b\<lparr>ib_pos := ib_pos b + i + 2\<rparr>" fl ll] n(2) assms(1,2) by (auto simp: in_ok_def buf_ok_def)
      have o: "ib_owner ?b \<noteq> QB_NULL" using assms(1) n by (auto simp: trim_for_big_def in_ok_def buf_ok_def)
      have g: "bulk_ok srv (?b\<lparr>ib_bulk := to_long ll\<rparr>)" if "0 \<le> ll" "ll \<le> proto_max_bulk_len srv"
        using that t o n assms(1,4) by (auto simp: bulk_ok_def to_long_id in_ok_def buf_ok_def srv_ok_def trim_for_big_def)
      show ?thesis using Some False r ll t g n assms(3,4) by (auto simp: parse_bulklen_def args_ok_def)
    qed
  qed (use Some in \<open>simp add: parse_bulklen_def\<close>)
qed

lemma grow_argv_ok:
  assumes "args_ok b a" "0 < ib_mbl b"
  shows "int (length (av_argv a)) < av_len (grow_argv (ib_mbl b) a)" "av_argv (grow_argv (ib_mbl b) a) = av_argv a"
    "av_sum (grow_argv (ib_mbl b) a) = av_sum a" "av_bytes (grow_argv (ib_mbl b) a) = av_bytes a"
  using assms by (auto simp: grow_argv_def args_ok_def)

text \<open>The input and the vector after an argument has been taken.\<close>

definition bulk_in :: "read_flag set \<Rightarrow> inbuf \<Rightarrow> inbuf" where
  "bulk_in fl b =
     (if REPLICATED \<notin> fl \<and> ib_pos b = 0 \<and> ib_bulk b \<ge> PROTO_MBULK_BIG_ARG \<and> int (length (ib_buf b)) = ib_bulk b + 2
      then b\<lparr>ib_buf := [], ib_owner := QB_OWN\<rparr> else b\<lparr>ib_pos := ib_pos b + nat (ib_bulk b) + 2\<rparr>)\<lparr>ib_bulk := - 1, ib_mbl := ib_mbl b - 1\<rparr>"

definition bulk_args :: "inbuf \<Rightarrow> argvec \<Rightarrow> argvec" where
  "bulk_args b a = (grow_argv (ib_mbl b) a)\<lparr>av_argv := av_argv a @ [take (nat (ib_bulk b)) (drop (ib_pos b) (ib_buf b))],
     av_sum := nat (int (av_sum a) + ib_bulk b)\<rparr>"

lemma bulk_ok_bounds:
  "bulk_ok srv b \<Longrightarrow> 0 \<le> ib_bulk b \<and> ib_bulk b + 2 \<le> INT32_MAX \<and> (ib_bulk b + 2) mod 2 ^ 32 = ib_bulk b + 2 \<and> ib_pos b \<le> length (ib_buf b)"
  by (auto simp: bulk_ok_def srv_ok_def buf_ok_def)

lemma parse_bulk_wait: "bulk_ok srv b \<Longrightarrow> int (rem b) < ib_bulk b + 2 \<Longrightarrow> parse_bulk fl b a = Inr (Some None, b, a)"
  using bulk_ok_bounds [of srv b] by (simp add: parse_bulk_def of_nat_diff)

lemma parse_bulk_take:
  assumes "bulk_ok srv b" "0 < ib_mbl b" "args_ok b a" "\<not> int (rem b) < ib_bulk b + 2"
  shows "parse_bulk fl b a = (if ib_buf b ! (ib_pos b + nat (ib_bulk b)) \<noteq> 13 \<or> ib_buf b ! (ib_pos b + nat (ib_bulk b) + 1) \<noteq> 10
        then Inr (Some (Some ERROR_INVALID_CRLF), b, grow_argv (ib_mbl b) a)
        else Inr (None, bulk_in fl b, bulk_args b a))"
proof -
  let ?e = "nat (ib_bulk b)"
  note g = grow_argv_ok [OF assms(3,2)] and k = bulk_ok_bounds [OF assms(1)]
  have i: "ib_pos b + ?e + 1 < length (ib_buf b)" using k assms(4) by linarith
  have q: "qb_at b (int (ib_pos b) + ib_bulk b) = Inr (ib_buf b ! (ib_pos b + ?e))"
    "qb_at b (int (ib_pos b) + ib_bulk b + 1) = Inr (ib_buf b ! (ib_pos b + ?e + 1))"
    using qb_at_in [of "ib_pos b + ?e" b] qb_at_in [OF i] i k by (simp_all add: algebra_simps)
  have u: "\<not> (ib_pos b = 0 \<and> ib_bulk b \<ge> PROTO_MBULK_BIG_ARG \<and> int (length (ib_buf b)) = ib_bulk b + 2 \<and> ib_owner b = QB_SHARED)"
    using assms(1) by (auto simp: bulk_ok_def)
  have n: "nat (int (ib_pos b) + ib_bulk b + 2) = ib_pos b + ?e + 2" using k by (simp add: nat_add_distrib)
  show ?thesis
    using k assms(4) q u n g by (auto simp: parse_bulk_def push_arg_def of_nat_diff mem_read_def bulk_in_def bulk_args_def)
qed

lemma bulk_in_ok:
  assumes "bulk_ok srv b" "\<not> int (rem b) < ib_bulk b + 2"
  shows "in_ok srv (bulk_in fl b)" "rem (bulk_in fl b) < rem b" "ib_mbl (bulk_in fl b) = ib_mbl b - 1" "ib_bulk (bulk_in fl b) = - 1"
    "ib_reqtype (bulk_in fl b) = PROTO_REQ_MULTIBULK"
proof -
  have "ib_pos b + nat (ib_bulk b) + 1 < length (ib_buf b)" using bulk_ok_bounds [OF assms(1)] assms(2) by linarith
  then show "in_ok srv (bulk_in fl b)" "rem (bulk_in fl b) < rem b" using assms(1) by (auto simp: bulk_in_def bulk_ok_def in_ok_def buf_ok_def srv_ok_def)
  show "ib_mbl (bulk_in fl b) = ib_mbl b - 1" "ib_bulk (bulk_in fl b) = - 1" "ib_reqtype (bulk_in fl b) = PROTO_REQ_MULTIBULK"
    using assms(1) by (auto simp: bulk_in_def bulk_ok_def)
qed

lemma parse_bulk_safe:
  assumes "bulk_ok srv b" "0 < ib_mbl b" "args_ok b a"
  shows "ensures (parse_bulk fl b a) (\<lambda>(r, b', a'). case r of
      None \<Rightarrow> in_ok srv b' \<and> ib_mbl b' = ib_mbl b - 1 \<and> ib_bulk b' = - 1 \<and> ib_reqtype b' = PROTO_REQ_MULTIBULK \<and>
        (0 < ib_mbl b' \<longrightarrow> args_ok b' a') \<and> rem b' < rem b
    | Some None \<Rightarrow> in_ok srv b \<and> b' = b \<and> a' = a
    | Some (Some f) \<Rightarrow> f \<in> rq_errors \<and> b' = b)"
proof (cases "int (rem b) < ib_bulk b + 2")
  case True
  moreover have "in_ok srv b" using True assms(1,2) by (auto simp: bulk_ok_def in_ok_def buf_ok_def)
  ultimately show ?thesis using parse_bulk_wait [OF assms(1) True] by simp
next
  case False
  have "0 < ib_mbl b - 1 \<longrightarrow> args_ok (bulk_in fl b) (bulk_args b a)"
    using assms(2,3) grow_argv_ok(1) [OF assms(3,2)] bulk_in_ok(3) [OF assms(1) False, of fl] by (auto simp: args_ok_def bulk_args_def)
  then show ?thesis using bulk_in_ok [OF assms(1) False, of fl] by (simp add: parse_bulk_take [OF assms False])
qed

section \<open>The multibulk parser\<close>

text \<open>What parseMultibulk leaves behind; \<open>r\<close> is the input there was.\<close>

definition mb_post :: "rq_server \<Rightarrow> nat \<Rightarrow> read_flag option \<Rightarrow> inbuf \<Rightarrow> argvec \<Rightarrow> bool" where
  "mb_post srv r f b a \<longleftrightarrow> buf_ok b \<and> rem b \<le> r \<and> (case f of
     None \<Rightarrow> in_ok srv b \<and> args_ok b a \<and> star_ok b \<and> ib_reqtype b = PROTO_REQ_MULTIBULK
   | Some g \<Rightarrow> g = PARSING_COMPLETED \<and> in_ok srv b \<and> ib_mbl b = 0 \<and> ib_reqtype b = 0 \<and> rem b < r \<or>
       g = PARSING_NEGATIVE_MBULK_LEN \<and> in_ok srv b \<and> ib_mbl b = 0 \<and> rem b < r \<or> g \<in> rq_errors)"

lemma mb_post_mono: "mb_post srv r f b a \<Longrightarrow> r \<le> r' \<Longrightarrow> mb_post srv r' f b a"
  by (auto simp: mb_post_def split: option.splits)

text \<open>One turn of the loop.\<close>

definition mb_turn :: "rq_server \<Rightarrow> read_flag set \<Rightarrow> inbuf \<Rightarrow> argvec \<Rightarrow> part rq_res" where
  "mb_turn srv fl b a =
     rbind (if ib_bulk b = - 1 then parse_bulklen srv fl b a else Inr (None, b, a)) (\<lambda>(r, b, a). case r of
       Some f \<Rightarrow> Inr (Some f, b, a)
     | None \<Rightarrow> parse_bulk fl b a)"

definition turn_post :: "rq_server \<Rightarrow> inbuf \<Rightarrow> part \<Rightarrow> bool" where
  "turn_post srv b x \<longleftrightarrow> (case x of (r, b', a') \<Rightarrow> case r of
      None \<Rightarrow> in_ok srv b' \<and> ib_mbl b' = ib_mbl b - 1 \<and> ib_bulk b' = - 1 \<and> ib_reqtype b' = PROTO_REQ_MULTIBULK \<and>
        (0 < ib_mbl b' \<longrightarrow> args_ok b' a') \<and> rem b' < rem b
    | Some f \<Rightarrow> mb_post srv (rem b) f b' a')"

lemma mb_loop_Suc:
  "mb_loop srv fl (Suc n) b a = rbind (mb_turn srv fl b a) (\<lambda>(r, b, a). case r of
     Some f \<Rightarrow> Inr (f, b, a) | None \<Rightarrow> mb_loop srv fl n b a)"
  by (auto simp: mb_turn_def rbind_def split: sum.splits option.splits)

lemma mb_turn_safe:
  assumes "in_ok srv b" "0 < ib_mbl b" "args_ok b a" "REPLICATED \<notin> fl"
  shows "ensures (mb_turn srv fl b a) (turn_post srv b)"
proof -
  have bulk: "ensures (parse_bulk fl b1 a1) (turn_post srv b)"
    if b1: "bulk_ok srv b1" "ib_mbl b1 = ib_mbl b" "args_ok b1 a1" "rem b1 \<le> rem b" for b1 a1
  proof (rule ensures_mono [OF parse_bulk_safe [OF b1(1) _ b1(3), of fl]])
    show "0 < ib_mbl b1" using b1(2) assms(2) by simp
    have bo: "buf_ok b1" "ib_reqtype b1 = PROTO_REQ_MULTIBULK" using b1(1) by (simp_all add: bulk_ok_def)
    fix x :: part
    obtain r b' a' where x: "x = (r, b', a')" by (cases x)
    assume "case x of (r, b', a') \<Rightarrow> (case r of
      None \<Rightarrow> in_ok srv b' \<and> ib_mbl b' = ib_mbl b1 - 1 \<and> ib_bulk b' = - 1 \<and> ib_reqtype b' = PROTO_REQ_MULTIBULK \<and>
        (0 < ib_mbl b' \<longrightarrow> args_ok b' a') \<and> rem b' < rem b1
    | Some None \<Rightarrow> in_ok srv b1 \<and> b' = b1 \<and> a' = a1
    | Some (Some f) \<Rightarrow> f \<in> rq_errors \<and> b' = b1)"
    then show "turn_post srv b x"
      using b1 bo assms(2) by (cases r; cases "the r") (simp_all add: x turn_post_def mb_post_def star_ok_def)
  qed
  show ?thesis
  proof (cases "ib_bulk b = - 1")
    case True
    have "ensures (parse_bulklen srv fl b a) (\<lambda>(r, b', a'). case r of
        None \<Rightarrow> bulk_ok srv b' \<and> ib_mbl b' = ib_mbl b \<and> args_ok b' a' \<and> rem b' < rem b
      | Some f \<Rightarrow> b' = b \<and> a' = a \<and> (f \<noteq> None \<longrightarrow> the f \<in> rq_errors))"
      by (rule parse_bulklen_safe [OF assms])
    then obtain r b' a' where r: "parse_bulklen srv fl b a = Inr (r, b', a')"
      "case r of None \<Rightarrow> bulk_ok srv b' \<and> ib_mbl b' = ib_mbl b \<and> args_ok b' a' \<and> rem b' < rem b
      | Some f \<Rightarrow> b' = b \<and> a' = a \<and> (f \<noteq> None \<longrightarrow> the f \<in> rq_errors)" by (auto simp: ensures_def)
    show ?thesis
    proof (cases r)
      case None
      then show ?thesis using r True bulk [of b' a'] by (simp add: mb_turn_def)
    next
      case (Some f)
      then have "mb_post srv (rem b) f b a" using r assms by (cases f) (auto simp: mb_post_def star_ok_def in_ok_def)
      then show ?thesis using r True Some by (simp add: mb_turn_def turn_post_def)
    qed
  next
    case False
    then have "bulk_ok srv b" using assms by (auto simp: in_ok_def bulk_ok_def)
    then show ?thesis using bulk [of b a] assms(3) False by (simp add: mb_turn_def)
  qed
qed

lemma mb_loop_turn:
  assumes "in_ok srv b" "ib_mbl b = Suc n" "args_ok b a" "REPLICATED \<notin> fl"
    "\<And>b' a'. in_ok srv b' \<Longrightarrow> ib_mbl b' = n \<Longrightarrow> ib_reqtype b' = PROTO_REQ_MULTIBULK \<Longrightarrow> (0 < n \<Longrightarrow> args_ok b' a') \<Longrightarrow> rem b' < rem b \<Longrightarrow>
      ensures (mb_loop srv fl n b' a') (\<lambda>(f, b'', a''). mb_post srv (Suc (rem b')) f b'' a'')"
  shows "ensures (mb_loop srv fl (Suc n) b a) (\<lambda>(f, b', a'). mb_post srv (rem b) f b' a')"
proof -
  obtain r b' a' where t: "mb_turn srv fl b a = Inr (r, b', a')" "turn_post srv b (r, b', a')"
    using mb_turn_safe [OF assms(1) _ assms(3,4)] assms(2) by (auto simp: ensures_def)
  show ?thesis
  proof (cases r)
    case None
    then have p: "in_ok srv b'" "ib_mbl b' = n" "ib_reqtype b' = PROTO_REQ_MULTIBULK" "0 < n \<Longrightarrow> args_ok b' a'" "rem b' < rem b"
      using t(2) assms(2) by (auto simp: turn_post_def)
    show ?thesis unfolding mb_loop_Suc t(1) None
      using p(5) by (auto intro!: ensures_mono [OF assms(5) [OF p]] elim: mb_post_mono)
  next
    case (Some f)
    then show ?thesis using t by (simp add: mb_loop_Suc turn_post_def del: mb_loop.simps)
  qed
qed

lemma mb_loop_safe:
  "in_ok srv b \<Longrightarrow> ib_mbl b = n \<Longrightarrow> ib_reqtype b = PROTO_REQ_MULTIBULK \<Longrightarrow> (0 < n \<Longrightarrow> args_ok b a) \<Longrightarrow> REPLICATED \<notin> fl \<Longrightarrow>
   ensures (mb_loop srv fl n b a) (\<lambda>(f, b', a'). mb_post srv (Suc (rem b)) f b' a')"
proof (induction n arbitrary: b a)
  case 0
  then show ?case by (simp add: mb_post_def in_ok_def buf_ok_def)
next
  case (Suc n)
  have "ensures (mb_loop srv fl (Suc n) b a) (\<lambda>(f, b', a'). mb_post srv (rem b) f b' a')"
    by (rule mb_loop_turn) (use Suc in auto)
  then show ?case by (rule ensures_mono) (auto elim: mb_post_mono)
qed

text \<open>The parser never fails, stays inside the buffer and makes progress when it returns a flag.\<close>

lemma parseMultibulk_safe:
  assumes "in_ok srv b" "args_ok b a" "star_ok b" "ib_reqtype b = PROTO_REQ_MULTIBULK" "REPLICATED \<notin> fl"
  shows "ensures (parseMultibulk srv fl b a) (\<lambda>(f, b', a'). mb_post srv (rem b) f b' a')"
proof -
  have p: "\<not> length (ib_buf b) < ib_pos b" using assms(1) by (simp add: in_ok_def buf_ok_def)
  have loop: "ensures (mb_loop srv fl (ib_mbl b') b' a') (\<lambda>(f, b', a'). mb_post srv (rem b) f b' a')"
    if h: "in_ok srv b'" "0 < ib_mbl b'" "args_ok b' a'" "rem b' \<le> rem b" for b' a'
  proof -
    obtain n where n: "ib_mbl b' = Suc n" using h(2) by (cases "ib_mbl b'") auto
    have "ensures (mb_loop srv fl (Suc n) b' a') (\<lambda>(f, b'', a''). mb_post srv (rem b') f b'' a'')"
      by (rule mb_loop_turn [OF h(1) n h(3) assms(5)]) (rule mb_loop_safe; use assms(5) in simp)
    then show ?thesis unfolding n by (rule ensures_mono) (use h(4) in \<open>auto elim: mb_post_mono\<close>)
  qed
  show ?thesis
  proof (cases "ib_mbl b = 0")
    case True
    obtain r b' a' where r: "parse_count fl b a = Inr (r, b', a')" "case r of
        None \<Rightarrow> in_ok srv b' \<and> 0 < ib_mbl b' \<and> args_ok b' a' \<and> ib_bulk b' = - 1 \<and> rem b' < rem b \<and> 0 < ib_pos b'
      | Some None \<Rightarrow> b' = b \<and> a' = a
      | Some (Some f) \<Rightarrow> in_ok srv b' \<and> (f = PARSING_NEGATIVE_MBULK_LEN \<and> ib_mbl b' = 0 \<and> rem b' < rem b \<or> f \<in> rq_errors) \<and> rem b' \<le> rem b"
      using parse_count_safe [OF assms(1) True assms(2,3,4), of fl] by (auto simp: ensures_def)
    show ?thesis
    proof (cases r)
      case None
      then show ?thesis using r True p loop [of b' a'] by (simp add: parseMultibulk_def)
    next
      case (Some f)
      then have "mb_post srv (rem b) f b' a'" using r(2) assms by (cases f) (auto simp: mb_post_def in_ok_def)
      then show ?thesis using r Some True p by (simp add: parseMultibulk_def)
    qed
  next
    case False
    then show ?thesis using loop [of b a] assms(1,2) p by (simp add: parseMultibulk_def)
  qed
qed

section \<open>Commands in the queue\<close>

text \<open>The state of the input after a command with flags \<open>fl\<close> and arguments \<open>a\<close> has been parsed: the command
  is incomplete, complete, empty, or wrong.\<close>

definition last_ok :: "rq_server \<Rightarrow> read_flag set \<Rightarrow> argvec \<Rightarrow> inbuf \<Rightarrow> bool" where
  "last_ok srv fl a b \<longleftrightarrow>
     fl = {} \<and> in_ok srv b \<and> star_ok b \<and> args_ok b a \<or>
     PARSING_COMPLETED \<in> fl \<and> fl \<subseteq> {PARSING_COMPLETED, INLINE_ZERO_QUERY_LEN} \<and> in_ok srv b \<and> star_ok b \<and> ib_mbl b = 0 \<or>
     fl = {PARSING_NEGATIVE_MBULK_LEN} \<and> in_ok srv b \<and> ib_mbl b = 0 \<or>
     (\<exists>e \<in> rq_errors. fl = {e})"

lemma mb_post_last: "mb_post srv r f b a \<Longrightarrow> last_ok srv (set_option f) a b"
  by (cases f) (auto simp: mb_post_def last_ok_def star_ok_def)

definition queue_ok :: "rq_server \<Rightarrow> inbuf \<Rightarrow> cmdQueue \<Rightarrow> bool" where
  "queue_ok srv b q \<longleftrightarrow> length (q_cmds q) \<le> q_cap q \<and> q_cap q \<le> 1024 \<and> (q_cmds q = [] \<longrightarrow> q_off q = 0) \<and>
     (q_cmds q \<noteq> [] \<longrightarrow> q_off q < length (q_cmds q))"

definition items_ok :: "rq_server \<Rightarrow> inbuf \<Rightarrow> cmdQueue \<Rightarrow> bool" where
  "items_ok srv b q \<longleftrightarrow> (\<forall>i. q_off q \<le> i \<and> Suc i < length (q_cmds q) \<longrightarrow> p_flags (q_cmds q ! i) = {PARSING_COMPLETED}) \<and>
     (q_cmds q \<noteq> [] \<longrightarrow> last_ok srv (p_flags (last (q_cmds q))) (p_args (last (q_cmds q))) b)"

lemma grow_queue_ok:
  assumes "queue_ok srv b q" "q_off q = 0"
  shows "case grow_queue q of None \<Rightarrow> q_cmds q \<noteq> [] | Some q' \<Rightarrow> q_cmds q' = q_cmds q \<and> q_off q' = 0 \<and> length (q_cmds q') < q_cap q' \<and> q_cap q' \<le> 1024"
  using assms by (auto simp: grow_queue_def queue_ok_def)

lemma items_ok_snoc:
  assumes "items_ok srv b q" "q_cmds q \<noteq> [] \<Longrightarrow> p_flags (last (q_cmds q)) = {PARSING_COMPLETED}" "last_ok srv (p_flags p) (p_args p) b'"
  shows "items_ok srv b' (q\<lparr>q_cap := n, q_cmds := q_cmds q @ [p]\<rparr>)"
proof -
  have "p_flags (q_cmds q ! i) = {PARSING_COMPLETED}" if "q_off q \<le> i" "i < length (q_cmds q)" for i
  proof (cases "Suc i = length (q_cmds q)")
    case True
    then have "q_cmds q \<noteq> []" "last (q_cmds q) = q_cmds q ! i" by (auto, metis diff_Suc_1 last_conv_nth list.size(3) nat.simps(3))
    then show ?thesis using assms(2) by simp
  qed (use that assms(1) in \<open>simp add: items_ok_def\<close>)
  then show ?thesis using assms(3) by (auto simp: items_ok_def nth_append)
qed

lemma pipeline_loop_safe:
  assumes "in_ok srv (c_in c) \<or> f \<noteq> Some PARSING_COMPLETED" "f = Some PARSING_COMPLETED \<Longrightarrow> ib_mbl (c_in c) = 0" "buf_ok (c_in c)"
    "queue_ok srv (c_in c) (c_queue c)" "q_off (c_queue c) = 0" "items_ok srv (c_in c) (c_queue c)"
    "q_cmds (c_queue c) \<noteq> [] \<Longrightarrow> p_flags (last (q_cmds (c_queue c))) = set_option f"
    "REPLICATED \<notin> c_flags c" "1025 < n + length (q_cmds (c_queue c))"
  shows "ensures (pipeline_loop n srv f c) (\<lambda>c'. \<exists>b q. c' = c\<lparr>c_in := b, c_queue := q\<rparr> \<and> buf_ok b \<and> queue_ok srv b q \<and> q_off q = 0 \<and>
    items_ok srv b q \<and> (q_cmds q = [] \<longrightarrow> b = c_in c) \<and> rem b + length (q_cmds q) \<le> rem (c_in c) + length (q_cmds (c_queue c)) + 1 \<and>
    length (q_cmds (c_queue c)) \<le> length (q_cmds q) \<and> (q_cmds q \<noteq> [] \<longrightarrow> f = Some PARSING_COMPLETED \<or> q_cmds (c_queue c) \<noteq> []))"
  using assms
proof (induction n arbitrary: f c)
  case 0
  then show ?case by (auto simp: queue_ok_def)
next
  case (Suc n)
  let ?b = "(c_in c)\<lparr>ib_reqtype := PROTO_REQ_MULTIBULK\<rparr>"
  show ?case
  proof (cases "f = Some PARSING_COMPLETED \<and> length (ib_buf (c_in c)) > ib_pos (c_in c) \<and> ib_buf (c_in c) ! ib_pos (c_in c) = 42")
    case go: True
    have b: "in_ok srv ?b" "star_ok ?b" "args_ok ?b no_args" "ib_mbl ?b = 0"
      using Suc.prems(1,2) go by (auto simp: in_ok_def buf_ok_def star_ok_def args_ok_def no_args_def)
    have g: "case grow_queue (c_queue c) of None \<Rightarrow> q_cmds (c_queue c) \<noteq> []
      | Some q' \<Rightarrow> q_cmds q' = q_cmds (c_queue c) \<and> q_off q' = 0 \<and> length (q_cmds q') < q_cap q' \<and> q_cap q' \<le> 1024"
      by (rule grow_queue_ok [OF Suc.prems(4,5)])
    show ?thesis
    proof (cases "grow_queue (c_queue c)")
      case None
      have "items_ok srv ?b (c_queue c)" using Suc.prems(6,7) go b by (auto simp: items_ok_def last_ok_def)
      then show ?thesis using None go g Suc.prems(3,4,5)
        by (auto simp: buf_ok_def queue_ok_def intro!: exI [of _ ?b] exI [of _ "c_queue c"])
    next
      case (Some q)
      have q: "q_cmds q = q_cmds (c_queue c)" "q_off q = 0" "length (q_cmds q) < q_cap q" "q_cap q \<le> 1024" using g Some by auto
      obtain f' b' a' where r: "parseMultibulk srv (c_flags c) ?b no_args = Inr (f', b', a')" "mb_post srv (rem ?b) f' b' a'"
        using parseMultibulk_safe [OF b(1,3,2) _ Suc.prems(8)] by (auto simp: ensures_def)
      let ?q = "q\<lparr>q_cmds := q_cmds q @ [\<lparr>p_flags = set_option f', p_args = a'\<rparr>]\<rparr>"
      let ?c = "c\<lparr>c_in := b', c_queue := ?q\<rparr>"
      have i: "items_ok srv b' ?q"
        using items_ok_snoc [OF Suc.prems(6), of "\<lparr>p_flags = set_option f', p_args = a'\<rparr>" b' "q_cap q"] Suc.prems(5,7) mb_post_last [OF r(2)] go q
        by (auto simp: items_ok_def)
      have qo: "queue_ok srv b' ?q" using q by (auto simp: queue_ok_def)
      have p: "in_ok srv b' \<or> f' \<noteq> Some PARSING_COMPLETED" "f' = Some PARSING_COMPLETED \<Longrightarrow> ib_mbl b' = 0" "buf_ok b'" "rem b' \<le> rem (c_in c)"
        "f' = Some PARSING_COMPLETED \<Longrightarrow> rem b' < rem (c_in c)"
        using r(2) by (auto simp: mb_post_def split: option.splits)
      show ?thesis
      proof (cases "f' = Some PARSING_COMPLETED")
        case True
        have "ensures (pipeline_loop n srv f' ?c) (\<lambda>c'. \<exists>b q. c' = ?c\<lparr>c_in := b, c_queue := q\<rparr> \<and> buf_ok b \<and> queue_ok srv b q \<and> q_off q = 0 \<and>
          items_ok srv b q \<and> (q_cmds q = [] \<longrightarrow> b = b') \<and> rem b + length (q_cmds q) \<le> rem b' + length (q_cmds ?q) + 1 \<and>
          length (q_cmds ?q) \<le> length (q_cmds q) \<and> (q_cmds q \<noteq> [] \<longrightarrow> f' = Some PARSING_COMPLETED \<or> q_cmds ?q \<noteq> []))"
          using Suc.IH [of ?c f'] p i qo q Suc.prems(8,9) by simp
        then have "ensures (pipeline_loop n srv f' ?c) (\<lambda>c'. \<exists>b q. c' = c\<lparr>c_in := b, c_queue := q\<rparr> \<and> buf_ok b \<and> queue_ok srv b q \<and> q_off q = 0 \<and>
          items_ok srv b q \<and> (q_cmds q = [] \<longrightarrow> b = c_in c) \<and> rem b + length (q_cmds q) \<le> rem (c_in c) + length (q_cmds (c_queue c)) + 1 \<and>
          length (q_cmds (c_queue c)) \<le> length (q_cmds q))"
          by (rule ensures_mono) (use p(5) [OF True] q in force)
        then show ?thesis using go Some r(1) q(3) by simp
      next
        case False
        obtain m where "n = Suc m" using Suc.prems(9) q by (cases n) auto
        then have "pipeline_loop n srv f' ?c = Inr ?c" using False by simp
        then have "pipeline_loop (Suc n) srv f c = Inr ?c" using go Some r(1) q(3) by simp
        moreover have "rem b' + length (q_cmds ?q) \<le> rem (c_in c) + length (q_cmds (c_queue c)) + 1" using p(4) q(1) by simp
        ultimately show ?thesis using go q(1,2) p(3) i qo by (simp only: ensures_Inr, intro exI [of _ b'] exI [of _ ?q]) simp
      qed
    qed
  next
    case False
    then show ?thesis using Suc.prems by (auto intro!: exI [of _ "c_in c"] exI [of _ "c_queue c"])
  qed
qed

section \<open>One round of parsing\<close>

text \<open>The client has a current command with flags \<open>fl\<close>; if commands are queued it is complete.\<close>

definition cur_ok :: "rq_server \<Rightarrow> read_flag set \<Rightarrow> 'a client \<Rightarrow> bool" where
  "cur_ok srv fl c \<longleftrightarrow> buf_ok (c_in c) \<and> queue_ok srv (c_in c) (c_queue c) \<and>
     (if q_cmds (c_queue c) = [] then last_ok srv fl (c_args c) (c_in c)
      else fl = {PARSING_COMPLETED} \<and> items_ok srv (c_in c) (c_queue c))"

text \<open>Input not yet parsed and commands not yet executed.\<close>

definition pot :: "'a client \<Rightarrow> nat" where
  "pot c = 2 * rem (c_in c) + (length (q_cmds (c_queue c)) - q_off (c_queue c))"

definition round_post :: "rq_server \<Rightarrow> 'a client \<Rightarrow> 'a client \<Rightarrow> bool" where
  "round_post srv c c' \<longleftrightarrow> (\<exists>b a q fl. c' = c\<lparr>c_in := b, c_args := a, c_queue := q, c_flags := c_flags c \<union> fl\<rparr> \<and> cur_ok srv fl c' \<and>
     (fl \<noteq> {} \<and> fl \<inter> rq_errors = {} \<longrightarrow> pot c' < pot c))"

definition ready :: "rq_server \<Rightarrow> 'a client \<Rightarrow> bool" where
  "ready srv c \<longleftrightarrow> srv_ok srv \<and> in_ok srv (c_in c) \<and> star_ok (c_in c) \<and> args_ok (c_in c) (c_args c) \<and>
     queue_ok srv (c_in c) (c_queue c) \<and> q_cmds (c_queue c) = [] \<and> \<not> c_replicated c \<and> REPLICATED \<notin> c_flags c"

lemma parseMultibulkBuffer_safe:
  assumes "ready srv c" "ib_reqtype (c_in c) = PROTO_REQ_MULTIBULK"
  shows "ensures (parseMultibulkBuffer srv c) (round_post srv c)"
proof -
  note r = assms(1) [unfolded ready_def]
  have q: "q_off (c_queue c) = 0" "q_cmds (c_queue c) = []" using r by (auto simp: queue_ok_def)
  obtain f b a where p: "parseMultibulk srv (c_flags c) (c_in c) (c_args c) = Inr (f, b, a)" "mb_post srv (rem (c_in c)) f b a"
    using parseMultibulk_safe [of srv "c_in c" "c_args c" "c_flags c"] r assms(2) by (auto simp: ensures_def)
  let ?c = "c\<lparr>c_in := b, c_args := a, c_flags := c_flags c \<union> set_option f\<rparr>"
  have bo: "buf_ok b" "rem b \<le> rem (c_in c)" using p(2) by (auto simp: mb_post_def)
  have lt: "rem b < rem (c_in c)" if "f = Some g" "g \<notin> rq_errors" for g
    using p(2) that by (auto simp: mb_post_def)
  have now: "round_post srv c ?c"
    unfolding round_post_def
    using mb_post_last [OF p(2)] bo lt r q
    by (intro exI [of _ b] exI [of _ a] exI [of _ "c_queue c"] exI [of _ "set_option f"]) (cases f; auto simp: cur_ok_def queue_ok_def pot_def)
  have nr: "REPLICATED \<notin> c_flags ?c" using r p(2) by (cases f) (auto simp: mb_post_def)
  have co: "in_ok srv b \<or> f \<noteq> Some PARSING_COMPLETED" "f = Some PARSING_COMPLETED \<Longrightarrow> ib_mbl b = 0"
    using p(2) by (auto simp: mb_post_def)
  have "ensures (pipeline_loop 1026 srv f ?c) (\<lambda>c'. \<exists>b' q. c' = ?c\<lparr>c_in := b', c_queue := q\<rparr> \<and> buf_ok b' \<and> queue_ok srv b' q \<and> q_off q = 0 \<and>
    items_ok srv b' q \<and> (q_cmds q = [] \<longrightarrow> b' = b) \<and> rem b' + length (q_cmds q) \<le> rem b + 1 \<and> (q_cmds q \<noteq> [] \<longrightarrow> f = Some PARSING_COMPLETED))"
    by (rule ensures_mono [OF pipeline_loop_safe]) (use co bo nr r q in \<open>auto simp: items_ok_def queue_ok_def\<close>)
  then obtain b' q where l: "pipeline_loop 1026 srv f ?c = Inr (?c\<lparr>c_in := b', c_queue := q\<rparr>)" "buf_ok b'" "queue_ok srv b' q" "q_off q = 0"
    "items_ok srv b' q" "q_cmds q = [] \<longrightarrow> b' = b" "rem b' + length (q_cmds q) \<le> rem b + 1" "q_cmds q \<noteq> [] \<longrightarrow> f = Some PARSING_COMPLETED"
    unfolding ensures_def by blast
  have m: "2 * rem b' + length (q_cmds q) \<le> 2 * rem b + 1"
  proof (cases "q_cmds q")
    case (Cons x xs)
    then show ?thesis using l(7) by simp
  qed (use l(6) in simp)
  have "round_post srv c (?c\<lparr>c_in := b', c_queue := q\<rparr>)"
    unfolding round_post_def
    using mb_post_last [OF p(2)] l(2-6,8) lt q m
    by (intro exI [of _ b'] exI [of _ a] exI [of _ q] exI [of _ "set_option f"]) (cases f; auto simp: cur_ok_def pot_def)
  then show ?thesis using p(1) now l(1) r by (simp add: parseMultibulkBuffer_def Let_def)
qed

lemma parseInlineBuffer_safe:
  assumes "ready srv c" "ib_reqtype (c_in c) = PROTO_REQ_INLINE"
  shows "ensures (parseInlineBuffer c) (round_post srv c)"
proof -
  note r = assms(1) [unfolded ready_def]
  let ?buf = "ib_buf (c_in c)" and ?pos = "ib_pos (c_in c)"
  have m: "ib_mbl (c_in c) = 0" "av_argv (c_args c) = []" using r assms(2) by (auto simp: in_ok_def args_ok_def)
  have q: "q_off (c_queue c) = 0" "q_cmds (c_queue c) = []" using r by (auto simp: queue_ok_def)
  have err: "round_post srv c (c\<lparr>c_flags := c_flags c \<union> fl\<rparr>)" if "fl = {} \<or> (\<exists>e \<in> rq_errors. fl = {e})" for fl
    unfolding round_post_def using that r q
    by (intro exI [of _ "c_in c"] exI [of _ "c_args c"] exI [of _ "c_queue c"] exI [of _ fl]) (auto simp: cur_ok_def last_ok_def in_ok_def)
  show ?thesis
  proof (cases "strchr 10 (drop ?pos ?buf)")
    case None
    then show ?thesis using err [of "{ERROR_BIG_INLINE_REQUEST}"] err [of "{}"] by (simp add: parseInlineBuffer_def add_flag_def Let_def)
  next
    case (Some i)
    have i: "?pos + i < length ?buf" using strchr_Some [OF Some] by auto
    define crlf where "crlf = (i \<noteq> 0 \<and> ?buf ! (?pos + i - 1) = 13)"
    define ql where "ql = (if crlf then i - 1 else i)"
    have "ql \<le> i" by (simp add: ql_def)
    then obtain rv where rv: "sdsnsplitargs (?buf @ [0]) ?pos ql = Inr rv"
      using sdsnsplitargs_safe [of ?pos ql "?buf @ [0]"] i by (auto simp: returns_def)
    let ?p = "?pos + ql + (if crlf then 2 else 1)"
    have p: "?p \<le> length ?buf" "?pos < ?p" using i by (auto simp: ql_def crlf_def)
    have def: "parseInlineBuffer c = (case rv of None \<Rightarrow> Inr (c\<lparr>c_flags := c_flags c \<union> {ERROR_UNBALANCED_QUOTES}\<rparr>)
      | Some argv \<Rightarrow> Inr (c\<lparr>c_in := (c_in c)\<lparr>ib_pos := ?p, ib_reqtype := 0\<rparr>, c_args := inline_args argv (c_args c),
          c_flags := c_flags c \<union> ({PARSING_COMPLETED} \<union> (if ql = 0 then {INLINE_ZERO_QUERY_LEN} else {}))\<rparr>))"
      using Some rv r unfolding parseInlineBuffer_def Let_def Some option.case crlf_def [symmetric] ql_def [symmetric]
      by (auto simp: add_flag_def insert_commute split: option.splits)
    show ?thesis
    proof (cases rv)
      case None
      then show ?thesis using def err [of "{ERROR_UNBALANCED_QUOTES}"] by simp
    next
      case (Some argv)
      let ?fl = "{PARSING_COMPLETED} \<union> (if ql = 0 then {INLINE_ZERO_QUERY_LEN} else {})"
      let ?c = "c\<lparr>c_in := (c_in c)\<lparr>ib_pos := ?p, ib_reqtype := 0\<rparr>, c_args := inline_args argv (c_args c), c_flags := c_flags c \<union> ?fl\<rparr>"
      have "cur_ok srv ?fl ?c" using r q m p by (auto simp: cur_ok_def last_ok_def in_ok_def buf_ok_def star_ok_def queue_ok_def)
      moreover have "pot ?c < pot c" using p q by (auto simp: pot_def)
      ultimately have "round_post srv c ?c" unfolding round_post_def
        by (intro exI [of _ "c_in ?c"] exI [of _ "c_args ?c"] exI [of _ "c_queue c"] exI [of _ ?fl]) simp
      then show ?thesis using def Some by simp
    qed
  qed
qed

lemma parseInputBuffer_safe:
  assumes "ready srv c" "ib_owner (c_in c) \<noteq> QB_NULL" "ib_pos (c_in c) < length (ib_buf (c_in c))"
  shows "ensures (parseInputBuffer srv c) (round_post srv c)"
proof -
  note r = assms(1) [unfolded ready_def]
  have q: "q_cmds (c_queue c) = []" using r by simp
  have typed: "ensures (if ib_reqtype (c_in c') = PROTO_REQ_INLINE then parseInlineBuffer c'
      else if ib_reqtype (c_in c') = PROTO_REQ_MULTIBULK then parseMultibulkBuffer srv c' else Inl RQ_ASSERT) (round_post srv c')"
    if "ready srv c'" "ib_reqtype (c_in c') \<noteq> 0" for c' :: "'a client"
    using parseInlineBuffer_safe [OF that(1)] parseMultibulkBuffer_safe [OF that(1)] that
    by (auto simp: ready_def in_ok_def le_Suc_eq numeral_2_eq_2)
  show ?thesis
  proof (cases "ib_reqtype (c_in c) = 0")
    case True
    let ?c = "c\<lparr>c_in := (c_in c)\<lparr>ib_reqtype := (if ib_buf (c_in c) ! ib_pos (c_in c) = 42 then PROTO_REQ_MULTIBULK else PROTO_REQ_INLINE)\<rparr>\<rparr>"
    have "ready srv ?c" using r True assms(3) by (auto simp: ready_def in_ok_def buf_ok_def star_ok_def args_ok_def queue_ok_def)
    moreover have "round_post srv ?c c' \<Longrightarrow> round_post srv c c'" for c'
      by (auto simp: round_post_def pot_def)
    ultimately show ?thesis using typed [of ?c] True q assms(2) qb_at_in [OF assms(3)]
      by (auto simp: parseInputBuffer_def elim!: ensures_mono)
  next
    case False
    then show ?thesis using typed [OF assms(1)] q assms(2) by (simp add: parseInputBuffer_def)
  qed
qed

section \<open>Invariant of the client\<close>

definition cl_ok :: "rq_server \<Rightarrow> 'a client \<Rightarrow> bool" where
  "cl_ok srv c \<longleftrightarrow> srv_ok srv \<and> buf_ok (c_in c) \<and> queue_ok srv (c_in c) (c_queue c) \<and> \<not> c_replicated c \<and> \<not> c_pending_command c \<and>
     (c_close_after_reply c \<or> c_cmd c = c_blocked c \<and>
       (if q_cmds (c_queue c) = [] then in_ok srv (c_in c) \<and> star_ok (c_in c) \<and> (if c_blocked c then ib_mbl (c_in c) = 0 else args_ok (c_in c) (c_args c))
        else items_ok srv (c_in c) (c_queue c)))"

lemma consumeCommandQueue_safe:
  assumes "cl_ok srv c" "canParseCommand srv c" "consumeCommandQueue c = Some c'"
  shows "round_post srv c c'"
proof -
  let ?q = "c_queue c"
  let ?p = "q_cmds ?q ! q_off ?q"
  have lt: "q_off ?q < length (q_cmds ?q)" using assms(3) by (auto simp: consumeCommandQueue_def Let_def split: if_splits)
  then have ne: "q_cmds ?q \<noteq> []" by auto
  have i: "items_ok srv (c_in c) ?q" using assms(1,2) ne by (auto simp: cl_ok_def canParseCommand_def)
  let ?q' = "if Suc (q_off ?q) = length (q_cmds ?q) then ?q\<lparr>q_cmds := [], q_off := 0\<rparr> else ?q\<lparr>q_off := Suc (q_off ?q)\<rparr>"
  have c': "c' = c\<lparr>c_in := c_in c, c_args := p_args ?p, c_queue := ?q', c_flags := c_flags c \<union> p_flags ?p\<rparr>"
    using assms(3) lt by (auto simp: consumeCommandQueue_def Let_def)
  have q: "queue_ok srv (c_in c) ?q'" using assms(1) lt by (auto simp: cl_ok_def queue_ok_def)
  have "cur_ok srv (p_flags ?p) c'"
  proof (cases "Suc (q_off ?q) = length (q_cmds ?q)")
    case True
    then have "last (q_cmds ?q) = ?p" using ne by (metis diff_Suc_1 last_conv_nth)
    then show ?thesis using i q ne True assms(1) by (simp add: c' cur_ok_def items_ok_def cl_ok_def)
  next
    case False
    then show ?thesis using i q ne lt assms(1) by (auto simp: c' cur_ok_def items_ok_def cl_ok_def)
  qed
  moreover have "length (q_cmds ?q') - q_off ?q' < length (q_cmds ?q) - q_off ?q" using lt by auto
  then have "pot c' < pot c" unfolding pot_def c' by simp
  ultimately show ?thesis unfolding round_post_def c' by blast
qed

lemma next_command_safe:
  assumes "cl_ok srv c" "canParseCommand srv c" "REPLICATED \<notin> c_flags c"
    "ib_owner (c_in c) \<noteq> QB_NULL \<and> ib_pos (c_in c) < length (ib_buf (c_in c)) \<or> q_off (c_queue c) < length (q_cmds (c_queue c))"
  shows "ensures (case consumeCommandQueue c of Some c \<Rightarrow> Inr c | None \<Rightarrow> parseInputBuffer srv c) (round_post srv c)"
proof (cases "consumeCommandQueue c")
  case (Some c')
  then show ?thesis using consumeCommandQueue_safe [OF assms(1,2) Some] by simp
next
  case None
  then have "\<not> q_off (c_queue c) < length (q_cmds (c_queue c))" by (auto simp: consumeCommandQueue_def Let_def split: if_splits)
  then have "q_cmds (c_queue c) = []" using assms(1) by (auto simp: cl_ok_def queue_ok_def)
  then have "ready srv c" using assms(1-3) by (auto simp: cl_ok_def ready_def canParseCommand_def)
  then show ?thesis using None parseInputBuffer_safe assms(4) \<open>\<not> q_off (c_queue c) < length (q_cmds (c_queue c))\<close> by auto
qed

lemma isParsingError_iff: "isParsingError c \<longleftrightarrow> c_flags c \<inter> rq_errors \<noteq> {}"
  by (simp add: isParsingError_def rq_errors_def)

text \<open>The outcomes of a round, and what handleParseResults makes of them.\<close>

lemma round_cases:
  assumes "round_post srv c c'" "c_flags c \<subseteq> {AUTH_REQUIRED}"
  obtains b a q fl where "c' = c\<lparr>c_in := b, c_args := a, c_queue := q, c_flags := c_flags c \<union> fl\<rparr>" "buf_ok b" "queue_ok srv b q"
    "handleParseResults c' = (PARSE_ERR, setProtocolError c')"
  | b a q where "c' = c\<lparr>c_in := b, c_args := a, c_queue := q, c_flags := c_flags c \<union> {}\<rparr>" "buf_ok b" "queue_ok srv b q"
    "q_cmds q = []" "in_ok srv b" "star_ok b" "args_ok b a" "handleParseResults c' = (PARSE_NEEDMORE, c')"
  | b a q fl where "c' = c\<lparr>c_in := b, c_args := a, c_queue := q, c_flags := c_flags c \<union> fl\<rparr>" "buf_ok b" "queue_ok srv b q" "pot c' < pot c"
    "q_cmds q = []" "in_ok srv b" "ib_mbl b = 0"
    "handleParseResults c' = (PARSE_OK, (resetClient c')\<lparr>c_in := b\<lparr>ib_reqtype := 0\<rparr>\<rparr>)"
  | b a q where "c' = c\<lparr>c_in := b, c_args := a, c_queue := q, c_flags := c_flags c \<union> {PARSING_COMPLETED}\<rparr>" "buf_ok b" "queue_ok srv b q" "pot c' < pot c"
    "if q_cmds q = [] then in_ok srv b \<and> star_ok b \<and> ib_mbl b = 0 else items_ok srv b q" "handleParseResults c' = (PARSE_OK, c')"
proof -
  obtain b a q fl where c': "c' = c\<lparr>c_in := b, c_args := a, c_queue := q, c_flags := c_flags c \<union> fl\<rparr>" "cur_ok srv fl c'"
    "fl \<noteq> {} \<and> fl \<inter> rq_errors = {} \<longrightarrow> pot c' < pot c"
    using assms(1) unfolding round_post_def by blast
  have nf: "c_flags c \<inter> rq_errors = {}" "INLINE_ZERO_QUERY_LEN \<notin> c_flags c" "PARSING_NEGATIVE_MBULK_LEN \<notin> c_flags c" "PARSING_COMPLETED \<notin> c_flags c"
    using assms(2) by auto
  have base: "buf_ok b" "queue_ok srv b q" using c'(2) by (auto simp: c'(1) cur_ok_def)
  have pe: "isParsingError c' \<longleftrightarrow> fl \<inter> rq_errors \<noteq> {}" using nf by (auto simp: isParsingError_iff c'(1))
  have h: "handleParseResults c' = (if fl \<inter> rq_errors \<noteq> {} then (PARSE_ERR, setProtocolError c')
    else if INLINE_ZERO_QUERY_LEN \<in> fl \<or> PARSING_NEGATIVE_MBULK_LEN \<in> fl then (PARSE_OK, (resetClient c')\<lparr>c_in := b\<lparr>ib_reqtype := 0\<rparr>\<rparr>)
    else if PARSING_COMPLETED \<in> fl then (PARSE_OK, c') else (PARSE_NEEDMORE, c'))"
    using nf(2-4) by (simp add: handleParseResults_def pe Let_def) (simp add: c'(1) resetClient_def)
  show thesis
  proof (cases "fl \<inter> rq_errors = {}")
    case False
    then show thesis using that(1) [OF c'(1) base] h by simp
  next
    case noerr: True
    show thesis
    proof (cases "fl = {}")
      case True
      then show thesis using that(2) [where b = b and a = a and q = q] c' base h by (auto simp: cur_ok_def last_ok_def split: if_splits)
    next
      case False
      then have p: "pot c' < pot c" using c'(3) noerr by blast
      show thesis
      proof (cases "INLINE_ZERO_QUERY_LEN \<in> fl \<or> PARSING_NEGATIVE_MBULK_LEN \<in> fl")
        case True
        then have "q_cmds q = []" "in_ok srv b" "ib_mbl b = 0"
          using c'(2) noerr by (auto simp: cur_ok_def last_ok_def c'(1) split: if_splits)
        then show thesis using that(3) [OF c'(1) base p] h True noerr by simp
      next
        case nz: False
        then have "fl = {PARSING_COMPLETED}" "if q_cmds q = [] then in_ok srv b \<and> star_ok b \<and> ib_mbl b = 0 else items_ok srv b q"
          using c'(2) noerr False by (auto simp: cur_ok_def last_ok_def c'(1) split: if_splits)
        then show thesis using that(4) [where b = b and a = a and q = q] c'(1) base p h by simp
      qed
    qed
  qed
qed

section \<open>The loop over the input\<close>

lemma resetSharedQueryBuf_ok:
  "buf_ok b \<Longrightarrow> buf_ok (resetSharedQueryBuf b) \<and> rem (resetSharedQueryBuf b) = rem b \<and> ib_mbl (resetSharedQueryBuf b) = ib_mbl b \<and>
   (in_ok srv b \<longrightarrow> in_ok srv (resetSharedQueryBuf b)) \<and> (star_ok b \<longrightarrow> star_ok (resetSharedQueryBuf b)) \<and> args_ok (resetSharedQueryBuf b) = args_ok b"
  by (auto simp: resetSharedQueryBuf_def buf_ok_def in_ok_def star_ok_def args_ok_def fun_eq_iff)

lemma last_ok_in_cong:
  assumes "last_ok srv fl a b" "in_ok srv b \<Longrightarrow> in_ok srv b'" "star_ok b \<Longrightarrow> star_ok b'" "args_ok b' = args_ok b" "ib_mbl b' = ib_mbl b"
  shows "last_ok srv fl a b'"
  using assms by (auto simp: last_ok_def)

lemma cl_ok_in_cong:
  assumes "cl_ok srv c" "buf_ok b'" "in_ok srv (c_in c) \<Longrightarrow> in_ok srv b'" "star_ok (c_in c) \<Longrightarrow> star_ok b'" "args_ok b' = args_ok (c_in c)"
    "ib_mbl b' = ib_mbl (c_in c)"
  shows "cl_ok srv (c\<lparr>c_in := b'\<rparr>)"
  using assms last_ok_in_cong [OF _ assms(3-6)] by (auto simp: cl_ok_def queue_ok_def items_ok_def)

lemma cl_ok_reset_shared: "cl_ok srv c \<Longrightarrow> cl_ok srv (c\<lparr>c_in := resetSharedQueryBuf (c_in c)\<rparr>)"
  by (rule cl_ok_in_cong) (auto simp: resetSharedQueryBuf_ok cl_ok_def)

lemma cl_ok_flags: "cl_ok srv (c\<lparr>c_flags := fl\<rparr>) = cl_ok srv c"
  by (simp add: cl_ok_def)

lemma cl_ok_app: "cl_ok srv (c\<lparr>c_app := s, c_log := l\<rparr>) = cl_ok srv c"
  by (simp add: cl_ok_def)

text \<open>A complete command may be executed.\<close>

definition run_ok :: "rq_server \<Rightarrow> 'a client \<Rightarrow> bool" where
  "run_ok srv c \<longleftrightarrow> cl_ok srv (resetClient c) \<and> cl_ok srv (c\<lparr>c_cmd := True, c_blocked := True\<rparr>)"

lemma run_ok_reset_shared:
  assumes "run_ok srv c"
  shows "run_ok srv (c\<lparr>c_in := resetSharedQueryBuf (c_in c)\<rparr>)" "pot (c\<lparr>c_in := resetSharedQueryBuf (c_in c)\<rparr>) = pot c"
proof -
  let ?b = "resetSharedQueryBuf (c_in c)"
  have "cl_ok srv ((resetClient c)\<lparr>c_in := ?b\<rparr>)" "cl_ok srv (c\<lparr>c_cmd := True, c_blocked := True, c_in := ?b\<rparr>)"
    using assms cl_ok_reset_shared [of srv "resetClient c"] cl_ok_reset_shared [of srv "c\<lparr>c_cmd := True, c_blocked := True\<rparr>"]
    unfolding run_ok_def by (simp_all add: resetClient_def)
  moreover have "resetClient (c\<lparr>c_in := ?b\<rparr>) = (resetClient c)\<lparr>c_in := ?b\<rparr>"
    "c\<lparr>c_in := ?b, c_cmd := True, c_blocked := True\<rparr> = c\<lparr>c_cmd := True, c_blocked := True, c_in := ?b\<rparr>"
    by (simp_all add: resetClient_def)
  ultimately show "run_ok srv (c\<lparr>c_in := ?b\<rparr>)" unfolding run_ok_def by (simp only:)
  have "buf_ok (c_in c)" using assms by (simp add: run_ok_def cl_ok_def)
  then show "pot (c\<lparr>c_in := resetSharedQueryBuf (c_in c)\<rparr>) = pot c" using resetSharedQueryBuf_ok [of "c_in c" srv] by (simp add: pot_def)
qed

lemma handleParseResults_safe:
  assumes c: "cl_ok srv c" "canParseCommand srv c" and fl: "c_flags c \<subseteq> {AUTH_REQUIRED}" and p: "round_post srv c c'"
  obtains r c'' where "handleParseResults c' = (r, c'')" "r \<noteq> PARSE_OK" "cl_ok srv c''"
  | c'' where "handleParseResults c' = (PARSE_OK, c'')" "pot c'' < pot c" "run_ok srv c''" "av_argv (c_args c'') = [] \<longrightarrow> cl_ok srv c''"
proof -
  have live: "\<not> c_cmd c" "\<not> c_blocked c" "\<not> c_close_after_reply c" "\<not> c_replicated c" "\<not> c_pending_command c" "srv_ok srv"
    using c by (auto simp: cl_ok_def canParseCommand_def)
  from p fl show thesis
  proof (cases rule: round_cases)
    case (1 b a q fl)
    then show thesis using that(1) live by (simp add: setProtocolError_def cl_ok_def)
  next
    case (2 b a q)
    then show thesis using that(1) live by (simp add: cl_ok_def)
  next
    case (3 b a q fl)
    then show thesis using that(2) [OF 3(8)] live
      by (simp add: run_ok_def resetClient_def cl_ok_def pot_def in_ok_def buf_ok_def star_ok_def args_ok_def no_args_def queue_ok_def)
  next
    case (4 b a q)
    then show thesis using that(2) [OF 4(6)] live
      by (auto simp: run_ok_def resetClient_def cl_ok_def args_ok_def no_args_def split: if_splits)
  qed
qed

lemma cl_ok_close: "cl_ok srv c \<Longrightarrow> cl_ok srv (c\<lparr>c_close_after_reply := True\<rparr>)"
  by (simp add: cl_ok_def)

lemma processCommand_safe:
  assumes "run_ok srv c" "processCommandAndResetClient A c = (alive, c')" "alive"
  shows "cl_ok srv c'" "pot c' = pot c"
proof -
  obtain s out where s: "ax_exec A (c_app c) (av_argv (c_args c)) = (s, out)" by (cases "ax_exec A (c_app c) (av_argv (c_args c))")
  let ?l = "c_log c @ [av_argv (c_args c)]"
  have "c' = (case out of CMD_BLOCK \<Rightarrow> c\<lparr>c_cmd := True, c_blocked := True\<rparr>
      | CMD_CLOSE \<Rightarrow> (resetClient c)\<lparr>c_close_after_reply := True\<rparr> | _ \<Rightarrow> resetClient c)\<lparr>c_app := s, c_log := ?l\<rparr>"
    using assms(2,3) s by (cases out) (auto simp: processCommandAndResetClient_def resetClient_def)
  moreover have "cl_ok srv (resetClient c)" "cl_ok srv (c\<lparr>c_cmd := True, c_blocked := True\<rparr>)" "cl_ok srv ((resetClient c)\<lparr>c_close_after_reply := True\<rparr>)"
    using assms(1) cl_ok_close by (auto simp: run_ok_def)
  ultimately show "cl_ok srv c'" by (cases out) (simp_all only: cl_ok_app cmd_outcome.case)
  show "pot c' = pot c" using assms(2,3) s by (cases out) (auto simp: processCommandAndResetClient_def resetClient_def pot_def)
qed

lemma pib_loop_safe:
  assumes "cl_ok srv c" "pot c < n"
  shows "ensures (pib_loop n A srv c) (\<lambda>(alive, c'). alive \<longrightarrow> cl_ok srv c')"
  using assms
proof (induction n arbitrary: c)
  case (Suc n)
  let ?c = "c\<lparr>c_flags := client_flags A c\<rparr>"
  show ?case
  proof (cases "(ib_owner (c_in c) \<noteq> QB_NULL \<and> ib_pos (c_in c) < length (ib_buf (c_in c)) \<or> q_off (c_queue c) < length (q_cmds (c_queue c))) \<and> canParseCommand srv c")
    case True
    have c: "cl_ok srv ?c" "canParseCommand srv ?c" "c_flags ?c \<subseteq> {AUTH_REQUIRED}" "pot ?c = pot c" "\<not> c_replicated c"
      using Suc.prems(1) True by (auto simp: cl_ok_def canParseCommand_def client_flags_def pot_def)
    obtain c' where c': "(case consumeCommandQueue ?c of Some c \<Rightarrow> Inr c | None \<Rightarrow> parseInputBuffer srv ?c) = Inr c'" "round_post srv ?c c'"
      using next_command_safe [OF c(1,2)] c(3) True by (auto simp: ensures_def client_flags_def c(5))
    from c(1-3) c'(2) show ?thesis
    proof (cases rule: handleParseResults_safe)
      case (1 r c'')
      then show ?thesis using True c'(1) by (simp add: Let_def)
    next
      case (2 c'')
      show ?thesis
      proof (cases "av_argv (c_args c'') = []")
        case empty: True
        then have "ensures (pib_loop n A srv c'') (\<lambda>(alive, c'). alive \<longrightarrow> cl_ok srv c')" using Suc 2 c(4) by simp
        then show ?thesis using True c'(1) 2(1) empty by (simp add: Let_def)
      next
        case False
        let ?d = "if ib_owner (c_in c'') = QB_SHARED then c''\<lparr>c_in := resetSharedQueryBuf (c_in c'')\<rparr> else c''"
        obtain alive d where d: "processCommandAndResetClient A ?d = (alive, d)" by (cases "processCommandAndResetClient A ?d")
        have "run_ok srv ?d" "pot ?d = pot c''"
          using 2(3) run_ok_reset_shared [OF 2(3)] by simp_all
        then have "alive \<longrightarrow> ensures (pib_loop n A srv d) (\<lambda>(alive, c'). alive \<longrightarrow> cl_ok srv c')"
          using processCommand_safe [OF _ d] Suc 2(2) c(4) by simp
        then show ?thesis using True c'(1) 2(1) False d by (simp add: Let_def del: if_split)
      qed
    qed
  next
    case False
    then show ?thesis using Suc.prems by auto
  qed
qed simp

section \<open>The handlers\<close>

lemma processInputBuffer_safe:
  "cl_ok srv c \<Longrightarrow> ensures (processInputBuffer A srv c) (\<lambda>(alive, c'). alive \<longrightarrow> cl_ok srv c')"
  unfolding processInputBuffer_def by (rule pib_loop_safe) (auto simp: pot_def)

lemma bit_length_bounds: "n < 2 ^ bit_length n \<and> (0 < n \<longrightarrow> 2 ^ bit_length n \<le> 2 * n)"
proof (induction n rule: bit_length.induct)
  case (1 n)
  have e: "bit_length n = (if n = 0 then 0 else Suc (bit_length (n div 2)))" by (rule bit_length.simps)
  show ?case
  proof (cases "n \<le> 1")
    case True
    then have "n = 0 \<or> n = 1" by auto
    then show ?thesis by (auto simp: bit_length.simps [of 0] bit_length.simps [of "Suc 0"])
  next
    case False
    then show ?thesis using 1 e by auto
  qed
qed

lemma trimCommandQueue_safe:
  assumes "cl_ok srv c"
  shows "ensures (trimCommandQueue c) (cl_ok srv)"
proof -
  let ?q = "c_queue c"
  let ?len = "length (q_cmds ?q)"
  let ?k = "2 ^ bit_length (?len - 1) :: nat"
  let ?cap = "if ?len = 1 then 1 else ?k"
  have q: "?len \<le> q_cap ?q" "q_cap ?q \<le> 1024" using assms by (auto simp: cl_ok_def queue_ok_def)
  have k: "cl_ok srv (c\<lparr>c_queue := ?q\<lparr>q_cap := k\<rparr>\<rparr>)" if "?len \<le> k" "k \<le> 1024" for k
    using assms that by (auto simp: cl_ok_def queue_ok_def items_ok_def)
  have c: "?len \<le> ?cap \<and> ?cap \<le> 2048" if "?len \<noteq> 0"
  proof (cases "?len = 1")
    case False
    then have "0 < ?len - 1" using that by linarith
    then have "?len - 1 < ?k" "?k \<le> 2 * (?len - 1)" using bit_length_bounds [of "?len - 1"] by auto
    then have "?len \<le> ?k" "?k \<le> 2048" using q by linarith+
    then show ?thesis using False by simp
  qed simp
  then have m: "?cap mod 2 ^ 16 = ?cap" if "?len \<noteq> 0" using that by (intro mod_less) (simp add: le_less_trans)
  show ?thesis
    using assms k [of 0] k [of "max ?cap 16"] c m q by (auto simp: trimCommandQueue_def Let_def max_def)
qed

lemma cl_ok_buf: "cl_ok srv c \<Longrightarrow> buf_ok (c_in c)"
  by (simp add: cl_ok_def)

lemma cl_ok_trim:
  assumes "cl_ok srv c"
  shows "cl_ok srv (c\<lparr>c_in := (c_in c)\<lparr>ib_buf := drop (ib_pos (c_in c)) (ib_buf (c_in c)), ib_pos := 0\<rparr>\<rparr>)"
  by (rule cl_ok_in_cong [OF assms]) (use cl_ok_buf [OF assms] in \<open>auto simp: buf_ok_def in_ok_def star_ok_def args_ok_def fun_eq_iff\<close>)

lemma trimClientQueryBuffer_safe:
  assumes "cl_ok srv c"
  shows "ensures (trimClientQueryBuffer (c_in c)) (\<lambda>b. cl_ok srv (c\<lparr>c_in := b\<rparr>))"
proof -
  define b where "b = (if ib_owner (c_in c) = QB_SHARED then resetSharedQueryBuf (c_in c) else c_in c)"
  have c: "cl_ok srv (c\<lparr>c_in := b\<rparr>)" using assms cl_ok_reset_shared [OF assms] by (simp add: b_def)
  then have "ib_pos b \<le> length (ib_buf b)" by (simp add: cl_ok_def buf_ok_def)
  then show ?thesis using c cl_ok_trim [OF c] by (simp add: trimClientQueryBuffer_def b_def [symmetric])
qed

lemma beforeNextClient_safe:
  "cl_ok srv c \<Longrightarrow> ensures (beforeNextClient c) (\<lambda>(alive, c'). alive \<longrightarrow> cl_ok srv c')"
  unfolding beforeNextClient_def by (rule ensures_bind [OF trimClientQueryBuffer_safe [of srv c]]) simp_all

lemma cl_ok_append:
  assumes "cl_ok srv c" "w \<noteq> QB_NULL"
    "if ib_owner (c_in c) = QB_NULL then w = QB_OWN \<or> \<not> (ib_reqtype (c_in c) = PROTO_REQ_MULTIBULK \<and> ib_mbl (c_in c) \<noteq> 0 \<and> ib_bulk (c_in c) \<ge> PROTO_MBULK_BIG_ARG) else w = ib_owner (c_in c)"
  shows "cl_ok srv (c\<lparr>c_in := (c_in c)\<lparr>ib_buf := ib_buf (c_in c) @ d, ib_owner := w\<rparr>\<rparr>)"
  by (rule cl_ok_in_cong [OF assms(1)])
    (use cl_ok_buf [OF assms(1)] assms(2,3) in \<open>auto simp: buf_ok_def in_ok_def star_ok_def args_ok_def fun_eq_iff nth_append split: if_splits\<close>)

lemma readToQueryBuf_safe:
  assumes "cl_ok srv c" "readToQueryBuf A srv data c = (nread, c')"
  shows "cl_ok srv c'"
proof -
  let ?big = "ib_reqtype (c_in c) = PROTO_REQ_MULTIBULK \<and> ib_mbl (c_in c) \<noteq> 0 \<and> ib_bulk (c_in c) \<noteq> - 1 \<and> ib_bulk (c_in c) \<ge> PROTO_MBULK_BIG_ARG"
  have e: "ib_owner (c_in c) = QB_NULL \<Longrightarrow> ib_buf (c_in c) = []" using assms(1) by (auto simp: cl_ok_def buf_ok_def)
  define w where "w = (if ib_owner (c_in c) = QB_NULL then if ?big then QB_OWN else QB_SHARED else ib_owner (c_in c))"
  have w: "w \<noteq> QB_NULL" "if ib_owner (c_in c) = QB_NULL then w = QB_OWN \<or> \<not> (ib_reqtype (c_in c) = PROTO_REQ_MULTIBULK \<and> ib_mbl (c_in c) \<noteq> 0 \<and> ib_bulk (c_in c) \<ge> PROTO_MBULK_BIG_ARG) else w = ib_owner (c_in c)"
    by (auto simp: w_def)
  have b: "(if ib_owner (c_in c) = QB_NULL then (c_in c)\<lparr>ib_buf := [], ib_owner := (if ?big then QB_OWN else QB_SHARED)\<rparr> else c_in c) = (c_in c)\<lparr>ib_owner := w\<rparr>"
    using e by (cases "ib_owner (c_in c) = QB_NULL") (simp_all add: w_def)
  have "c' = c \<or> (\<exists>d fl. c' = c\<lparr>c_in := (c_in c)\<lparr>ib_buf := ib_buf (c_in c) @ d, ib_owner := w\<rparr>, c_flags := fl\<rparr>)"
  proof (cases "c_close_asap c \<or> (\<nexists>d. data = Received d) \<or> data = Received []")
    case True
    then show ?thesis using assms(2) unfolding readToQueryBuf_def Let_def b
      by (auto intro!: exI [of _ "[]"] exI [of _ "c_flags c"] split: if_splits conn_result.splits)
  next
    case False
    then obtain d where "\<not> c_close_asap c" "data = Received d" "d \<noteq> []" by blast
    then show ?thesis using assms(2) unfolding readToQueryBuf_def Let_def b
      by (auto simp: add_flag_def intro!: exI [of _ d] exI [of _ "c_flags c'"] split: if_splits)
  qed
  then show ?thesis using assms(1) cl_ok_append [OF assms(1) w] by (auto simp: cl_ok_flags)
qed

lemma readQueryFromClient_safe:
  assumes "cl_ok srv c"
  shows "ensures (readQueryFromClient A srv data c) (\<lambda>(alive, c'). alive \<longrightarrow> cl_ok srv c')"
proof -
  obtain nread c1 where c1: "readToQueryBuf A srv data c = (nread, c1)" by (cases "readToQueryBuf A srv data c")
  obtain ok c2 where c2: "handleReadResult nread c1 = (ok, c2)" by (cases "handleReadResult nread c1")
  have "cl_ok srv c1" by (rule readToQueryBuf_safe [OF assms c1])
  then have ok: "cl_ok srv c2" using c2 by (auto simp: handleReadResult_def cl_ok_def split: conn_result.splits if_splits)
  have next_client: "ensures (rbind (trimCommandQueue c) beforeNextClient) (\<lambda>(alive, c'). alive \<longrightarrow> cl_ok srv c')" if "cl_ok srv c" for c :: "'a client"
    by (rule ensures_bind [OF trimCommandQueue_safe [OF that] beforeNextClient_safe])
  show ?thesis
    using ensures_bind [OF processInputBuffer_safe [OF ok, of A], where f = "\<lambda>(alive, c). if \<not> alive then Inr (False, c) else rbind (trimCommandQueue c) beforeNextClient"]
      next_client beforeNextClient_safe [OF ok]
    by (auto simp: readQueryFromClient_def c1 c2)
qed

lemma unblockClient_safe: "cl_ok srv c \<Longrightarrow> c_blocked c \<Longrightarrow> cl_ok srv (unblockClient c)"
  by (auto simp: cl_ok_def unblockClient_def resetClient_def args_ok_def no_args_def)

lemma processUnblockedClient_safe:
  assumes "cl_ok srv c"
  shows "ensures (processUnblockedClient A srv c) (\<lambda>(alive, c'). alive \<longrightarrow> cl_ok srv c')"
proof -
  let ?c = "c\<lparr>c_unblocked := False\<rparr>"
  have c: "cl_ok srv ?c" "\<not> c_pending_command ?c" using assms by (auto simp: cl_ok_def)
  have "ensures (if \<not> c_blocked ?c then processPendingCommandAndInputBuffer A srv ?c else Inr (True, ?c)) (\<lambda>(alive, c'). alive \<longrightarrow> cl_ok srv c')"
    using c processInputBuffer_safe [OF c(1), of A] by (simp add: processPendingCommandAndInputBuffer_def)
  then show ?thesis unfolding processUnblockedClient_def Let_def
    by (rule ensures_bind) (auto intro: beforeNextClient_safe)
qed

section \<open>Runs\<close>

text \<open>What happens to a client: its descriptor is readable, a command that blocks it is answered, or the loop
  resumes it.\<close>

datatype rq_event = Readable conn_result | Unblock | Resume

definition rq_step :: "'a app \<Rightarrow> rq_server \<Rightarrow> rq_event \<Rightarrow> 'a client \<Rightarrow> (bool \<times> 'a client) rq_res" where
  "rq_step A srv ev c = (case ev of
     Readable data \<Rightarrow> readQueryFromClient A srv data c
   | Unblock \<Rightarrow> Inr (True, if c_blocked c then unblockClient c else c)
   | Resume \<Rightarrow> if c_unblocked c then processUnblockedClient A srv c else Inr (True, c))"

fun rq_run :: "'a app \<Rightarrow> rq_server \<Rightarrow> rq_event list \<Rightarrow> 'a client \<Rightarrow> (bool \<times> 'a client) rq_res" where
  "rq_run A srv [] c = Inr (True, c)"
| "rq_run A srv (ev # evs) c = rbind (rq_step A srv ev c) (\<lambda>(alive, c). if alive then rq_run A srv evs c else Inr (False, c))"

lemma rq_step_safe:
  "cl_ok srv c \<Longrightarrow> ensures (rq_step A srv ev c) (\<lambda>(alive, c'). alive \<longrightarrow> cl_ok srv c')"
  by (auto simp: rq_step_def readQueryFromClient_safe unblockClient_safe processUnblockedClient_safe split: rq_event.split)

lemma rq_run_safe:
  "cl_ok srv c \<Longrightarrow> ensures (rq_run A srv evs c) (\<lambda>(alive, c'). alive \<longrightarrow> cl_ok srv c')"
proof (induction evs arbitrary: c)
  case (Cons ev evs)
  show ?case unfolding rq_run.simps
    by (rule ensures_bind [OF rq_step_safe [OF Cons.prems]]) (use Cons.IH in auto)
qed simp

lemma new_client_ok: "srv_ok srv \<Longrightarrow> cl_ok srv (new_client s)"
  by (simp add: cl_ok_def new_client_def buf_ok_def queue_ok_def in_ok_def star_ok_def args_ok_def no_args_def)

section \<open>Property\<close>


definition srv_default :: rq_server where
  "srv_default = \<lparr>proto_max_bulk_len = 536870912, client_max_querybuf_len = 1073741824, inside_yielding = False\<rparr>"

definition app_ok :: "unit app" where
  "app_ok = \<lparr>ax_exec = (\<lambda>s argv. (s, CMD_OK)), ax_auth = (\<lambda>_. False), ax_multi = (\<lambda>_. 0)\<rparr>"


end
