(* ===== verification/Spec2Isabelle.thy ===== *)
theory Spec2Isabelle
  imports Numstr Intset Keyslot Listpack_Validate Sock_Shim Wakeup Adlist_Rep Request_Safe
begin

text \<open>
  Verification of the C core of valkey-wasm. (Plan of the development: text and number
  conversion, glob matching, integer sets, listpacks, linked lists, hash slots, the event loop
  and its WASI bridge.)
\<close>

end
